(* ===== verification/Prelude.thy ===== *)
theory Prelude
  imports Main "HOL-Library.Word" "HOL-Library.Monad_Syntax"
begin

text \<open>
  Shared vocabulary of the development.

  Rust behaviour that HOL has no counterpart for is made explicit here once:
  \<^item> a panic (a failed \<^verbatim>\<open>assert!\<close>, an index or slice out of range, \<^verbatim>\<open>unwrap\<close> on \<^verbatim>\<open>None\<close>,
    an unsigned subtraction below zero) is the value \<open>None\<close> of \<open>'a option\<close>; code that can panic
    is written with \<open>do\<close> over \<open>option\<close>, so a panic anywhere is a panic of the whole call;
  \<^item> \<^verbatim>\<open>usize\<close> values (lengths, indices) are \<open>nat\<close>; \<^verbatim>\<open>u8\<close>, \<^verbatim>\<open>u64\<close> are words; \<^verbatim>\<open>i64\<close> is
    \<open>64 word\<close> read by \<open>sint\<close> where its bits matter and \<open>int\<close> with an explicit range
    check where only its value does;
  \<^item> \<^verbatim>\<open>Vec\<close> operations (\<^verbatim>\<open>resize\<close>, slices, \<^verbatim>\<open>last_mut\<close>, \<^verbatim>\<open>iter_mut().find\<close>) are the list
    functions below.
\<close>

unbundle bit_operations_syntax

type_synonym u8 = "8 word"
type_synonym u64 = "64 word"

named_theorems panic_simps \<open>unfolding rules for operations that may panic\<close>

subsection \<open>Panicking primitives\<close>

definition assert_that :: "bool \<Rightarrow> unit option" where
  "assert_that b = (if b then Some () else None)"

definition nth_opt :: "'a list \<Rightarrow> nat \<Rightarrow> 'a option" where
  "nth_opt xs i = (if i < length xs then Some (xs ! i) else None)"

definition subslice :: "nat \<Rightarrow> nat \<Rightarrow> 'a list \<Rightarrow> 'a list option" where
  "subslice a b xs = (if a \<le> b \<and> b \<le> length xs then Some (take (b - a) (drop a xs)) else None)"

definition checked_sub :: "nat \<Rightarrow> nat \<Rightarrow> nat option" where
  "checked_sub a b = (if b \<le> a then Some (a - b) else None)"

definition update_last :: "('a \<Rightarrow> 'a) \<Rightarrow> 'a list \<Rightarrow> 'a list option" where
  "update_last f xs = (if xs = [] then None else Some (butlast xs @ [f (last xs)]))"

definition resize :: "nat \<Rightarrow> 'a \<Rightarrow> 'a list \<Rightarrow> 'a list" where
  "resize n v xs = take n xs @ replicate (n - length xs) v"

lemma assert_that_simps [simp, panic_simps]:
  "assert_that True = Some ()" "assert_that False = None"
  by (simp_all add: assert_that_def)

lemma assert_that_Some [simp]: "assert_that b = Some u \<longleftrightarrow> b"
  by (simp add: assert_that_def)

lemma nth_opt_Some [simp]: "i < length xs \<Longrightarrow> nth_opt xs i = Some (xs ! i)"
  by (simp add: nth_opt_def)

lemma nth_opt_None [simp]: "length xs \<le> i \<Longrightarrow> nth_opt xs i = None"
  by (simp add: nth_opt_def)

lemma subslice_Some [simp]:
  "a \<le> b \<Longrightarrow> b \<le> length xs \<Longrightarrow> subslice a b xs = Some (take (b - a) (drop a xs))"
  by (simp add: subslice_def)

lemma checked_sub_Some [simp]: "b \<le> a \<Longrightarrow> checked_sub a b = Some (a - b)"
  by (simp add: checked_sub_def)

lemma checked_sub_None [simp]: "a < b \<Longrightarrow> checked_sub a b = None"
  by (simp add: checked_sub_def)

lemma update_last_snoc [simp]: "update_last f (xs @ [x]) = Some (xs @ [f x])"
  by (simp add: update_last_def)

lemma update_last_Nil [simp]: "update_last f [] = None"
  by (simp add: update_last_def)

lemma length_resize [simp]: "length (resize n v xs) = n"
  by (simp add: resize_def)

lemma resize_grow: "length xs \<le> n \<Longrightarrow> resize n v xs = xs @ replicate (n - length xs) v"
  by (simp add: resize_def)

lemma append_take_drop_append [simp]: "take n xs @ drop n xs @ zs = xs @ zs"
  by (simp flip: append_assoc)

text \<open>Rounding a bit count up to bytes.\<close>

lemma bytes_add_whole: "(8 * j + x + 7) div 8 = j + (x + 7) div (8 :: nat)"
  using div_mult_self2 [of 8 "x + 7" j] by (simp add: algebra_simps)

lemma bytes_1: "0 < x \<Longrightarrow> x \<le> 8 \<Longrightarrow> (x + 7) div (8 :: nat) = 1"
  by (rule div_nat_eqI) simp_all

lemma bytes_2: "8 < x \<Longrightarrow> x \<le> 16 \<Longrightarrow> (x + 7) div (8 :: nat) = 2"
  by (rule div_nat_eqI) simp_all

lemma bytes_count: "(n + 7) div 8 = n div 8 + (if n mod 8 = 0 then 0 else 1 :: nat)"
proof -
  have "(n + 7) div 8 = (8 * (n div 8) + n mod 8 + 7) div 8" by simp
  also have "\<dots> = n div 8 + (n mod 8 + 7) div 8" by (rule bytes_add_whole)
  also have "(n mod 8 + 7) div 8 = (if n mod 8 = 0 then 0 else 1)" by (simp add: bytes_1 order_less_imp_le)
  finally show ?thesis .
qed

lemma bytes_cover: "n \<le> 8 * ((n + 7) div (8 :: nat))"
proof -
  have "n = 8 * (n div 8) + n mod 8" "n mod 8 < 8" by simp_all
  then show ?thesis unfolding bytes_count by (simp only: add_mult_distrib2 split: if_split) linarith
qed

lemma bytes_gt: "Suc k < (e + 7) div 8 \<Longrightarrow> 8 * Suc k < (e :: nat)"
  using less_eq_div_iff_mult_less_eq [of 8 "Suc (Suc k)" "e + 7"] by simp

lemma next_byte: "8 * Suc (s div 8) = s + (8 - s mod (8 :: nat))"
proof -
  have "s mod 8 \<le> 8" by (simp add: order_less_imp_le)
  then have "s mod 8 + (8 - s mod 8) = 8" by (rule le_add_diff_inverse)
  then have "8 * Suc (s div 8) = 8 * (s div 8) + (s mod 8 + (8 - s mod 8))" by (simp only: mult_Suc_right add.commute)
  also have "\<dots> = s + (8 - s mod 8)" by (simp only: add.assoc [symmetric] mult_div_mod_eq)
  finally show ?thesis .
qed

lemma length_take_drop_diff:
  "b \<le> length xs \<Longrightarrow> length (take (b - a) (drop a xs)) = b - a"
  by simp

lemma nonempty_snoc:
  assumes "xs \<noteq> []"
  obtains ys y where "xs = ys @ [y]"
  using assms by (metis append_butlast_last_id)

subsection \<open>Integers at their width\<close>

text \<open>
  Values of \<^verbatim>\<open>i64\<close> and \<^verbatim>\<open>u64\<close> as integers in their range. The plain operators are those of a build
  with overflow checks: leaving the range is a panic. \<^verbatim>\<open>checked_add(..).expect(..)\<close> is the same
  function in every build.
\<close>

definition i64_min :: int where
  "i64_min = - (2 ^ 63)"

definition i64_max :: int where
  "i64_max = 2 ^ 63 - 1"

definition in_i64 :: "int \<Rightarrow> bool" where
  "in_i64 v \<longleftrightarrow> i64_min \<le> v \<and> v \<le> i64_max"

definition i64_add :: "int \<Rightarrow> int \<Rightarrow> int option" where
  "i64_add a b = (if in_i64 (a + b) then Some (a + b) else None)"

definition i64_sub :: "int \<Rightarrow> int \<Rightarrow> int option" where
  "i64_sub a b = (if in_i64 (a - b) then Some (a - b) else None)"

definition u64_add :: "nat \<Rightarrow> nat \<Rightarrow> nat option" where
  "u64_add a b = (if a + b < 2 ^ 64 then Some (a + b) else None)"

lemma u64_add_ok [simp]: "a + b < 2 ^ 64 \<Longrightarrow> u64_add a b = Some (a + b)"
  by (simp add: u64_add_def)

lemma u64_add_Some: "u64_add a b = Some c \<longleftrightarrow> c = a + b \<and> a + b < 2 ^ 64"
  by (auto simp: u64_add_def)

lemma u64_add_None: "u64_add a b = None \<longleftrightarrow> 2 ^ 64 \<le> a + b"
  by (simp add: u64_add_def not_less)

lemma i64_sub_Some: "i64_sub a b = Some c \<longleftrightarrow> c = a - b \<and> in_i64 (a - b)"
  by (auto simp: i64_sub_def)

text \<open>Doubles are kept as their IEEE 754 bit pattern; the order is that of the sign-magnitude key.\<close>

type_synonym f64 = "64 word"

definition f64_magnitude :: "f64 \<Rightarrow> nat" where
  "f64_magnitude w = unat (w AND mask 63)"

definition f64_is_nan :: "f64 \<Rightarrow> bool" where
  "f64_is_nan w \<longleftrightarrow> f64_magnitude w > 0x7FF0000000000000"

definition f64_is_infinite :: "f64 \<Rightarrow> bool" where
  "f64_is_infinite w \<longleftrightarrow> f64_magnitude w = 0x7FF0000000000000"

definition f64_key :: "f64 \<Rightarrow> int" where
  "f64_key w = (if bit w 63 then - int (f64_magnitude w) else int (f64_magnitude w))"

definition f64_gt :: "f64 \<Rightarrow> f64 \<Rightarrow> bool" where
  "f64_gt a b \<longleftrightarrow> \<not> f64_is_nan a \<and> \<not> f64_is_nan b \<and> f64_key a > f64_key b"

subsection \<open>Formatting of integers and booleans\<close>

fun nat_fmt :: "nat \<Rightarrow> string" where
  "nat_fmt n = (if n < 10 then [char_of (48 + n)] else nat_fmt (n div 10) @ [char_of (48 + n mod 10)])"

declare nat_fmt.simps [simp del]

definition int_fmt :: "int \<Rightarrow> string" where
  "int_fmt v = (if v < 0 then CHR ''-'' # nat_fmt (nat (- v)) else nat_fmt (nat v))"

definition bool_fmt :: "bool \<Rightarrow> string" where
  "bool_fmt b = (if b then ''true'' else ''false'')"

text \<open>\<^verbatim>\<open>str::replace\<close> of one character by a string.\<close>

definition replace_char :: "char \<Rightarrow> string \<Rightarrow> string \<Rightarrow> string" where
  "replace_char c r s = concat (map (\<lambda>x. if x = c then r else [x]) s)"

lemma replace_char_simps [simp]:
  "replace_char c r [] = []" "replace_char c r (x # xs) = (if x = c then r else [x]) @ replace_char c r xs"
  "replace_char c r (xs @ ys) = replace_char c r xs @ replace_char c r ys"
  by (simp_all add: replace_char_def)

subsection \<open>Searching and updating vectors\<close>

text \<open>\<^verbatim>\<open>iter_mut().find(p)\<close> followed by a write through the reference.\<close>

primrec update_first :: "('a \<Rightarrow> bool) \<Rightarrow> ('a \<Rightarrow> 'a) \<Rightarrow> 'a list \<Rightarrow> 'a list" where
  "update_first P f [] = []"
| "update_first P f (x # xs) = (if P x then f x # xs else x # update_first P f xs)"

lemma length_update_first [simp]: "length (update_first P f xs) = length xs"
  by (induction xs) simp_all

lemma map_update_first: "(\<And>x. g (f x) = g x) \<Longrightarrow> map g (update_first P f xs) = map g xs"
  by (induction xs) simp_all

lemma update_first_None: "find P xs = None \<Longrightarrow> update_first P f xs = xs"
  by (induction xs) (auto split: if_splits)

lemma find_SomeD: "find P xs = Some x \<Longrightarrow> P x \<and> x \<in> set xs"
  by (auto simp: find_Some_iff)

lemma find_unique:
  assumes "distinct (map k xs)" "x \<in> set xs"
  shows "find (\<lambda>y. k y = k x) xs = Some x"
  using assms by (induction xs) (auto simp: image_iff)

lemma set_update_first:
  "set (update_first P f xs) \<subseteq> set xs \<union> f ` {x \<in> set xs. P x}"
  by (induction xs) auto

lemma find_update_first:
  assumes "find P xs = Some x" "P (f x)"
  shows "find P (update_first P f xs) = Some (f x)"
  using assms by (induction xs) (auto split: if_splits)

lemma find_update_other:
  assumes "\<And>y. P y \<Longrightarrow> \<not> Q y" "\<And>y. P y \<Longrightarrow> \<not> Q (f y)"
  shows "find Q (update_first P f xs) = find Q xs"
  using assms by (induction xs) auto

lemma update_first_unique:
  assumes "distinct (map k xs)"
  shows "update_first (\<lambda>y. k y = c) f xs = map (\<lambda>y. if k y = c then f y else y) xs"
  using assms by (induction xs) (auto simp: image_iff intro!: map_idI [symmetric])

end
