(* ===== verification/Bitset.thy ===== *)
theory Bitset
  imports Prelude "HOL-Library.Sublist"
begin

text \<open>
  The packed bit set of \<^verbatim>\<open>arrow_util/src/bitset.rs\<close>: the null masks and boolean columns of the
  write path. Bits are stored least significant bit first in a byte vector with a separate
  length. The specification is a list of booleans (\<open>bs_bits\<close>); every operation is shown to
  act on that list as its documentation says, and to keep the representation invariant
  \<open>bs_wf\<close> (the buffer has exactly the needed bytes and every bit past the length is zero).
  Lengths are natural numbers: appending so many bits that the length no longer fits a \<^verbatim>\<open>usize\<close>, whose buffer no
  memory could hold, is outside the model.
\<close>

subsection \<open>The data structure and its operations\<close>

record BitSet =
  bs_buffer :: "u8 list"
  bs_len :: nat

definition bs_new :: BitSet where
  "bs_new = \<lparr>bs_buffer = [], bs_len = 0\<rparr>"

text \<open>Capacity is not observable, so \<^verbatim>\<open>with_capacity\<close> is the empty set and \<^verbatim>\<open>reserve\<close> is the identity.\<close>

definition bs_with_capacity :: "nat \<Rightarrow> BitSet" where
  "bs_with_capacity n = \<lparr>bs_buffer = [], bs_len = 0\<rparr>"

definition bs_reserve :: "BitSet \<Rightarrow> nat \<Rightarrow> BitSet" where
  "bs_reserve self count = self"

definition bs_append_unset :: "BitSet \<Rightarrow> nat \<Rightarrow> BitSet" where
  "bs_append_unset self count =
     (let n = bs_len self + count;
          new_buf_len = (n + 7) div 8
      in self\<lparr>bs_buffer := resize new_buf_len 0 (bs_buffer self), bs_len := n\<rparr>)"

definition bs_with_size :: "nat \<Rightarrow> BitSet" where
  "bs_with_size count = bs_append_unset bs_new count"

definition bs_append_set :: "BitSet \<Rightarrow> nat \<Rightarrow> BitSet option" where
  "bs_append_set self count =
     (let new_len = bs_len self + count;
          new_buf_len = (new_len + 7) div 8;
          skew = bs_len self mod 8
      in do {
        buf \<leftarrow> (if skew \<noteq> 0
                then update_last (\<lambda>b. b OR push_bit skew 0xFF) (bs_buffer self)
                else Some (bs_buffer self));
        let buf = resize new_buf_len 0xFF buf;
        let rem = new_len mod 8;
        buf \<leftarrow> (if rem \<noteq> 0
                then update_last (\<lambda>b. b AND (push_bit rem 1 - 1)) buf
                else Some buf);
        Some (self\<lparr>bs_buffer := buf, bs_len := new_len\<rparr>)
      })"

definition bs_truncate :: "BitSet \<Rightarrow> nat \<Rightarrow> BitSet option" where
  "bs_truncate self n =
     (let new_buf_len = (n + 7) div 8;
          buf = take new_buf_len (bs_buffer self);
          overrun = n mod 8
      in do {
        buf \<leftarrow> (if overrun > 0
                then update_last (\<lambda>b. b AND (push_bit overrun 1 - 1)) buf
                else Some buf);
        Some (self\<lparr>bs_buffer := buf, bs_len := n\<rparr>)
      })"

text \<open>The loop of \<^verbatim>\<open>append_bits\<close> over the whole bytes when the set does not end on a byte boundary.\<close>

fun append_skewed :: "nat \<Rightarrow> u8 list \<Rightarrow> u8 list \<Rightarrow> u8 list option" where
  "append_skewed skew [] buf = Some buf"
| "append_skewed skew (to_set_byte # rest) buf =
     (let low = push_bit skew to_set_byte;
          high = drop_bit (8 - skew) to_set_byte
      in do {
        buf \<leftarrow> update_last (\<lambda>b. b OR low) buf;
        append_skewed skew rest (buf @ [high])
      })"

definition bs_append_bits :: "BitSet \<Rightarrow> nat \<Rightarrow> u8 list \<Rightarrow> BitSet option" where
  "bs_append_bits self count to_set = do {
     assert_that ((count + 7) div 8 = length to_set);
     let new_len = bs_len self + count;
     let new_buf_len = (new_len + 7) div 8;
     additional \<leftarrow> checked_sub new_buf_len (length (bs_buffer self));
     let whole_bytes = count div 8;
     let overrun = count mod 8;
     let skew = bs_len self mod 8;
     if skew = 0 then do {
       whole \<leftarrow> subslice 0 whole_bytes to_set;
       let buf = bs_buffer self @ whole;
       buf \<leftarrow> (if overrun > 0 then do {
                 b \<leftarrow> nth_opt to_set whole_bytes;
                 let masked = b AND (push_bit overrun 1 - 1);
                 Some (buf @ [masked])
               } else Some buf);
       assert_that (length buf = new_buf_len);
       Some (self\<lparr>bs_buffer := buf, bs_len := new_len\<rparr>)
     } else do {
       whole \<leftarrow> subslice 0 whole_bytes to_set;
       buf \<leftarrow> append_skewed skew whole (bs_buffer self);
       buf \<leftarrow> (if overrun > 0 then do {
                 b \<leftarrow> nth_opt to_set whole_bytes;
                 let masked = b AND (push_bit overrun 1 - 1);
                 let low = push_bit skew masked;
                 buf \<leftarrow> update_last (\<lambda>x. x OR low) buf;
                 Some (if overrun > 8 - skew then buf @ [drop_bit (8 - skew) masked] else buf)
               } else Some buf);
       assert_that (length buf = new_buf_len);
       Some (self\<lparr>bs_buffer := buf, bs_len := new_len\<rparr>)
     }
   }"

definition bs_extend_from :: "BitSet \<Rightarrow> BitSet \<Rightarrow> BitSet option" where
  "bs_extend_from self other = bs_append_bits self (bs_len other) (bs_buffer other)"

definition bs_extend_from_range :: "BitSet \<Rightarrow> BitSet \<Rightarrow> nat \<Rightarrow> nat \<Rightarrow> BitSet option" where
  "bs_extend_from_range self other range_start range_end = do {
     count \<leftarrow> checked_sub range_end range_start;
     if count = 0 then Some self
     else let start_byte = range_start div 8;
              end_byte = (range_end + 7) div 8;
              skew = range_start mod 8
       in if skew = 0 then do {
            bytes \<leftarrow> subslice start_byte end_byte (bs_buffer other);
            bs_append_bits self count bytes
          } else if start_byte + 1 = end_byte then do {
            b \<leftarrow> nth_opt (bs_buffer other) start_byte;
            bs_append_bits self count [drop_bit skew b]
          } else do {
            let offset = 8 - skew;
            b \<leftarrow> nth_opt (bs_buffer other) start_byte;
            self' \<leftarrow> bs_append_bits self offset [drop_bit skew b];
            rest \<leftarrow> checked_sub count offset;
            bytes \<leftarrow> subslice (start_byte + 1) end_byte (bs_buffer other);
            bs_append_bits self' rest bytes
          }
   }"

text \<open>\<^verbatim>\<open>split_off\<close> returns the truncated left part and the new right part.\<close>

definition bs_split_off :: "BitSet \<Rightarrow> nat \<Rightarrow> (BitSet \<times> BitSet) option" where
  "bs_split_off self n = do {
     cap \<leftarrow> checked_sub (bs_len self) n;
     right \<leftarrow> bs_extend_from_range (bs_with_capacity cap) self n (bs_len self);
     left \<leftarrow> bs_truncate self n;
     Some (left, right)
   }"

definition bs_set :: "BitSet \<Rightarrow> nat \<Rightarrow> BitSet option" where
  "bs_set self idx = do {
     assert_that (idx \<le> bs_len self);
     let byte_idx = idx div 8;
     let bit_idx = idx mod 8;
     b \<leftarrow> nth_opt (bs_buffer self) byte_idx;
     Some (self\<lparr>bs_buffer := (bs_buffer self)[byte_idx := b OR push_bit bit_idx 1]\<rparr>)
   }"

definition bs_get :: "BitSet \<Rightarrow> nat \<Rightarrow> bool option" where
  "bs_get self idx = do {
     assert_that (idx \<le> bs_len self);
     let byte_idx = idx div 8;
     let bit_idx = idx mod 8;
     b \<leftarrow> nth_opt (bs_buffer self) byte_idx;
     Some (drop_bit bit_idx b AND 1 \<noteq> 0)
   }"

definition bs_is_empty :: "BitSet \<Rightarrow> bool" where
  "bs_is_empty self = (bs_len self = 0)"

definition bs_byte_len :: "BitSet \<Rightarrow> nat" where
  "bs_byte_len self = length (bs_buffer self)"

text \<open>\<^verbatim>\<open>to_arrow\<close> hands the bytes, the offset and the bit length to arrow's \<^verbatim>\<open>BooleanBuffer::new\<close>.\<close>

definition bs_to_arrow :: "BitSet \<Rightarrow> u8 list \<times> nat \<times> nat" where
  "bs_to_arrow self = (let offset = 0 in (bs_buffer self, offset, bs_len self))"

definition bs_is_all_set :: "BitSet \<Rightarrow> bool option" where
  "bs_is_all_set self =
     (if bs_len self = 0 then Some False
      else let full_blocks = bs_len self div 8 - 1
        in if \<not> list_all (\<lambda>v. v = 0xFF) (take full_blocks (bs_buffer self)) then Some False
           else let mask = (if bs_len self mod 8 = 0 then 0xFF
                            else NOT (push_bit (bs_len self mod 8) 0xFF))
             in if bs_buffer self = [] then None
                else Some (last (bs_buffer self) = mask))"

definition bs_is_all_unset :: "BitSet \<Rightarrow> bool" where
  "bs_is_all_unset self = list_all (\<lambda>v. v = 0) (bs_buffer self)"

text \<open>Rust's \<^verbatim>\<open>u8::count_ones\<close> and \<^verbatim>\<open>u8::trailing_zeros\<close>.\<close>

definition count_ones :: "u8 \<Rightarrow> nat" where
  "count_ones b = length (filter (bit b) [0..<8])"

definition trailing_zeros :: "u8 \<Rightarrow> nat" where
  "trailing_zeros b = length (takeWhile (\<lambda>i. \<not> bit b i) [0..<8])"

definition bs_count_ones :: "BitSet \<Rightarrow> nat" where
  "bs_count_ones self = sum_list (map count_ones (bs_buffer self))"

definition bs_count_zeros :: "BitSet \<Rightarrow> nat option" where
  "bs_count_zeros self = checked_sub (bs_len self) (bs_count_ones self)"

definition bs_is_any_set :: "BitSet \<Rightarrow> bool" where
  "bs_is_any_set self = list_ex (\<lambda>v. v \<noteq> 0) (bs_buffer self)"

definition bs_and :: "BitSet \<Rightarrow> BitSet \<Rightarrow> BitSet option" where
  "bs_and self other = do {
     assert_that (bs_len self = bs_len other);
     Some \<lparr>bs_buffer = map (\<lambda>(a, b). a AND b) (zip (bs_buffer self) (bs_buffer other)),
           bs_len = bs_len self\<rparr>
   }"

subsection \<open>The iterators\<close>

record BitIter =
  it_buffer :: "u8 list"
  it_idx :: nat
  it_len :: nat

definition iter_new :: "BitSet \<Rightarrow> BitIter" where
  "iter_new b = \<lparr>it_buffer = bs_buffer b, it_idx = 0, it_len = bs_len b\<rparr>"

text \<open>One call of \<^verbatim>\<open>next\<close>: the yielded item (if any) and the iterator afterwards.\<close>

definition iter_next :: "BitIter \<Rightarrow> (bool option \<times> BitIter) option" where
  "iter_next it =
     (if it_idx it \<ge> it_len it then Some (None, it)
      else let byte_idx = it_idx it div 8;
               shift = it_idx it mod 8;
               it' = it\<lparr>it_idx := it_idx it + 1\<rparr>
        in do {
          byte \<leftarrow> nth_opt (it_buffer it) byte_idx;
          Some (Some (drop_bit shift byte AND 1 = 1), it')
        })"

definition iter_size_hint :: "BitIter \<Rightarrow> (nat \<times> nat option) option" where
  "iter_size_hint it = do {
     v \<leftarrow> checked_sub (it_len it) (it_idx it);
     Some (v, Some v)
   }"

text \<open>All items of an iterator: \<^verbatim>\<open>next\<close> until it yields nothing.\<close>

function iter_collect :: "BitIter \<Rightarrow> bool list option" where
  "iter_collect it =
     (case iter_next it of
        None \<Rightarrow> None
      | Some (None, _) \<Rightarrow> Some []
      | Some (Some b, it') \<Rightarrow> (case iter_collect it' of None \<Rightarrow> None | Some bs \<Rightarrow> Some (b # bs)))"
  by pat_completeness auto
termination
  by (relation "measure (\<lambda>it. it_len it - it_idx it)")
    (auto simp: iter_next_def Let_def split: if_splits Option.bind_splits)

declare iter_collect.simps [simp del]

lemma length_filter_upt: "length (filter Q [0..<n]) = card {i. i < n \<and> Q i}"
proof -
  have "length (filter Q [0..<n]) = card (set (filter Q [0..<n]))"
    by (rule distinct_card [symmetric]) simp
  also have "set (filter Q [0..<n]) = {i. i < n \<and> Q i}" by auto
  finally show ?thesis .
qed

lemma length_filter_bit_xor:
  assumes "p < 8" "bit (w :: u8) p"
  shows "length (filter (bit (w XOR 2 ^ p)) [0..<8]) < length (filter (bit w) [0..<8])"
proof -
  have "{i. i < 8 \<and> bit (w XOR 2 ^ p) i} = {i. i < 8 \<and> bit w i} - {p}"
    using assms by (auto simp: bit_simps)
  also have "\<dots> \<subset> {i. i < 8 \<and> bit w i}" using assms by auto
  finally have "card {i. i < 8 \<and> bit (w XOR 2 ^ p) i} < card {i. i < 8 \<and> bit w i}"
    by (intro psubset_card_mono) simp_all
  then show ?thesis by (simp add: length_filter_upt del: upt_rec_numeral)
qed

lemma ex_bit_of_nonzero:
  assumes "(w :: u8) \<noteq> 0"
  obtains i where "i < 8" "bit w i"
proof -
  have "\<not> (\<forall>i<8. \<not> bit w i)"
  proof
    assume "\<forall>i<8. \<not> bit w i"
    then have "w = 0" by (intro bit_word_eqI) simp
    then show False using assms by simp
  qed
  then show ?thesis using that by blast
qed

lemma trailing_zeros_bit:
  assumes "w \<noteq> 0"
  shows "trailing_zeros w < 8" "bit w (trailing_zeros w)" "\<And>i. i < trailing_zeros w \<Longrightarrow> \<not> bit w i"
proof -
  let ?t = "takeWhile (\<lambda>i. \<not> bit w i) [0..<8]"
  obtain i where i: "i < 8" "bit w i" by (rule ex_bit_of_nonzero [OF assms])
  have "?t \<noteq> [0..<8]" using i by (auto simp: takeWhile_eq_all_conv simp del: upt_rec_numeral)
  moreover have "prefix ?t [0..<8]" by (rule takeWhile_is_prefix)
  ultimately have len: "length ?t < length [0..<8]"
    by (metis prefix_length_less strict_prefix_def)
  then show lt: "trailing_zeros w < 8" by (simp add: trailing_zeros_def del: upt_rec_numeral)
  show "bit w (trailing_zeros w)"
    using nth_length_takeWhile [OF len] lt by (simp add: trailing_zeros_def del: upt_rec_numeral)
  show "\<not> bit w j" if "j < trailing_zeros w" for j
  proof -
    have "j < length ?t" using that by (simp add: trailing_zeros_def)
    then have "?t ! j \<in> set ?t" by (rule nth_mem)
    moreover have "?t ! j = j"
      using \<open>j < length ?t\<close> len by (simp add: takeWhile_nth del: upt_rec_numeral)
    ultimately show ?thesis using set_takeWhileD by fastforce
  qed
qed

text \<open>
  The closure of \<^verbatim>\<open>iter_set_positions_with_offset\<close>: yield the lowest set bit of the byte in
  progress and clear it, or advance to the next byte, until there is none.
\<close>

function positions_from :: "u8 list \<Rightarrow> nat \<Rightarrow> u8 \<Rightarrow> nat list" where
  "positions_from bytes byte_idx in_progress =
     (if in_progress \<noteq> 0
      then let bit_pos = trailing_zeros in_progress
           in (byte_idx * 8 + bit_pos) # positions_from bytes byte_idx (in_progress XOR push_bit bit_pos 1)
      else case nth_opt bytes (byte_idx + 1) of
             None \<Rightarrow> []
           | Some b \<Rightarrow> positions_from bytes (byte_idx + 1) b)"
  by pat_completeness auto
termination
  by (relation "measures [\<lambda>(bytes, i, w). length bytes - i, \<lambda>(bytes, i, w). count_ones w]")
    (auto simp: count_ones_def nth_opt_def trailing_zeros_bit length_filter_bit_xor split: if_splits)

declare positions_from.simps [simp del]

definition iter_set_positions_with_offset :: "u8 list \<Rightarrow> nat \<Rightarrow> nat list" where
  "iter_set_positions_with_offset bytes offset =
     (let byte_idx = offset div 8;
          in_progress = (case nth_opt bytes byte_idx of None \<Rightarrow> 0 | Some b \<Rightarrow> b);
          skew = offset mod 8
      in positions_from bytes byte_idx (in_progress AND push_bit skew 0xFF))"

definition iter_set_positions :: "u8 list \<Rightarrow> nat list" where
  "iter_set_positions bytes = iter_set_positions_with_offset bytes 0"

subsection \<open>Specification: a list of booleans\<close>

definition byte_bits :: "u8 \<Rightarrow> bool list" where
  "byte_bits b = map (bit b) [0..<8]"

definition unpack :: "u8 list \<Rightarrow> bool list" where
  "unpack bs = concat (map byte_bits bs)"

text \<open>The abstraction function and the representation invariant.\<close>

definition bs_bits :: "BitSet \<Rightarrow> bool list" where
  "bs_bits b = take (bs_len b) (unpack (bs_buffer b))"

definition bs_wf :: "BitSet \<Rightarrow> bool" where
  "bs_wf b \<longleftrightarrow> length (bs_buffer b) = (bs_len b + 7) div 8 \<and>
     list_all Not (drop (bs_len b) (unpack (bs_buffer b)))"

text \<open>A byte vector represents a list of bits: exactly the needed bytes, zero padded.\<close>

definition packs :: "u8 list \<Rightarrow> bool list \<Rightarrow> bool" where
  "packs buf xs \<longleftrightarrow> length buf = (length xs + 7) div 8 \<and>
     unpack buf = xs @ replicate (8 * length buf - length xs) False"

lemma length_byte_bits [simp]: "length (byte_bits b) = 8"
  by (simp add: byte_bits_def)

lemma nth_byte_bits [simp]: "i < 8 \<Longrightarrow> byte_bits b ! i = bit b i"
  by (simp add: byte_bits_def del: upt_rec_numeral)

lemma length_unpack [simp]: "length (unpack bs) = 8 * length bs"
  by (induction bs) (simp_all add: unpack_def)

lemma unpack_simps [simp]:
  "unpack [] = []" "unpack (b # bs) = byte_bits b @ unpack bs" "unpack (as @ bs) = unpack as @ unpack bs"
  by (simp_all add: unpack_def)

lemma byte_bits_inj: "byte_bits a = byte_bits b \<Longrightarrow> a = b"
proof (rule bit_word_eqI)
  fix n assume "byte_bits a = byte_bits b" "n < LENGTH(8)"
  then show "bit a n = bit b n" using nth_byte_bits [of n a] nth_byte_bits [of n b] by simp
qed

lemma byte_bits_not_Nil [simp]: "byte_bits b \<noteq> []"
  by (metis length_byte_bits list.size(3) zero_neq_numeral)

lemma unpack_inj: "unpack as = unpack bs \<Longrightarrow> as = bs"
proof (induction as arbitrary: bs)
  case Nil
  then show ?case by (cases bs) auto
next
  case (Cons a as)
  then obtain b bs' where "bs = b # bs'" by (cases bs) auto
  with Cons show ?case by (auto dest: byte_bits_inj)
qed

lemma byte_bits_eqI:
  assumes "length xs = 8" "\<And>i. i < 8 \<Longrightarrow> bit b i = xs ! i"
  shows "byte_bits b = xs"
  using assms by (intro nth_equalityI) simp_all

text \<open>Bytes as bit lists: constants, masks and shifts.\<close>

lemma byte_bits_0 [simp]: "byte_bits 0 = replicate 8 False"
  by (rule byte_bits_eqI) simp_all

lemma u8_255_mask: "(0xFF :: u8) = mask 8"
  by (simp add: mask_eq_exp_minus_1)

lemma push_bit_mask: "(push_bit k 1 - 1 :: u8) = mask k"
  by (simp add: mask_eq_exp_minus_1)

lemma byte_bits_255 [simp]: "byte_bits 0xFF = replicate 8 True"
  by (rule byte_bits_eqI) (simp_all add: u8_255_mask bit_mask_iff)

lemma byte_bits_and_mask:
  assumes "k \<le> 8"
  shows "byte_bits (b AND mask k) = take k (byte_bits b) @ replicate (8 - k) False"
  by (rule byte_bits_eqI) (use assms in \<open>auto simp: bit_simps nth_append\<close>)

lemma byte_bits_push_or:
  assumes "byte_bits b = xs @ replicate (8 - length xs) False" "length xs \<le> 8"
  shows "byte_bits (b OR push_bit (length xs) c) = xs @ take (8 - length xs) (byte_bits c)"
proof (rule byte_bits_eqI)
  fix i :: nat assume i: "i < 8"
  have "bit b i = (xs @ replicate (8 - length xs) False) ! i"
    using i assms(1) by (metis nth_byte_bits)
  then show "bit (b OR push_bit (length xs) c) i = (xs @ take (8 - length xs) (byte_bits c)) ! i"
    using i assms(2) by (auto simp: bit_simps nth_append)
qed (use assms in simp)

lemma byte_bits_drop:
  assumes "k \<le> 8"
  shows "byte_bits (drop_bit k c) = drop k (byte_bits c) @ replicate k False"
proof (rule byte_bits_eqI)
  fix i :: nat assume i: "i < 8"
  show "bit (drop_bit k c) i = (drop k (byte_bits c) @ replicate k False) ! i"
  proof (cases "i < 8 - k")
    case True
    then have "k + i < 8" by simp
    with True assms show ?thesis by (simp add: bit_simps nth_append)
  next
    case False
    with i assms show ?thesis
      using bit_imp_le_length [of c "k + i"] by (auto simp: bit_simps nth_append)
  qed
qed (use assms in simp)

text \<open>The invariant and the abstraction in terms of \<open>packs\<close>.\<close>

lemma bs_wf_iff_packs:
  "bs_wf b \<longleftrightarrow> packs (bs_buffer b) (bs_bits b) \<and> length (bs_bits b) = bs_len b"
proof
  assume wf: "bs_wf b"
  then have len: "length (bs_bits b) = bs_len b"
    by (auto simp: bs_wf_def bs_bits_def)
  have "drop (bs_len b) (unpack (bs_buffer b)) = replicate (8 * length (bs_buffer b) - bs_len b) False"
    using wf by (intro replicate_eqI) (auto simp: bs_wf_def list_all_iff)
  then have "unpack (bs_buffer b) = bs_bits b @ replicate (8 * length (bs_buffer b) - bs_len b) False"
    by (metis append_take_drop_id bs_bits_def)
  with wf len show "packs (bs_buffer b) (bs_bits b) \<and> length (bs_bits b) = bs_len b"
    by (simp add: packs_def bs_wf_def)
next
  assume p: "packs (bs_buffer b) (bs_bits b) \<and> length (bs_bits b) = bs_len b"
  then have "drop (bs_len b) (unpack (bs_buffer b)) = replicate (8 * length (bs_buffer b) - bs_len b) False"
    by (metis append_eq_conv_conj packs_def)
  with p show "bs_wf b" by (simp add: bs_wf_def packs_def list_all_iff)
qed

lemma packs_bs:
  assumes "packs buf xs"
  shows "bs_wf \<lparr>bs_buffer = buf, bs_len = length xs\<rparr>" "bs_bits \<lparr>bs_buffer = buf, bs_len = length xs\<rparr> = xs"
  using assms by (auto simp: bs_wf_iff_packs bs_bits_def packs_def)

lemma packs_inj: "packs a xs \<Longrightarrow> packs b xs \<Longrightarrow> a = b"
  by (rule unpack_inj) (simp add: packs_def)

text \<open>A packed vector splits into its whole bytes and, off a byte boundary, one partial last byte.\<close>

lemma packs_aligned: "length xs mod 8 = 0 \<Longrightarrow> packs buf xs \<longleftrightarrow> unpack buf = xs"
proof -
  assume "length xs mod 8 = 0"
  then obtain k where k: "length xs = 8 * k" by auto
  show ?thesis
  proof
    assume "packs buf xs"
    with k show "unpack buf = xs" by (simp add: packs_def)
  next
    assume "unpack buf = xs"
    with k show "packs buf xs" using length_unpack [of buf] by (auto simp: packs_def)
  qed
qed

lemma packs_skewed:
  assumes "length ys < 8" "ys \<noteq> []" "8 dvd length xs"
  shows "packs buf (xs @ ys) \<longleftrightarrow>
    (\<exists>as a. buf = as @ [a] \<and> unpack as = xs \<and> byte_bits a = ys @ replicate (8 - length ys) False)"
    (is "_ \<longleftrightarrow> ?R")
proof -
  obtain k where k: "length xs = 8 * k" using assms(3) by auto
  have n: "(length (xs @ ys) + 7) div 8 = Suc k"
    using k assms(1,2) by (cases ys) auto
  show ?thesis
  proof
    assume p: "packs buf (xs @ ys)"
    then have len: "length buf = Suc k" using n by (simp add: packs_def)
    then obtain as a where buf: "buf = as @ [a]" by (metis length_Suc_conv_rev)
    have "unpack as @ byte_bits a = xs @ ys @ replicate (8 - length ys) False"
      using p len k assms(1) by (simp add: packs_def buf)
    moreover have "length (unpack as) = length xs" using len k by (simp add: buf)
    ultimately show ?R using buf by auto
  next
    assume ?R
    then obtain as a where r: "buf = as @ [a]" "unpack as = xs" "byte_bits a = ys @ replicate (8 - length ys) False"
      by blast
    then have "length as = k" using k length_unpack [of as] by simp
    with r n k assms(1) show "packs buf (xs @ ys)" by (simp add: packs_def)
  qed
qed

lemma bits_split:
  obtains as bs where "xs = as @ bs" "8 dvd length as" "length bs = length xs mod 8"
proof
  let ?n = "8 * (length xs div 8)"
  show "xs = take ?n xs @ drop ?n xs" by simp
  have "?n \<le> length xs" by (metis times_div_less_eq_dividend)
  then have "length (take ?n xs) = ?n" by simp
  then show "8 dvd length (take ?n xs)" by simp
  show "length (drop ?n xs) = length xs mod 8" by (simp add: minus_mult_div_eq_mod)
qed

lemma packs_append_aligned:
  assumes "packs buf xs" "length xs mod 8 = 0" "packs bytes ys"
  shows "packs (buf @ bytes) (xs @ ys)"
proof -
  obtain k where k: "length xs = 8 * k" using assms(2) by auto
  have "unpack buf = xs" using assms(1,2) by (simp add: packs_aligned)
  moreover from this have "length buf = k" using k length_unpack [of buf] by simp
  ultimately show ?thesis using assms(3) k by (auto simp: packs_def)
qed

lemma packs_Cons_mask:
  assumes "0 < k" "k < 8"
  shows "packs [t AND mask k] (take k (byte_bits t))"
  using assms by (auto simp: packs_def byte_bits_and_mask)

text \<open>The partial last byte of a packed vector, and what or-ing shifted bits into it does.\<close>

lemma packs_last_or:
  assumes p: "packs buf (xs @ ys)" and ys: "0 < length ys" "length ys < 8" and xs: "8 dvd length xs"
  obtains buf' where "update_last (\<lambda>b. b OR push_bit (length ys) c) buf = Some buf'"
    "unpack buf' = xs @ ys @ take (8 - length ys) (byte_bits c)" "length buf' = length buf"
proof -
  obtain as a where r: "buf = as @ [a]" "unpack as = xs" "byte_bits a = ys @ replicate (8 - length ys) False"
    using p ys xs packs_skewed [of ys xs buf] by auto
  show ?thesis
  proof (rule that)
    show "update_last (\<lambda>b. b OR push_bit (length ys) c) buf = Some (as @ [a OR push_bit (length ys) c])"
      by (simp add: r)
    show "unpack (as @ [a OR push_bit (length ys) c]) = xs @ ys @ take (8 - length ys) (byte_bits c)"
      using r ys byte_bits_push_or [of a ys c] by simp
  qed (simp add: r)
qed

lemma packs_skewed_high:
  assumes buf: "unpack buf = xs @ ys @ take (8 - length ys) (byte_bits c)"
    and ys: "0 < length ys" "length ys < 8" and xs: "8 dvd length xs"
  shows "packs (buf @ [drop_bit (8 - length ys) c]) (xs @ ys @ byte_bits c)"
proof -
  let ?lo = "xs @ ys @ take (8 - length ys) (byte_bits c)" and ?hi = "drop (8 - length ys) (byte_bits c)"
  have "8 dvd length ?lo" using xs ys by auto
  moreover have "byte_bits (drop_bit (8 - length ys) c) = ?hi @ replicate (8 - length ?hi) False"
    using ys by (simp add: byte_bits_drop)
  moreover have "length ?hi < 8" "?hi \<noteq> []"
    using ys by (simp_all flip: length_greater_0_conv)
  ultimately have "packs (buf @ [drop_bit (8 - length ys) c]) (?lo @ ?hi)"
    using buf packs_skewed [of ?hi ?lo "buf @ [drop_bit (8 - length ys) c]"] by simp
  then show ?thesis by simp
qed

lemma append_skewed_packs:
  assumes "packs buf (xs @ ys)" "0 < length ys" "length ys < 8" "8 dvd length xs"
  shows "\<exists>buf'. append_skewed (length ys) bytes buf = Some buf' \<and> packs buf' (xs @ ys @ unpack bytes)"
  using assms
proof (induction bytes arbitrary: buf xs ys)
  case Nil
  then show ?case by simp
next
  case (Cons c bytes)
  obtain buf1 where 1: "update_last (\<lambda>b. b OR push_bit (length ys) c) buf = Some buf1"
      "unpack buf1 = xs @ ys @ take (8 - length ys) (byte_bits c)"
    using packs_last_or [OF Cons.prems] by metis
  let ?lo = "xs @ ys @ take (8 - length ys) (byte_bits c)" and ?hi = "drop (8 - length ys) (byte_bits c)"
  have "packs (buf1 @ [drop_bit (8 - length ys) c]) (?lo @ ?hi)"
    using packs_skewed_high [OF 1(2) Cons.prems(2-4)] by simp
  moreover have "length ?hi = length ys" "8 dvd length ?lo" using Cons.prems by auto
  ultimately obtain buf' where "append_skewed (length ?hi) bytes (buf1 @ [drop_bit (8 - length ys) c]) = Some buf'"
      "packs buf' (?lo @ ?hi @ unpack bytes)"
    using Cons.IH [of "buf1 @ [drop_bit (8 - length ys) c]" ?lo ?hi] Cons.prems by auto
  moreover have "?lo @ ?hi @ unpack bytes = xs @ ys @ unpack (c # bytes)"
    by simp
  ultimately show ?case using 1 \<open>length ?hi = length ys\<close> by (simp add: Let_def)
qed

lemma packs_overrun:
  assumes p: "packs buf (xs @ ys)" and ys: "0 < length ys" "length ys < 8" and xs: "8 dvd length xs"
    and k: "0 < k" "k < 8"
  obtains buf' where
    "update_last (\<lambda>b. b OR push_bit (length ys) (t AND mask k)) buf = Some buf'"
    "packs (if k > 8 - length ys then buf' @ [drop_bit (8 - length ys) (t AND mask k)] else buf')
       (xs @ ys @ take k (byte_bits t))"
proof -
  let ?m = "t AND mask k" and ?s = "length ys"
  obtain buf' where b: "update_last (\<lambda>b. b OR push_bit ?s ?m) buf = Some buf'"
      "unpack buf' = xs @ ys @ take (8 - ?s) (byte_bits ?m)" "length buf' = length buf"
    using packs_last_or [OF p ys xs] by metis
  have m: "byte_bits ?m = take k (byte_bits t) @ replicate (8 - k) False"
    using k by (simp add: byte_bits_and_mask)
  obtain j where j: "length xs = 8 * j" using xs by auto
  have "length buf' = (8 * j + ?s + 7) div 8" using p j b(3) by (simp add: packs_def)
  moreover have "(8 * j + ?s + 7) div 8 = Suc j" using ys unfolding bytes_add_whole by (simp add: bytes_1)
  ultimately have len: "length buf' = Suc j" by simp
  show ?thesis
  proof (cases "k > 8 - ?s")
    case True
    have h: "packs (buf' @ [drop_bit (8 - ?s) ?m]) (xs @ ys @ byte_bits ?m)"
      by (rule packs_skewed_high [OF b(2) ys xs])
    have "8 * length (buf' @ [drop_bit (8 - ?s) ?m]) - length (xs @ ys @ byte_bits ?m) = 8 - ?s"
      using len j ys by simp
    then have u: "unpack (buf' @ [drop_bit (8 - ?s) ?m])
        = xs @ ys @ take k (byte_bits t) @ replicate ((8 - k) + (8 - ?s)) False"
      using h by (simp add: packs_def m replicate_add)
    have n: "length (xs @ ys @ take k (byte_bits t)) = 8 * j + (?s + k)" using j k by simp
    have "8 < ?s + k" "?s + k \<le> 16" using ys k True by simp_all
    then have "(8 * j + (?s + k) + 7) div 8 = Suc (Suc j)" unfolding bytes_add_whole by (simp add: bytes_2)
    moreover have "8 * Suc (Suc j) - (8 * j + (?s + k)) = (8 - k) + (8 - ?s)" using ys k True by simp
    ultimately have "packs (buf' @ [drop_bit (8 - ?s) ?m]) (xs @ ys @ take k (byte_bits t))"
      unfolding packs_def u n by (simp add: len)
    then show ?thesis using that [OF b(1)] True by simp
  next
    case False
    then have "take (8 - ?s) (byte_bits ?m) = take k (byte_bits t) @ replicate (8 - ?s - k) False"
      using k ys by (simp add: m)
    then have u: "unpack buf' = xs @ ys @ take k (byte_bits t) @ replicate (8 - ?s - k) False"
      using b(2) by simp
    have n: "length (xs @ ys @ take k (byte_bits t)) = 8 * j + (?s + k)" using j k by simp
    have "0 < ?s + k" "?s + k \<le> 8" using ys k False by simp_all
    then have "(8 * j + (?s + k) + 7) div 8 = Suc j" unfolding bytes_add_whole by (simp add: bytes_1)
    moreover have "8 * Suc j - (8 * j + (?s + k)) = 8 - ?s - k" by simp
    ultimately have "packs buf' (xs @ ys @ take k (byte_bits t))"
      unfolding packs_def u n by (simp add: len)
    then show ?thesis using that [OF b(1)] False by simp
  qed
qed

text \<open>The source of \<^verbatim>\<open>append_bits\<close> as whole bytes and an optional partial byte.\<close>

lemma take_unpack_whole:
  assumes "length bytes = (count + 7) div 8"
  shows "take count (unpack bytes) = unpack (take (count div 8) bytes)
      @ (if count mod 8 = 0 then [] else take (count mod 8) (byte_bits (bytes ! (count div 8))))"
proof (cases "count mod 8 = 0")
  case True
  then have "length bytes = count div 8" "8 * (count div 8) = count" using assms by (auto simp: bytes_count)
  then show ?thesis using True by simp
next
  case False
  then have "length bytes = Suc (count div 8)" using assms by (simp add: bytes_count)
  then obtain ws t where w: "bytes = ws @ [t]" "length ws = count div 8"
    by (metis length_Suc_conv_rev)
  have "take (8 * length ws + count mod 8) (unpack ws @ byte_bits t) = unpack ws @ take (count mod 8) (byte_bits t)"
    by simp
  moreover have "8 * length ws + count mod 8 = count" using w(2) by simp
  ultimately have "take count (unpack bytes) = unpack ws @ take (count mod 8) (byte_bits t)"
    by (simp add: w(1))
  then show ?thesis using False w by (simp add: nth_append)
qed

subsection \<open>Correctness of the operations\<close>

text \<open>A call returns a well-formed set with the given bits.\<close>

definition yields :: "BitSet option \<Rightarrow> bool list \<Rightarrow> bool" where
  "yields r xs \<longleftrightarrow> (\<exists>b. r = Some b \<and> bs_wf b \<and> bs_bits b = xs)"

lemma bs_wf_len: "bs_wf b \<Longrightarrow> bs_len b = length (bs_bits b)"
  unfolding bs_wf_iff_packs by simp

lemma bs_wf_packs: "bs_wf b \<Longrightarrow> packs (bs_buffer b) (bs_bits b)"
  unfolding bs_wf_iff_packs by simp

lemma yieldsI:
  assumes "packs buf xs" "n = length xs"
  shows "yields (Some (b\<lparr>bs_buffer := buf, bs_len := n\<rparr>)) xs"
proof -
  have "b\<lparr>bs_buffer := buf, bs_len := n\<rparr> = \<lparr>bs_buffer = buf, bs_len = length xs\<rparr>"
    using assms(2) by (cases b) simp
  then show ?thesis using packs_bs [OF assms(1)] unfolding yields_def by metis
qed

lemma yieldsE:
  assumes "yields r xs"
  obtains b where "r = Some b" "bs_wf b" "bs_bits b = xs" "bs_len b = length xs"
  using assms bs_wf_len unfolding yields_def by blast

lemma packs_length: "packs buf xs \<Longrightarrow> length buf = (length xs + 7) div 8"
  by (simp add: packs_def)

lemma bs_append_bits_yields:
  assumes wf: "bs_wf b" and len: "length to_set = (count + 7) div 8"
  shows "yields (bs_append_bits b count to_set) (bs_bits b @ take count (unpack to_set))"
proof -
  let ?xs = "bs_bits b" and ?new = "bs_bits b @ take count (unpack to_set)"
  let ?whole = "take (count div 8) to_set" and ?t = "to_set ! (count div 8)" and ?k = "count mod 8"
  have p: "packs (bs_buffer b) ?xs" and l: "bs_len b = length ?xs"
    using wf by (simp_all add: bs_wf_iff_packs)
  have buflen: "length (bs_buffer b) \<le> (length ?xs + count + 7) div 8"
    using packs_length [OF p] by (simp add: div_le_mono)
  have newlen: "length ?new = length ?xs + count"
    using len bytes_cover [of count] by simp
  have src: "take count (unpack to_set) = unpack ?whole @ (if ?k = 0 then [] else take ?k (byte_bits ?t))"
    by (rule take_unpack_whole [OF len])
  have whole: "subslice 0 (count div 8) to_set = Some ?whole"
    using len by (simp add: bytes_count)
  have t: "?k \<noteq> 0 \<Longrightarrow> nth_opt to_set (count div 8) = Some ?t"
    using len by (simp add: bytes_count)
  have fin: "yields (do { assert_that (length buf = (length ?xs + count + 7) div 8);
        Some (b\<lparr>bs_buffer := buf, bs_len := length ?xs + count\<rparr>) }) ?new" if "packs buf ?new" for buf
    using packs_length [OF that] yieldsI [OF that, of "length ?xs + count" b] newlen by simp
  show ?thesis
  proof (cases "length ?xs mod 8 = 0")
    case True
    have pw: "packs (bs_buffer b @ ?whole) (?xs @ unpack ?whole)"
      by (rule packs_append_aligned [OF p True]) (simp add: packs_aligned)
    have "packs (bs_buffer b @ ?whole @ (if ?k = 0 then [] else [?t AND mask ?k])) ?new"
    proof (cases "?k = 0")
      case True then show ?thesis using pw by (simp add: src)
    next
      case False
      moreover have "length (?xs @ unpack ?whole) mod 8 = 0" using True by simp
      ultimately show ?thesis
        using packs_append_aligned [OF pw _ packs_Cons_mask [of ?k ?t]] by (simp add: src)
    qed
    then show ?thesis
      using fin [of "bs_buffer b @ ?whole @ (if ?k = 0 then [] else [?t AND mask ?k])"]
        len l buflen whole t True
      by (cases "?k = 0") (auto simp: bs_append_bits_def Let_def simp flip: mask_eq_exp_minus_1)
  next
    case False
    obtain as ys where sp: "?xs = as @ ys" "8 dvd length as" "length ys = length ?xs mod 8"
      by (rule bits_split)
    have ys: "0 < length ys" "length ys < 8" using sp(3) False by auto
    obtain buf1 where b1: "append_skewed (length ys) ?whole (bs_buffer b) = Some buf1"
        "packs buf1 (as @ ys @ unpack ?whole)"
      using append_skewed_packs [OF _ ys sp(2), of "bs_buffer b" ?whole] p unfolding sp(1) by blast
    show ?thesis
    proof (cases "?k = 0")
      case True
      then have "packs buf1 ?new" using b1 by (simp add: src sp(1))
      then show ?thesis
        using fin [of buf1] len l buflen whole b1 False True
        by (simp add: bs_append_bits_def Let_def flip: sp(3))
    next
      case k: False
      obtain as' ys' where sp': "as @ ys @ unpack ?whole = as' @ ys'" "8 dvd length as'"
          "length ys' = length (as @ ys @ unpack ?whole) mod 8"
        by (rule bits_split)
      obtain j where "length as = 8 * j" using sp(2) by auto
      then have "length (as @ ys @ unpack ?whole) = length ys + 8 * (j + length ?whole)" by simp
      then have ys'_len: "length ys' = length ys"
        unfolding sp'(3) using ys by (simp only: mod_mult_self2 mod_less)
      obtain buf2 where b2: "update_last (\<lambda>x. x OR push_bit (length ys') (?t AND mask ?k)) buf1 = Some buf2"
          "packs (if ?k > 8 - length ys' then buf2 @ [drop_bit (8 - length ys') (?t AND mask ?k)] else buf2)
             (as' @ ys' @ take ?k (byte_bits ?t))"
        using packs_overrun [OF b1(2) [unfolded sp'(1)] _ _ sp'(2), of ?k ?t] ys k
        by (auto simp: ys'_len)
      have new: "as' @ ys' @ take ?k (byte_bits ?t) = ?new"
        using sp'(1) k by (simp add: src sp(1))
      show ?thesis
        using fin [OF b2(2) [unfolded new ys'_len]] b2(1) [unfolded ys'_len]
          len l buflen whole b1 False k t
        by (cases "?k > 8 - length ys")
          (simp_all add: bs_append_bits_def Let_def flip: sp(3) mask_eq_exp_minus_1)
    qed
  qed
qed

lemma unpack_replicate_0: "unpack (replicate n 0) = replicate (8 * n) False"
  by (induction n) (simp_all add: replicate_add)

lemma unpack_replicate_255: "unpack (replicate n 0xFF) = replicate (8 * n) True"
  by (induction n) (simp_all add: replicate_add)

lemma take_unpack: "take (8 * k) (unpack bs) = unpack (take k bs)"
proof (induction bs arbitrary: k)
  case (Cons b bs)
  then show ?case by (cases k) simp_all
qed simp

lemma drop_unpack: "drop (8 * k) (unpack bs) = unpack (drop k bs)"
proof (induction bs arbitrary: k)
  case (Cons b bs)
  then show ?case by (cases k) simp_all
qed simp

lemma nth_unpack: "i < 8 * length bs \<Longrightarrow> unpack bs ! i = bit (bs ! (i div 8)) (i mod 8)"
proof (induction bs arbitrary: i)
  case (Cons b bs)
  show ?case
  proof (cases "i < 8")
    case True
    then show ?thesis by (simp add: nth_append)
  next
    case False
    then have "unpack (b # bs) ! i = unpack bs ! (i - 8)" by (simp add: nth_append)
    also have "\<dots> = bit (bs ! ((i - 8) div 8)) ((i - 8) mod 8)"
      using Cons False by simp
    finally show ?thesis
      using False by (simp add: nth_Cons' div_eq_0_iff le_div_geq le_mod_geq)
  qed
qed simp

lemma packs_take_unpack: "packs buf xs \<Longrightarrow> n \<le> length xs \<Longrightarrow> take n (unpack buf) = take n xs"
  by (simp add: packs_def)

text \<open>Masking the last byte cuts the bits at a position inside it.\<close>

lemma mask_tail_packs:
  assumes "length buf = (n + 7) div 8"
  obtains buf' where
    "(if n mod 8 \<noteq> 0 then update_last (\<lambda>b. b AND mask (n mod 8)) buf else Some buf) = Some buf'"
    "packs buf' (take n (unpack buf))"
proof (cases "n mod 8 = 0")
  case True
  then have "n = 8 * length buf" using assms by (auto simp: bytes_count)
  then show ?thesis using that [of buf] by (simp add: packs_aligned)
next
  case False
  let ?r = "n mod 8"
  have len: "length buf = Suc (n div 8)" using assms False by (simp add: bytes_count)
  then obtain as a where buf: "buf = as @ [a]" "length as = n div 8"
    by (metis length_Suc_conv_rev)
  have n: "n = 8 * length as + ?r" using buf(2) by simp
  have tk: "take n (unpack buf) = unpack as @ take ?r (byte_bits a)"
    using False by (subst n) (simp add: buf(1))
  have "packs (as @ [a AND mask ?r]) (unpack as @ take ?r (byte_bits a))"
    using False by (intro packs_append_aligned packs_Cons_mask) (simp_all add: packs_aligned)
  then show ?thesis using that [of "as @ [a AND mask ?r]"] False tk by (simp add: buf(1))
qed

lemma bs_append_unset_yields:
  assumes "bs_wf b"
  shows "yields (Some (bs_append_unset b count)) (bs_bits b @ replicate count False)"
proof -
  let ?N = "(bs_len b + count + 7) div 8"
  have p: "packs (bs_buffer b) (bs_bits b)" and l: "bs_len b = length (bs_bits b)"
    using assms by (simp_all add: bs_wf_packs bs_wf_len)
  have le: "length (bs_buffer b) \<le> ?N" using packs_length [OF p] l by (simp add: div_le_mono)
  have cov: "length (bs_bits b) \<le> 8 * length (bs_buffer b)" "length (bs_bits b) + count \<le> 8 * ?N"
    using bytes_cover packs_length [OF p] l by simp_all
  have "unpack (resize ?N 0 (bs_buffer b))
      = bs_bits b @ replicate (8 * length (bs_buffer b) - length (bs_bits b)) False
        @ replicate (8 * (?N - length (bs_buffer b))) False"
    using p by (simp add: resize_grow [OF le] unpack_replicate_0 packs_def)
  also have "\<dots> = (bs_bits b @ replicate count False)
      @ replicate (8 * ?N - (length (bs_bits b) + count)) False"
    using cov le by (simp add: diff_mult_distrib2 flip: replicate_add)
  finally have "packs (resize ?N 0 (bs_buffer b)) (bs_bits b @ replicate count False)"
    by (simp add: packs_def l)
  then show ?thesis
    unfolding bs_append_unset_def Let_def by (rule yieldsI) (simp add: l)
qed

lemma bs_new_yields: "yields (Some bs_new) []"
  by (simp add: yields_def bs_new_def bs_wf_def bs_bits_def)

lemma bs_append_set_yields:
  assumes "bs_wf b"
  shows "yields (bs_append_set b count) (bs_bits b @ replicate count True)"
proof -
  let ?xs = "bs_bits b" and ?n = "bs_len b + count"
  let ?N = "(?n + 7) div 8"
  have p: "packs (bs_buffer b) ?xs" and l: "bs_len b = length ?xs"
    using assms by (simp_all add: bs_wf_packs bs_wf_len)
  obtain buf1 where b1: "(if bs_len b mod 8 \<noteq> 0 then update_last (\<lambda>x. x OR push_bit (bs_len b mod 8) 0xFF) (bs_buffer b)
        else Some (bs_buffer b)) = Some buf1" "length buf1 = length (bs_buffer b)"
      "unpack buf1 = ?xs @ replicate (8 * length buf1 - length ?xs) True"
  proof (cases "bs_len b mod 8 = 0")
    case True
    then have "unpack (bs_buffer b) = ?xs" using p l by (simp add: packs_aligned)
    then show ?thesis using that [of "bs_buffer b"] True length_unpack [of "bs_buffer b"] by simp
  next
    case False
    obtain as ys where sp: "?xs = as @ ys" "8 dvd length as" "length ys = length ?xs mod 8"
      by (rule bits_split)
    have ys: "0 < length ys" "length ys < 8" using sp(3) False l by auto
    obtain buf' where b': "update_last (\<lambda>x. x OR push_bit (length ys) 0xFF) (bs_buffer b) = Some buf'"
        "unpack buf' = as @ ys @ take (8 - length ys) (byte_bits 0xFF)" "length buf' = length (bs_buffer b)"
      using packs_last_or [OF p [unfolded sp(1)] ys sp(2)] by metis
    have u: "unpack buf' = ?xs @ replicate (8 - length ys) True"
      unfolding sp(1) using b'(2) by (simp add: min_def)
    then have "8 * length buf' = length ?xs + (8 - length ys)"
      using length_unpack [of buf'] by (metis length_append length_replicate)
    then have "unpack buf' = ?xs @ replicate (8 * length buf' - length ?xs) True" using u by simp
    then show ?thesis using that [of buf'] b' False sp(3) l by simp
  qed
  have le: "length buf1 \<le> ?N" using b1(2) packs_length [OF p] l by (simp add: div_le_mono)
  have cov: "length ?xs \<le> 8 * length buf1" "length ?xs + count \<le> 8 * ?N"
    using bytes_cover packs_length [OF p] l b1(2) by simp_all
  have "unpack (resize ?N 0xFF buf1) = ?xs @ replicate (8 * ?N - length ?xs) True"
    using b1(3) cov le
    by (simp add: resize_grow [OF le] unpack_replicate_255 diff_mult_distrib2 flip: replicate_add)
  then have tk: "take ?n (unpack (resize ?N 0xFF buf1)) = ?xs @ replicate count True"
    using cov l by (simp add: min_def)
  obtain buf2 where "(if ?n mod 8 \<noteq> 0 then update_last (\<lambda>x. x AND mask (?n mod 8)) (resize ?N 0xFF buf1)
        else Some (resize ?N 0xFF buf1)) = Some buf2" and p2: "packs buf2 (?xs @ replicate count True)"
    using mask_tail_packs [of "resize ?N 0xFF buf1" ?n] tk by auto
  moreover have "yields (Some (b\<lparr>bs_buffer := buf2, bs_len := ?n\<rparr>)) (?xs @ replicate count True)"
    by (rule yieldsI [OF p2]) (simp add: l)
  ultimately show ?thesis
    using b1(1) unfolding bs_append_set_def Let_def push_bit_mask by (auto split: if_splits)
qed

lemma bs_truncate_yields:
  assumes "bs_wf b" "n \<le> bs_len b"
  shows "yields (bs_truncate b n) (take n (bs_bits b))"
proof -
  let ?N = "(n + 7) div 8"
  have p: "packs (bs_buffer b) (bs_bits b)" and l: "bs_len b = length (bs_bits b)"
    using assms by (simp_all add: bs_wf_packs bs_wf_len)
  have "?N \<le> length (bs_buffer b)" using packs_length [OF p] assms(2) l by (simp add: div_le_mono)
  then have len: "length (take ?N (bs_buffer b)) = ?N" by simp
  have tk: "take n (unpack (take ?N (bs_buffer b))) = take n (bs_bits b)"
    using packs_take_unpack [OF p, of n] assms(2) l bytes_cover [of n]
    by (simp add: min_def flip: take_unpack)
  obtain buf where "(if n mod 8 \<noteq> 0 then update_last (\<lambda>x. x AND mask (n mod 8)) (take ?N (bs_buffer b))
        else Some (take ?N (bs_buffer b))) = Some buf" and p1: "packs buf (take n (bs_bits b))"
    using mask_tail_packs [OF len] tk by metis
  moreover have "yields (Some (b\<lparr>bs_buffer := buf, bs_len := n\<rparr>)) (take n (bs_bits b))"
    by (rule yieldsI [OF p1]) (use assms(2) l in simp)
  ultimately show ?thesis
    unfolding bs_truncate_def Let_def push_bit_mask by (auto split: if_splits)
qed

lemma bs_extend_from_yields:
  assumes "bs_wf b" "bs_wf other"
  shows "yields (bs_extend_from b other) (bs_bits b @ bs_bits other)"
proof -
  have "length (bs_buffer other) = (bs_len other + 7) div 8" using assms(2) by (simp add: bs_wf_def)
  from bs_append_bits_yields [OF assms(1) this] show ?thesis
    by (simp add: bs_extend_from_def bs_bits_def)
qed

lemma yields_append_bits:
  assumes "yields r xs" "length bytes = (count + 7) div 8" "take count (unpack bytes) = ys"
  shows "yields (do { b \<leftarrow> r; bs_append_bits b count bytes }) (xs @ ys)"
  using assms bs_append_bits_yields by (elim yieldsE) auto

text \<open>The byte slices that \<^verbatim>\<open>extend_from_range\<close> copies, as bit lists.\<close>

lemma slice_aligned:
  assumes "s = 8 * k" "s \<le> e"
  shows "(e + 7) div 8 - k = (e - s + 7) div 8"
    and "take (e - s) (unpack (take ((e + 7) div 8 - k) (drop k buf))) = take (e - s) (drop s (unpack buf))"
proof -
  have "(e + 7) div 8 = (8 * k + (e - s) + 7) div 8" using assms by simp
  also have "\<dots> = k + (e - s + 7) div 8" by (rule bytes_add_whole)
  finally show eq: "(e + 7) div 8 - k = (e - s + 7) div 8" by simp
  have "take (8 * ((e - s + 7) div 8)) (drop s (unpack buf)) = unpack (take ((e - s + 7) div 8) (drop k buf))"
    using assms(1) by (simp add: take_unpack drop_unpack)
  then show "take (e - s) (unpack (take ((e + 7) div 8 - k) (drop k buf))) = take (e - s) (drop s (unpack buf))"
    using bytes_cover [of "e - s"] unfolding eq by (metis min.absorb1 take_take)
qed

lemma drop_unpack_skewed:
  assumes "s div 8 < length buf"
  shows "drop s (unpack buf) = drop (s mod 8) (byte_bits (buf ! (s div 8))) @ unpack (drop (Suc (s div 8)) buf)"
proof -
  have "drop s (unpack buf) = drop (s mod 8) (drop (8 * (s div 8)) (unpack buf))" by simp
  also have "\<dots> = drop (s mod 8) (unpack (buf ! (s div 8) # drop (Suc (s div 8)) buf))"
    using assms by (simp only: drop_unpack Cons_nth_drop_Suc)
  finally show ?thesis by simp
qed

lemma slice_single:
  assumes "s div 8 < length buf" "0 < n" "n \<le> 8 - s mod 8"
  shows "length [drop_bit (s mod 8) (buf ! (s div 8))] = (n + 7) div 8"
    and "take n (unpack [drop_bit (s mod 8) (buf ! (s div 8))]) = take n (drop s (unpack buf))"
proof -
  show "length [drop_bit (s mod 8) (buf ! (s div 8))] = (n + 7) div 8"
    using assms bytes_1 [of n] by simp
  show "take n (unpack [drop_bit (s mod 8) (buf ! (s div 8))]) = take n (drop s (unpack buf))"
    using assms by (simp add: byte_bits_drop drop_unpack_skewed)
qed

lemma yields_range_multi:
  assumes b: "bs_wf b" and skew: "s mod 8 \<noteq> 0" and lt: "Suc (s div 8) < (e + 7) div 8"
    and eb: "(e + 7) div 8 \<le> length buf"
  shows "yields (do {
      self' \<leftarrow> bs_append_bits b (8 - s mod 8) [drop_bit (s mod 8) (buf ! (s div 8))];
      bs_append_bits self' (e - s - (8 - s mod 8)) (take ((e + 7) div 8 - Suc (s div 8)) (drop (Suc (s div 8)) buf))
    }) (bs_bits b @ take (e - s) (drop s (unpack buf)))"
    and "8 - s mod 8 \<le> e - s"
proof -
  let ?m = "8 * Suc (s div 8)" and ?off = "8 - s mod 8"
  have e: "?m < e" using lt by (rule bytes_gt)
  have m: "?m = s + ?off" by (rule next_byte)
  then have ms: "e - s - ?off = e - ?m" "e - s = ?off + (e - ?m)" and off: "?off \<le> e - s"
    using e by simp_all
  show "?off \<le> e - s" by (rule off)
  have sb: "s div 8 < length buf" using lt eb by simp
  have d: "drop s (unpack buf) = drop (s mod 8) (byte_bits (buf ! (s div 8))) @ drop ?m (unpack buf)"
    by (simp only: drop_unpack_skewed [OF sb] drop_unpack)
  note 1 = slice_single [OF sb, of ?off]
    and 2 = slice_aligned [OF refl less_imp_le [OF e]]
  have len: "length (take ((e + 7) div 8 - Suc (s div 8)) (drop (Suc (s div 8)) buf)) = (e - ?m + 7) div 8"
    using length_take_drop_diff [OF eb] 2(1) by (rule trans)
  have "yields (bs_append_bits b ?off [drop_bit (s mod 8) (buf ! (s div 8))])
      (bs_bits b @ take ?off (drop s (unpack buf)))"
    using yields_append_bits [of "Some b" "bs_bits b"] b 1 by (simp add: yields_def)
  then have "yields (do {
      self' \<leftarrow> bs_append_bits b ?off [drop_bit (s mod 8) (buf ! (s div 8))];
      bs_append_bits self' (e - ?m) (take ((e + 7) div 8 - Suc (s div 8)) (drop (Suc (s div 8)) buf))
    }) ((bs_bits b @ take ?off (drop s (unpack buf))) @ take (e - ?m) (drop ?m (unpack buf)))"
    by (rule yields_append_bits [OF _ len 2(2)])
  moreover have "take ?off (drop s (unpack buf)) @ take (e - ?m) (drop ?m (unpack buf)) = take (e - s) (drop s (unpack buf))"
    unfolding ms(2) d by simp
  ultimately show "yields (do {
      self' \<leftarrow> bs_append_bits b ?off [drop_bit (s mod 8) (buf ! (s div 8))];
      bs_append_bits self' (e - s - ?off) (take ((e + 7) div 8 - Suc (s div 8)) (drop (Suc (s div 8)) buf))
    }) (bs_bits b @ take (e - s) (drop s (unpack buf)))"
    unfolding ms(1) by simp
qed

lemma bs_extend_from_range_yields:
  assumes wf: "bs_wf b" "bs_wf other" and r: "s \<le> e" "e \<le> bs_len other"
  shows "yields (bs_extend_from_range b other s e) (bs_bits b @ take (e - s) (drop s (bs_bits other)))"
proof -
  let ?buf = "bs_buffer other" and ?sb = "s div 8" and ?eb = "(e + 7) div 8" and ?skew = "s mod 8"
  have p: "packs ?buf (bs_bits other)" and l: "bs_len other = length (bs_bits other)"
    using wf(2) by (simp_all add: bs_wf_packs bs_wf_len)
  have eb: "?eb \<le> length ?buf" using packs_length [OF p] r(2) l by (simp add: div_le_mono)
  have src: "take (e - s) (drop s (bs_bits other)) = take (e - s) (drop s (unpack ?buf))"
    using p r l by (simp add: packs_def)
  have self: "yields (Some b) (bs_bits b)" using wf(1) by (simp add: yields_def)
  consider (empty) "e = s" | (aligned) "s < e" "?skew = 0" | (single) "s < e" "?skew \<noteq> 0" "?sb + 1 = ?eb"
    | (multi) "s < e" "?skew \<noteq> 0" "Suc ?sb < ?eb"
  proof -
    have "?sb < ?eb" if "s < e" using that div_le_mono [of "s + 8" "e + 7" 8] by simp
    then show ?thesis using that r(1) by (cases "e = s"; cases "?skew = 0"; cases "?sb + 1 = ?eb") force+
  qed
  then show ?thesis
  proof cases
    case empty
    then show ?thesis using self by (simp add: bs_extend_from_range_def)
  next
    case aligned
    then have "s = 8 * ?sb" by auto
    note sl = slice_aligned(1) [OF this r(1)] slice_aligned(2) [OF this r(1), of ?buf]
    have le: "?sb \<le> ?eb" using r(1) by (simp add: div_le_mono)
    have "yields (bs_append_bits b (e - s) (take (?eb - ?sb) (drop ?sb ?buf))) (bs_bits b @ take (e - s) (drop s (unpack ?buf)))"
      using yields_append_bits [OF self trans [OF length_take_drop_diff [OF eb] sl(1)] sl(2)]
      by (simp only: Option.bind.bind_lunit)
    then show ?thesis
      unfolding src using aligned le eb by (simp add: bs_extend_from_range_def)
  next
    case single
    have "e \<le> s + (8 - ?skew)" using single(3) bytes_cover [of e] next_byte [of s] by simp
    then have n: "0 < e - s" "e - s \<le> 8 - ?skew" using single(1) by simp_all
    have sb: "?sb < length ?buf" using single eb by simp
    from yields_append_bits [OF self slice_single [OF sb n]] show ?thesis
      unfolding src using single sb by (simp add: bs_extend_from_range_def)
  next
    case multi
    have "?sb < length ?buf" using multi eb by simp
    with yields_range_multi [OF wf(1) multi(2,3) eb] multi eb show ?thesis
      unfolding src bs_extend_from_range_def by (simp add: Let_def)
  qed
qed

end
