(* ===== verification/Bitset_Facts.thy ===== *)
theory Bitset_Facts
  imports Bitset
begin

text \<open>
  The observers of the packed bit set (\<^verbatim>\<open>get\<close>, \<^verbatim>\<open>count_ones\<close>, \<^verbatim>\<open>is_all_set\<close>, the iterators), the
  remaining updates (\<^verbatim>\<open>set\<close>, \<^verbatim>\<open>split_off\<close>, \<^verbatim>\<open>and\<close>), the interface its clients rely on as a
  locale with its interpretation, and the properties of the component.
\<close>

subsection \<open>Single bits\<close>

lemma bs_wf_buffer_len: "bs_wf b \<Longrightarrow> length (bs_buffer b) = (bs_len b + 7) div 8"
  by (simp add: bs_wf_def)

lemma bs_wf_index:
  assumes "bs_wf b" "i < bs_len b"
  shows "i div 8 < length (bs_buffer b)" "i < 8 * length (bs_buffer b)"
proof -
  have "Suc (i div 8) \<le> (bs_len b + 7) div 8"
    using div_le_mono [of "i + 8" "bs_len b + 7" 8] assms(2) by simp
  then show "i div 8 < length (bs_buffer b)" using bs_wf_buffer_len [OF assms(1)] by simp
  then show "i < 8 * length (bs_buffer b)" by (simp add: div_less_iff_less_mult mult.commute)
qed

lemma bs_bits_nth:
  assumes "bs_wf b" "i < bs_len b"
  shows "bs_bits b ! i = bit (bs_buffer b ! (i div 8)) (i mod 8)"
  using assms(2) nth_unpack [OF bs_wf_index(2) [OF assms]] by (simp add: bs_bits_def)

lemma and_1_bit: "(w AND 1 \<noteq> 0) = bit w 0" "(w AND 1 = 1) = bit w 0" for w :: u8
  by (simp_all add: and_one_eq bit_0 odd_iff_mod_2_eq_one)

lemma bs_get_nth:
  assumes "bs_wf b" "i < bs_len b"
  shows "bs_get b i = Some (bs_bits b ! i)"
  using assms bs_wf_index(1) [OF assms]
  by (simp add: bs_get_def bs_bits_nth and_1_bit bit_drop_bit_eq)

lemma unpack_update:
  assumes "i < 8 * length buf"
  shows "unpack (buf[i div 8 := buf ! (i div 8) OR push_bit (i mod 8) 1]) = (unpack buf)[i := True]"
proof (rule nth_equalityI)
  fix j assume "j < length (unpack (buf[i div 8 := buf ! (i div 8) OR push_bit (i mod 8) 1]))"
  then have j: "j < 8 * length buf" by simp
  then have jd: "j div 8 < length buf" by (simp add: div_less_iff_less_mult mult.commute)
  have ij: "i = j \<longleftrightarrow> i div 8 = j div 8 \<and> i mod 8 = j mod 8" by (metis div_mult_mod_eq)
  show "unpack (buf[i div 8 := buf ! (i div 8) OR push_bit (i mod 8) 1]) ! j = (unpack buf)[i := True] ! j"
    using j jd assms
    by (cases "i div 8 = j div 8") (auto simp: nth_unpack nth_list_update ij bit_or_iff bit_exp_iff)
qed simp

lemma bs_set_yields:
  assumes "bs_wf b" "i < bs_len b"
  shows "yields (bs_set b i) ((bs_bits b)[i := True])"
proof -
  let ?buf = "(bs_buffer b)[i div 8 := bs_buffer b ! (i div 8) OR push_bit (i mod 8) 1]"
  note idx = bs_wf_index [OF assms]
  have p: "packs (bs_buffer b) (bs_bits b)" and l: "bs_len b = length (bs_bits b)"
    using assms(1) by (simp_all add: bs_wf_packs bs_wf_len)
  have "unpack ?buf = (unpack (bs_buffer b))[i := True]" by (rule unpack_update [OF idx(2)])
  also have "\<dots> = (bs_bits b)[i := True] @ replicate (8 * length ?buf - bs_len b) False"
    using p l assms(2) by (simp add: packs_def list_update_append)
  finally have "packs ?buf ((bs_bits b)[i := True])" using p l by (simp add: packs_def)
  then have "yields (Some (b\<lparr>bs_buffer := ?buf, bs_len := bs_len b\<rparr>)) ((bs_bits b)[i := True])"
    by (rule yieldsI) (simp add: l)
  then show ?thesis using assms(2) idx(1) by (simp add: bs_set_def Let_def)
qed

subsection \<open>Counting\<close>

lemma count_ones_bits: "count_ones w = length (filter id (byte_bits w))"
  by (simp add: count_ones_def byte_bits_def filter_map comp_def del: upt_rec_numeral)

lemma sum_count_ones: "sum_list (map count_ones buf) = length (filter id (unpack buf))"
  by (induction buf) (simp_all add: count_ones_bits id_def)

lemma bs_count_ones_bits:
  assumes "bs_wf b"
  shows "bs_count_ones b = length (filter id (bs_bits b))"
  using bs_wf_packs [OF assms] by (simp add: bs_count_ones_def sum_count_ones packs_def)

lemma bs_count_zeros_bits:
  assumes "bs_wf b"
  shows "bs_count_zeros b = Some (length (filter Not (bs_bits b)))"
proof -
  have "length (filter id (bs_bits b)) + length (filter Not (bs_bits b)) = bs_len b"
    using sum_length_filter_compl [of id "bs_bits b"] bs_wf_len [OF assms] by simp
  then show ?thesis
    by (simp add: bs_count_zeros_def bs_count_ones_bits [OF assms] checked_sub_def)
qed

lemma zero_byte_bits: "w = 0 \<longleftrightarrow> True \<notin> set (byte_bits w)"
proof
  assume "True \<notin> set (byte_bits w)"
  then have "byte_bits w = byte_bits 0"
    unfolding byte_bits_0 by (intro replicate_eqI) (metis length_byte_bits, metis)
  then show "w = 0" by (rule byte_bits_inj)
qed simp

lemma nonzero_bytes: "(\<exists>v \<in> set buf. v \<noteq> 0) \<longleftrightarrow> True \<in> set (unpack buf)"
  by (induction buf) (auto simp: zero_byte_bits)

lemma bs_any_bits:
  assumes "bs_wf b"
  shows "bs_is_any_set b = (True \<in> set (bs_bits b))" "bs_is_all_unset b = (True \<notin> set (bs_bits b))"
  using bs_wf_packs [OF assms] nonzero_bytes [of "bs_buffer b"]
  by (auto simp: bs_is_any_set_def bs_is_all_unset_def list_ex_iff list_all_iff packs_def)

subsection \<open>Intersection\<close>

lemma byte_bits_and: "byte_bits (a AND b) = map2 (\<and>) (byte_bits a) (byte_bits b)"
  by (rule byte_bits_eqI) (simp_all add: bit_and_iff)

lemma unpack_and:
  "length as = length bs \<Longrightarrow> unpack (map2 (AND) as bs) = map2 (\<and>) (unpack as) (unpack bs)"
  by (induction as bs rule: list_induct2) (simp_all add: byte_bits_and)

lemma packs_and:
  assumes "packs as xs" "packs bs ys" "length xs = length ys"
  shows "packs (map2 (AND) as bs) (map2 (\<and>) xs ys)"
proof -
  have eq: "length as = length bs" using assms by (simp add: packs_def)
  have ua: "unpack as = xs @ replicate (8 * length bs - length ys) False"
    and ub: "unpack bs = ys @ replicate (8 * length bs - length ys) False"
    and len: "length bs = (length ys + 7) div 8"
    using assms eq by (simp_all only: packs_def)
  have "unpack (map2 (AND) as bs) = map2 (\<and>) xs ys @ replicate (8 * length bs - length ys) False"
    unfolding unpack_and [OF eq] ua ub using assms(3) by simp
  then show ?thesis using eq assms(3) len by (simp add: packs_def)
qed

lemma bs_and_yields:
  assumes "bs_wf a" "bs_wf b" "bs_len a = bs_len b"
  shows "yields (bs_and a b) (map2 (\<and>) (bs_bits a) (bs_bits b))"
proof -
  let ?buf = "map2 (AND) (bs_buffer a) (bs_buffer b)"
  have l: "length (bs_bits a) = length (bs_bits b)" "bs_len a = length (bs_bits a)"
    using assms bs_wf_len by metis+
  have "packs ?buf (map2 (\<and>) (bs_bits a) (bs_bits b))"
    by (rule packs_and [OF bs_wf_packs [OF assms(1)] bs_wf_packs [OF assms(2)] l(1)])
  then have "yields (Some (a\<lparr>bs_buffer := ?buf, bs_len := bs_len a\<rparr>)) (map2 (\<and>) (bs_bits a) (bs_bits b))"
    by (rule yieldsI) (simp add: l)
  moreover have "bs_and a b = Some (a\<lparr>bs_buffer := ?buf, bs_len := bs_len a\<rparr>)"
    using assms(3) by (cases a) (simp add: bs_and_def)
  ultimately show ?thesis by simp
qed

subsection \<open>Splitting\<close>

lemma bs_split_off_yields:
  assumes "bs_wf b" "n \<le> bs_len b"
  obtains left right where "bs_split_off b n = Some (left, right)"
    "yields (Some left) (take n (bs_bits b))" "yields (Some right) (drop n (bs_bits b))"
proof -
  have new: "bs_with_capacity k = bs_new" for k by (simp add: bs_with_capacity_def bs_new_def)
  have wf: "bs_wf bs_new" "bs_bits bs_new = []" using bs_new_yields by (simp_all add: yields_def)
  obtain right where r: "bs_extend_from_range bs_new b n (bs_len b) = Some right"
    "yields (Some right) (drop n (bs_bits b))"
    using bs_extend_from_range_yields [OF wf(1) assms(1,2) order_refl] wf(2) bs_wf_len [OF assms(1)]
    by (auto simp: yields_def)
  obtain left where l: "bs_truncate b n = Some left" "yields (Some left) (take n (bs_bits b))"
    using bs_truncate_yields [OF assms] by (auto simp: yields_def)
  show ?thesis
    by (rule that [OF _ l(2) r(2)]) (use assms(2) l(1) r(1) in \<open>simp add: bs_split_off_def new\<close>)
qed

subsection \<open>Iterators\<close>

lemma iter_collect_drop:
  assumes "bs_wf b" "i \<le> bs_len b"
  shows "iter_collect \<lparr>it_buffer = bs_buffer b, it_idx = i, it_len = bs_len b\<rparr> = Some (drop i (bs_bits b))"
  using assms(2)
proof (induction i rule: inc_induct)
  case base
  then show ?case
    using bs_wf_len [OF assms(1)] by (subst iter_collect.simps) (simp add: iter_next_def)
next
  case (step i)
  have "drop i (bs_bits b) = bs_bits b ! i # drop (Suc i) (bs_bits b)"
    using step(2) bs_wf_len [OF assms(1)] by (simp add: Cons_nth_drop_Suc)
  then show ?case
    using step bs_wf_index(1) [OF assms(1)]
    by (subst iter_collect.simps)
      (simp add: iter_next_def Let_def bs_bits_nth [OF assms(1)] and_1_bit bit_drop_bit_eq)
qed

text \<open>The set bits of one byte, in increasing order.\<close>

definition ones :: "u8 \<Rightarrow> nat list" where
  "ones w = filter (bit w) [0..<8]"

lemma ones_0 [simp]: "ones 0 = []"
  by (simp add: ones_def)

lemma ones_step:
  assumes "w \<noteq> 0"
  shows "ones w = trailing_zeros w # ones (w XOR push_bit (trailing_zeros w) 1)"
proof (rule sorted_distinct_set_unique)
  let ?t = "trailing_zeros w"
  note t = trailing_zeros_bit [OF assms]
  have s: "set (ones (w XOR push_bit ?t 1)) = {i. i < 8 \<and> bit w i} - {?t}"
    using t(1,2) by (auto simp: ones_def bit_xor_iff bit_exp_iff simp del: upt_rec_numeral)
  have ge: "?t \<le> i" if "bit w i" for i using t(3) that not_le by blast
  have "sorted (ones (w XOR push_bit ?t 1))" unfolding ones_def by (intro sorted_wrt_filter) simp
  then show "sorted (?t # ones (w XOR push_bit ?t 1))" using s ge by auto
  show "distinct (?t # ones (w XOR push_bit ?t 1))" using s by (auto simp: ones_def simp del: upt_rec_numeral)
  show "set (ones w) = set (?t # ones (w XOR push_bit ?t 1))"
    using s t(1,2) by (auto simp: ones_def simp del: upt_rec_numeral)
qed (simp_all add: ones_def sorted_wrt_filter del: upt_rec_numeral)

lemma byte_positions:
  assumes "i < length bytes" "k \<le> 8"
  shows "filter (\<lambda>p. unpack bytes ! p) [8 * i + k..<8 * Suc i]
    = map ((+) (8 * i)) (filter (bit (bytes ! i)) [k..<8])"
proof -
  have "[8 * i + k..<8 * Suc i] = map ((+) (8 * i)) [k..<8]"
    by (rule nth_equalityI) auto
  moreover have "unpack bytes ! (8 * i + j) = bit (bytes ! i) j" if "j < 8" for j
    using assms(1) that by (subst nth_unpack) simp_all
  ultimately show ?thesis by (auto simp: filter_map intro: filter_cong)
qed

lemma positions_split:
  assumes "i < length bytes" "k \<le> 8"
  shows "filter (\<lambda>p. unpack bytes ! p) [8 * i + k..<8 * length bytes]
    = map ((+) (8 * i)) (filter (bit (bytes ! i)) [k..<8])
      @ filter (\<lambda>p. unpack bytes ! p) [8 * Suc i..<8 * length bytes]"
proof -
  have "8 * i + k \<le> 8 * Suc i" "8 * Suc i \<le> 8 * length bytes" using assms by simp_all
  then have "[8 * i + k..<8 * length bytes] = [8 * i + k..<8 * Suc i] @ [8 * Suc i..<8 * length bytes]"
    by (metis le_Suc_ex upt_add_eq_append)
  then show ?thesis using byte_positions [OF assms] by (simp only: filter_append)
qed

lemma positions_from_spec:
  "positions_from bytes i w
    = map ((+) (8 * i)) (ones w) @ filter (\<lambda>p. unpack bytes ! p) [8 * Suc i..<8 * length bytes]"
proof (induction bytes i w rule: positions_from.induct)
  case (1 bytes i w)
  show ?case
  proof (cases "w = 0")
    case False
    then show ?thesis
      using 1(1) [OF False refl] ones_step [OF False]
      by (subst positions_from.simps) (simp add: Let_def mult.commute)
  next
    case True
    show ?thesis
    proof (cases "Suc i < length bytes")
      case lt: True
      then have "positions_from bytes (i + 1) (bytes ! Suc i) = map ((+) (8 * Suc i)) (ones (bytes ! Suc i))
          @ filter (\<lambda>p. unpack bytes ! p) [8 * Suc (Suc i)..<8 * length bytes]"
        using 1(2) [of "bytes ! Suc i"] True by simp
      then show ?thesis
        using True lt positions_split [of "Suc i" bytes 0]
        by (subst positions_from.simps) (simp add: ones_def del: upt_rec_numeral)
    qed (use True in \<open>simp add: positions_from.simps\<close>)
  qed
qed

lemma iter_set_positions_with_offset_spec:
  "iter_set_positions_with_offset bytes offset
    = filter (\<lambda>p. unpack bytes ! p) [offset..<8 * length bytes]"
proof (cases "offset div 8 < length bytes")
  case True
  let ?i = "offset div 8" and ?k = "offset mod 8"
  have "ones (bytes ! ?i AND push_bit ?k 0xFF) = filter (bit (bytes ! ?i)) [?k..<8]"
  proof -
    have "[0..<8] = [0..<?k] @ [?k..<8]" by (metis le_add1 less_imp_le mod_less_divisor plus_nat.add_0
      upt_add_eq_append le_add_diff_inverse zero_less_numeral)
    then show ?thesis
      by (auto simp: ones_def u8_255_mask bit_simps filter_empty_conv simp del: upt_rec_numeral
        intro!: filter_cong)
  qed
  then have "iter_set_positions_with_offset bytes offset = map ((+) (8 * ?i)) (filter (bit (bytes ! ?i)) [?k..<8])
      @ filter (\<lambda>p. unpack bytes ! p) [8 * Suc ?i..<8 * length bytes]"
    using True by (simp add: iter_set_positions_with_offset_def positions_from_spec Let_def)
  also have "\<dots> = filter (\<lambda>p. unpack bytes ! p) [8 * ?i + ?k..<8 * length bytes]"
    by (rule positions_split [symmetric]) (use True in simp_all)
  finally show ?thesis by simp
next
  case False
  then have "8 * length bytes \<le> offset" by (simp add: div_less_iff_less_mult mult.commute)
  with False show ?thesis
    by (simp add: iter_set_positions_with_offset_def positions_from_spec Let_def)
qed

subsection \<open>The test for all bits set\<close>

lemma byte_bits_mask: "k \<le> 8 \<Longrightarrow> byte_bits (mask k) = replicate k True @ replicate (8 - k) False"
  by (rule byte_bits_eqI) (auto simp: bit_mask_iff nth_append)

lemma not_push_255:
  assumes "k \<le> 8"
  shows "(NOT (push_bit k 0xFF) :: u8) = mask k"
  by (rule bit_word_eqI) (use assms in \<open>auto simp: bit_simps u8_255_mask\<close>)

lemma list_all_255: "list_all (\<lambda>v. v = 0xFF) buf \<longleftrightarrow> (\<forall>i < 8 * length buf. unpack buf ! i)"
proof -
  have b: "v = 0xFF \<longleftrightarrow> False \<notin> set (byte_bits v)" for v
  proof
    assume "False \<notin> set (byte_bits v)"
    then have "byte_bits v = byte_bits 0xFF"
      unfolding byte_bits_255 by (intro replicate_eqI) (metis length_byte_bits, metis)
    then show "v = 0xFF" by (rule byte_bits_inj)
  qed auto
  have "list_all (\<lambda>v. v = 0xFF) buf \<longleftrightarrow> False \<notin> set (unpack buf)"
    by (induction buf) (auto simp: b)
  then show ?thesis by (metis (full_types) in_set_conv_nth length_unpack)
qed

lemma last_byte_full:
  assumes "bs_wf b" "bs_len b \<noteq> 0"
  defines "m \<equiv> (if bs_len b mod 8 = 0 then 0xFF else NOT (push_bit (bs_len b mod 8) 0xFF))"
  shows "last (bs_buffer b) = m \<longleftrightarrow> (\<forall>i. 8 * (length (bs_buffer b) - 1) \<le> i \<and> i < bs_len b \<longrightarrow> bs_bits b ! i)"
proof -
  let ?n = "bs_len b" and ?buf = "bs_buffer b" and ?r = "if bs_len b mod 8 = 0 then 8 else bs_len b mod 8"
  have len: "length ?buf = (?n + 7) div 8" by (rule bs_wf_buffer_len [OF assms(1)])
  have "0 < (?n + 7) div 8" using assms(2) by (simp add: div_greater_zero_iff)
  then obtain as a where buf: "?buf = as @ [a]" using len by (cases ?buf rule: rev_cases) auto
  have n: "?n = 8 * length as + ?r"
    using len assms(2) mult_div_mod_eq [of 8 ?n] by (auto simp: buf bytes_count split: if_splits)
  have r: "?r \<le> 8" by simp
  have m: "m = mask ?r" unfolding m_def using not_push_255 [of "?n mod 8"] by (simp add: u8_255_mask)
  have pad: "unpack ?buf ! i = False" if "?n \<le> i" "i < 8 * length ?buf" for i
    using assms(1) that by (auto simp: bs_wf_def list_all_iff in_set_conv_nth all_set_conv_all_nth)
      (metis (no_types, lifting) add_diff_inverse_nat diff_less_mono length_drop length_unpack less_le_not_le not_less nth_drop)
  have nth: "byte_bits a ! j = unpack ?buf ! (8 * length as + j)" for j by (simp add: buf nth_append)
  have "a = m \<longleftrightarrow> byte_bits a = replicate ?r True @ replicate (8 - ?r) False"
    unfolding m byte_bits_mask [OF r, symmetric] by (auto dest: byte_bits_inj)
  also have "\<dots> \<longleftrightarrow> (\<forall>j < ?r. byte_bits a ! j)"
  proof
    assume all: "\<forall>j < ?r. byte_bits a ! j"
    show "byte_bits a = replicate ?r True @ replicate (8 - ?r) False"
    proof (rule nth_equalityI)
      fix j assume "j < length (byte_bits a)"
      then show "byte_bits a ! j = (replicate ?r True @ replicate (8 - ?r) False) ! j"
      proof (cases "j < ?r")
        case True
        then show ?thesis using all by (simp only: nth_append length_replicate if_True nth_replicate)
      next
        case False
        then have "?n \<le> 8 * length as + j" "8 * length as + j < 8 * length ?buf"
          using \<open>j < length (byte_bits a)\<close> by (subst n, simp_all add: buf)
        then have "\<not> byte_bits a ! j" using pad unfolding nth by blast
        with False \<open>j < length (byte_bits a)\<close> show ?thesis by (simp add: nth_append)
      qed
    qed (use r in simp)
  qed (use r in \<open>simp add: nth_append\<close>)
  also have "\<dots> \<longleftrightarrow> (\<forall>i. 8 * length as \<le> i \<and> i < ?n \<longrightarrow> bs_bits b ! i)"
    unfolding nth using n by (auto simp: bs_bits_def le_iff_add)
  finally show ?thesis by (simp add: buf)
qed

lemma bs_is_all_set_spec:
  assumes "bs_wf b"
  shows "bs_is_all_set b = Some (bs_len b \<noteq> 0 \<and> (\<forall>i < bs_len b.
    (bs_len b mod 8 \<noteq> 0 \<and> i div 8 + 1 = bs_len b div 8) \<or> bs_bits b ! i))"
proof (cases "bs_len b = 0")
  case False
  let ?n = "bs_len b" and ?buf = "bs_buffer b" and ?k = "bs_len b div 8 - 1"
  have len: "length ?buf = (?n + 7) div 8" by (rule bs_wf_buffer_len [OF assms])
  have pos: "0 < (?n + 7) div 8" using False by (simp add: div_greater_zero_iff)
  then have ne: "?buf \<noteq> []" using len by auto
  have k: "8 * ?k \<le> ?n" "?k \<le> length ?buf"
    using len div_le_mono [of ?n "?n + 7" 8] by (simp_all add: diff_mult_distrib2)
  have front: "list_all (\<lambda>v. v = 0xFF) (take ?k ?buf) \<longleftrightarrow> (\<forall>i < 8 * ?k. bs_bits b ! i)"
    using k unfolding list_all_255 by (auto simp: bs_bits_def simp flip: take_unpack)
  have rear: "(8 * (length ?buf - 1) \<le> i \<and> i < ?n) \<longleftrightarrow> i < ?n \<and> length ?buf = i div 8 + 1" if "i < ?n" for i
    using bs_wf_index(1) [OF assms that] that
    by (auto simp: less_eq_div_iff_mult_less_eq mult.commute)
  have cover: "i < 8 * ?k \<or> length ?buf = i div 8 + 1 \<longleftrightarrow> \<not> (?n mod 8 \<noteq> 0 \<and> i div 8 + 1 = ?n div 8)"
    if "i < ?n" for i
  proof -
    have "i div 8 < length ?buf" by (rule bs_wf_index(1) [OF assms that])
    moreover have "i < 8 * ?k \<longleftrightarrow> i div 8 < ?k" by (simp add: div_less_iff_less_mult mult.commute)
    ultimately show ?thesis unfolding len bytes_count by auto
  qed
  have "bs_is_all_set b = Some ((\<forall>i < 8 * ?k. bs_bits b ! i)
      \<and> (\<forall>i. 8 * (length ?buf - 1) \<le> i \<and> i < ?n \<longrightarrow> bs_bits b ! i))"
    unfolding bs_is_all_set_def Let_def front last_byte_full [OF assms False, symmetric]
    using False ne by (simp only: if_False if_True not_False_eq_True) simp
  also have "\<dots> = Some (\<forall>i < ?n. i < 8 * ?k \<or> length ?buf = i div 8 + 1 \<longrightarrow> bs_bits b ! i)"
    using k(1) rear by (auto dest: less_le_trans)
  also have "\<dots> = Some (\<forall>i < ?n. (?n mod 8 \<noteq> 0 \<and> i div 8 + 1 = ?n div 8) \<or> bs_bits b ! i)"
    using cover by blast
  finally show ?thesis using False by simp
qed (simp add: bs_is_all_set_def)

subsection \<open>Setting the bit at the length\<close>

lemma bs_set_at_len:
  assumes "bs_wf b"
  shows "bs_len b mod 8 = 0 \<Longrightarrow> bs_set b (bs_len b) = None"
    and "bs_len b mod 8 \<noteq> 0 \<Longrightarrow> \<exists>b'. bs_set b (bs_len b) = Some b' \<and> bs_len b' = bs_len b
      \<and> unpack (bs_buffer b') = (unpack (bs_buffer b))[bs_len b := True] \<and> bs_len b < 8 * length (bs_buffer b)"
proof -
  let ?n = "bs_len b"
  have len: "length (bs_buffer b) = (?n + 7) div 8" by (rule bs_wf_buffer_len [OF assms])
  show "bs_set b ?n = None" if "?n mod 8 = 0"
    using that by (simp add: bs_set_def len bytes_count nth_opt_def)
  assume "?n mod 8 \<noteq> 0"
  then have "?n div 8 < length (bs_buffer b)" by (simp add: len bytes_count)
  moreover from this have "?n < 8 * length (bs_buffer b)" by (simp add: div_less_iff_less_mult mult.commute)
  ultimately show "\<exists>b'. bs_set b ?n = Some b' \<and> bs_len b' = ?n
      \<and> unpack (bs_buffer b') = (unpack (bs_buffer b))[?n := True] \<and> ?n < 8 * length (bs_buffer b)"
    using unpack_update [of ?n "bs_buffer b"] by (simp add: bs_set_def Let_def)
qed

subsection \<open>The interface of a growable bit vector\<close>

text \<open>
  What the clients of the set rely on (the validity masks and boolean columns of
  \<^verbatim>\<open>mutable_batch\<close>): a sequence of bits that grows at the end, is cut at a length and read by
  index. The laws are those of a list of booleans.
\<close>

locale bit_vector =
  fixes inv :: "'s \<Rightarrow> bool" and bits :: "'s \<Rightarrow> bool list" and empty :: 's
    and push_set push_unset cut :: "'s \<Rightarrow> nat \<Rightarrow> 's option"
    and append_range :: "'s \<Rightarrow> 's \<Rightarrow> nat \<Rightarrow> nat \<Rightarrow> 's option"
    and read :: "'s \<Rightarrow> nat \<Rightarrow> bool option"
  assumes empty: "inv empty" "bits empty = []"
    and push_set: "inv s \<Longrightarrow> \<exists>s'. push_set s n = Some s' \<and> inv s' \<and> bits s' = bits s @ replicate n True"
    and push_unset: "inv s \<Longrightarrow> \<exists>s'. push_unset s n = Some s' \<and> inv s' \<and> bits s' = bits s @ replicate n False"
    and cut: "inv s \<Longrightarrow> n \<le> length (bits s) \<Longrightarrow> \<exists>s'. cut s n = Some s' \<and> inv s' \<and> bits s' = take n (bits s)"
    and append_range: "inv s \<Longrightarrow> inv t \<Longrightarrow> i \<le> j \<Longrightarrow> j \<le> length (bits t) \<Longrightarrow>
      \<exists>s'. append_range s t i j = Some s' \<and> inv s' \<and> bits s' = bits s @ take (j - i) (drop i (bits t))"
    and read: "inv s \<Longrightarrow> n < length (bits s) \<Longrightarrow> read s n = Some (bits s ! n)"
begin

text \<open>Appending the bits one at a time, as a validity mask is built row by row.\<close>

primrec push_all :: "'s \<Rightarrow> bool list \<Rightarrow> 's option" where
  "push_all s [] = Some s"
| "push_all s (x # xs) = Option.bind (if x then push_set s 1 else push_unset s 1) (\<lambda>s'. push_all s' xs)"

lemma push_all_bits: "inv s \<Longrightarrow> \<exists>s'. push_all s xs = Some s' \<and> inv s' \<and> bits s' = bits s @ xs"
proof (induction xs arbitrary: s)
  case (Cons x xs)
  obtain s1 where s1: "(if x then push_set s 1 else push_unset s 1) = Some s1" "inv s1" "bits s1 = bits s @ [x]"
    using push_set [OF Cons.prems, of 1] push_unset [OF Cons.prems, of 1] by (cases x) auto
  from Cons.IH [OF s1(2)] show ?case by (auto simp: s1)
qed simp

text \<open>A range of pushed bits survives further growth and is found by index.\<close>

lemma push_then_read:
  assumes "inv s" "i < length xs" "push_all s xs = Some t" "push_all t ys = Some u"
  shows "read u (length (bits s) + i) = Some (xs ! i)"
proof -
  obtain t' where t: "push_all s xs = Some t'" "inv t'" "bits t' = bits s @ xs"
    using push_all_bits [OF assms(1)] by blast
  obtain u' where u: "push_all t' ys = Some u'" "inv u'" "bits u' = bits t' @ ys"
    using push_all_bits [OF t(2)] by blast
  have "u' = u" "t' = t" using t(1) u(1) assms(3,4) by simp_all
  moreover have "read u' (length (bits s) + i) = Some (bits u' ! (length (bits s) + i))"
    by (rule read [OF u(2)]) (use assms(2) in \<open>simp add: t(3) u(3)\<close>)
  moreover have "bits u' ! (length (bits s) + i) = xs ! i"
    using assms(2) by (simp add: t(3) u(3) nth_append)
  ultimately show ?thesis by simp
qed

end

interpretation bs: bit_vector bs_wf bs_bits bs_new bs_append_set "\<lambda>b n. Some (bs_append_unset b n)"
  bs_truncate bs_extend_from_range bs_get
  using bs_new_yields bs_append_set_yields bs_append_unset_yields bs_truncate_yields
    bs_extend_from_range_yields bs_get_nth bs_wf_len
  by unfold_locales (auto simp: yields_def)

subsection \<open>Properties\<close>

text \<open>The updates of the set as a language of operations, with their meaning on lists of booleans.\<close>

datatype bs_op = Append_Set nat | Append_Unset nat | Append_Bits nat "u8 list"
  | Extend_From BitSet | Extend_From_Range BitSet nat nat | Truncate nat | Set nat | And BitSet

fun bs_step :: "BitSet \<Rightarrow> bs_op \<Rightarrow> BitSet option" where
  "bs_step b (Append_Set n) = bs_append_set b n"
| "bs_step b (Append_Unset n) = Some (bs_append_unset b n)"
| "bs_step b (Append_Bits n bytes) = bs_append_bits b n bytes"
| "bs_step b (Extend_From c) = bs_extend_from b c"
| "bs_step b (Extend_From_Range c i j) = bs_extend_from_range b c i j"
| "bs_step b (Truncate n) = bs_truncate b n"
| "bs_step b (Set i) = bs_set b i"
| "bs_step b (And c) = bs_and b c"

fun bits_step :: "bool list \<Rightarrow> bs_op \<Rightarrow> bool list" where
  "bits_step xs (Append_Set n) = xs @ replicate n True"
| "bits_step xs (Append_Unset n) = xs @ replicate n False"
| "bits_step xs (Append_Bits n bytes) = xs @ take n (unpack bytes)"
| "bits_step xs (Extend_From c) = xs @ bs_bits c"
| "bits_step xs (Extend_From_Range c i j) = xs @ take (j - i) (drop i (bs_bits c))"
| "bits_step xs (Truncate n) = take n xs"
| "bits_step xs (Set i) = xs[i := True]"
| "bits_step xs (And c) = map2 (\<and>) xs (bs_bits c)"

text \<open>The condition under which a caller may use an operation.\<close>

fun bs_may :: "bool list \<Rightarrow> bs_op \<Rightarrow> bool" where
  "bs_may xs (Append_Bits n bytes) = (length bytes = (n + 7) div 8)"
| "bs_may xs (Extend_From c) = bs_wf c"
| "bs_may xs (Extend_From_Range c i j) = (bs_wf c \<and> i \<le> j \<and> j \<le> bs_len c)"
| "bs_may xs (Truncate n) = (n \<le> length xs)"
| "bs_may xs (Set i) = (i < length xs)"
| "bs_may xs (And c) = (bs_wf c \<and> bs_len c = length xs)"
| "bs_may xs _ = True"

fun bs_run :: "BitSet \<Rightarrow> bs_op list \<Rightarrow> BitSet option" where
  "bs_run b [] = Some b"
| "bs_run b (p # ps) = do { b' \<leftarrow> bs_step b p; bs_run b' ps }"

fun bs_may_run :: "bool list \<Rightarrow> bs_op list \<Rightarrow> bool" where
  "bs_may_run xs [] = True"
| "bs_may_run xs (p # ps) = (bs_may xs p \<and> bs_may_run (bits_step xs p) ps)"

lemma bs_step_yields:
  assumes "bs_wf b" "bs_may (bs_bits b) p"
  shows "yields (bs_step b p) (bits_step (bs_bits b) p)"
  using assms bs_wf_len [OF assms(1)]
  by (cases p) (simp_all add: bs_append_set_yields bs_append_unset_yields bs_append_bits_yields
    bs_extend_from_yields bs_extend_from_range_yields bs_truncate_yields bs_set_yields bs_and_yields)

lemma bs_run_yields:
  "bs_wf b \<Longrightarrow> bs_may_run (bs_bits b) ps \<Longrightarrow> yields (bs_run b ps) (foldl bits_step (bs_bits b) ps)"
proof (induction ps arbitrary: b)
  case (Cons p ps)
  then obtain b' where "bs_step b p = Some b'" "bs_wf b'" "bs_bits b' = bits_step (bs_bits b) p"
    using bs_step_yields [of b p] by (auto simp: yields_def)
  with Cons.IH [of b'] Cons.prems show ?case by simp
qed (simp add: yields_def)

text \<open>The representation is canonical: well-formed sets with the same bits are equal.\<close>

lemma bs_wf_canonical:
  assumes "bs_wf a" "bs_wf b" "bs_bits a = bs_bits b"
  shows "a = b"
proof -
  have "bs_buffer a = bs_buffer b"
    using packs_inj bs_wf_packs [OF assms(1)] bs_wf_packs [OF assms(2)] assms(3) by simp
  moreover have "bs_len a = bs_len b" using bs_wf_len assms by metis
  ultimately show ?thesis by (cases a; cases b) simp
qed

text \<open>
  C5. Refinement of the bit set to a list of booleans: any sequence of appends (of set bits, unset
  bits, packed bytes, another set or a range of another set), truncations, single-bit updates and
  intersections, started on the empty set and used within its preconditions, never panics, ends in
  a set that satisfies the representation invariant, and holds exactly the bits that the same
  sequence produces on lists.
\<close>

theorem bitset_run_refines:
  assumes "bs_may_run [] ps"
  shows "\<exists>b. bs_run bs_new ps = Some b \<and> bs_wf b \<and> bs_bits b = foldl bits_step [] ps"
  using bs_run_yields [OF bs.empty(1), of ps] assms by (simp add: bs.empty(2) yields_def)

theorem bitset_run_refines_witness:
  "\<exists>b. bs_run bs_new [Append_Unset 3, Append_Set 9, Append_Bits 5 [0x15], Set 1, Truncate 14] = Some b
    \<and> bs_wf b \<and> length (bs_bits b) = 14"
  using bitset_run_refines [of "[Append_Unset 3, Append_Set 9, Append_Bits 5 [0x15], Set 1, Truncate 14]"]
  by auto

text \<open>
  C29. The observers read the list of bits: on a well-formed set \<^verbatim>\<open>get\<close> is indexing, \<^verbatim>\<open>count_ones\<close> and
  \<^verbatim>\<open>count_zeros\<close> count the set and unset bits without underflow, \<^verbatim>\<open>is_any_set\<close> and \<^verbatim>\<open>is_all_unset\<close>
  test membership, and the value iterator yields exactly the bits in order.
\<close>

theorem bitset_observers:
  assumes "bs_wf b"
  shows "(\<forall>i < bs_len b. bs_get b i = Some (bs_bits b ! i))
    \<and> bs_count_ones b = length (filter id (bs_bits b))
    \<and> bs_count_zeros b = Some (length (filter Not (bs_bits b)))
    \<and> bs_is_any_set b = (True \<in> set (bs_bits b))
    \<and> bs_is_all_unset b = (True \<notin> set (bs_bits b))
    \<and> iter_collect (iter_new b) = Some (bs_bits b)"
  using assms iter_collect_drop [OF assms, of 0]
  by (simp add: bs_get_nth bs_count_ones_bits bs_count_zeros_bits bs_any_bits iter_new_def)

theorem bitset_observers_witness:
  "let b = \<lparr>bs_buffer = [0x81, 0x02], bs_len = 10\<rparr> in
    bs_get b 7 = Some True \<and> bs_count_ones b = 3 \<and> bs_count_zeros b = Some 7 \<and> bs_is_any_set b
    \<and> \<not> bs_is_all_unset b \<and> iter_collect (iter_new b) = Some (bs_bits b)"
proof -
  let ?b = "\<lparr>bs_buffer = [0x81, 0x02], bs_len = 10\<rparr>"
  have wf: "bs_wf ?b" by code_simp
  have bits: "bs_bits ?b = [True, False, False, False, False, False, False, True, False, True]"
    by code_simp
  show ?thesis
    using bitset_observers [OF wf] unfolding bits Let_def by simp
qed

text \<open>
  C22. \<^verbatim>\<open>iter_set_positions_with_offset\<close> yields, in increasing order, exactly the positions at or after
  the offset whose bit is set in the packed bytes (none when the offset is past the end).
\<close>

theorem set_positions_exact:
  "iter_set_positions_with_offset bytes offset = filter (\<lambda>p. unpack bytes ! p) [offset..<8 * length bytes]"
  by (rule iter_set_positions_with_offset_spec)

text \<open>
  \<^verbatim>\<open>split_off\<close> followed by \<^verbatim>\<open>extend_from\<close> is the identity: splitting a well-formed set at any
  position up to its length returns the bits before and after it, and appending the right part to
  the left one restores the original set, byte for byte.
\<close>

theorem split_off_extend_roundtrip:
  assumes "bs_wf b" "n \<le> bs_len b"
  shows "\<exists>left right. bs_split_off b n = Some (left, right) \<and> bs_wf left \<and> bs_wf right
    \<and> bs_bits left = take n (bs_bits b) \<and> bs_bits right = drop n (bs_bits b)
    \<and> bs_extend_from left right = Some b"
proof -
  obtain left right where s: "bs_split_off b n = Some (left, right)"
    "yields (Some left) (take n (bs_bits b))" "yields (Some right) (drop n (bs_bits b))"
    by (rule bs_split_off_yields [OF assms])
  then have wf: "bs_wf left" "bs_wf right" "bs_bits left = take n (bs_bits b)" "bs_bits right = drop n (bs_bits b)"
    by (simp_all add: yields_def)
  obtain c where "bs_extend_from left right = Some c" "bs_wf c" "bs_bits c = bs_bits b"
    using bs_extend_from_yields [OF wf(1,2)] wf(3,4) by (auto simp: yields_def)
  moreover from this have "c = b" using bs_wf_canonical assms(1) by blast
  ultimately show ?thesis using s(1) wf by blast
qed

theorem split_off_extend_roundtrip_witness:
  "\<exists>left right. bs_split_off \<lparr>bs_buffer = [0x81, 0x02], bs_len = 10\<rparr> 3 = Some (left, right)
    \<and> bs_extend_from left right = Some \<lparr>bs_buffer = [0x81, 0x02], bs_len = 10\<rparr>"
proof -
  have "bs_wf \<lparr>bs_buffer = [0x81, 0x02], bs_len = 10\<rparr>" by code_simp
  from split_off_extend_roundtrip [OF this, of 3] show ?thesis by auto
qed

text \<open>
  C30. What \<^verbatim>\<open>is_all_set\<close> really tests: on a well-formed set of positive length it returns whether every
  bit is set except those of the last whole byte when the length is not a multiple of eight, which
  it never looks at. So it can return true although bits are unset.
\<close>

theorem is_all_set_exact:
  assumes "bs_wf b"
  shows "bs_is_all_set b = Some (bs_len b \<noteq> 0 \<and> (\<forall>i < bs_len b.
    (bs_len b mod 8 \<noteq> 0 \<and> i div 8 + 1 = bs_len b div 8) \<or> bs_bits b ! i))"
  by (rule bs_is_all_set_spec [OF assms])

theorem is_all_set_exact_witness:
  "bs_is_all_set \<lparr>bs_buffer = [0x00, 0x01], bs_len = 9\<rparr> = Some True
    \<and> bs_count_ones \<lparr>bs_buffer = [0x00, 0x01], bs_len = 9\<rparr> = 1"
proof -
  let ?b = "\<lparr>bs_buffer = [0x00, 0x01], bs_len = 9\<rparr>"
  have wf: "bs_wf ?b" by code_simp
  have bits: "bs_bits ?b = replicate 8 False @ [True]" by code_simp
  have "bs_count_ones ?b = 1" by code_simp
  moreover have "i div 8 = 0 \<or> (replicate 8 False @ [True]) ! i" if "i < 9" for i :: nat
    using that by (cases "i < 8") (simp_all add: nth_append div_eq_0_iff)
  then have "bs_is_all_set ?b = Some True"
    unfolding is_all_set_exact [OF wf] bits by simp
  ultimately show ?thesis by simp
qed

text \<open>
  \<^verbatim>\<open>set\<close> accepts the index equal to the length: off a byte boundary it then sets a padding bit, so
  the bits of the set are unchanged but the representation invariant is broken and \<^verbatim>\<open>count_ones\<close>
  counts one bit too many; on a byte boundary it panics.
\<close>

theorem set_at_length_breaks_invariant:
  assumes "bs_wf b"
  shows "if bs_len b mod 8 = 0 then bs_set b (bs_len b) = None
    else \<exists>b'. bs_set b (bs_len b) = Some b' \<and> \<not> bs_wf b' \<and> bs_bits b' = bs_bits b
      \<and> bs_count_ones b' = bs_count_ones b + 1"
proof (cases "bs_len b mod 8 = 0")
  case False
  let ?n = "bs_len b" and ?u = "unpack (bs_buffer b)"
  obtain b' where b': "bs_set b ?n = Some b'" "bs_len b' = ?n" "unpack (bs_buffer b') = ?u[?n := True]"
    "?n < 8 * length (bs_buffer b)"
    using bs_set_at_len(2) [OF assms False] by blast
  have u: "?u = bs_bits b @ replicate (8 * length (bs_buffer b) - ?n) False" and l: "?n = length (bs_bits b)"
    using bs_wf_packs [OF assms] bs_wf_len [OF assms] by (simp_all add: packs_def)
  obtain k where k: "8 * length (bs_buffer b) - ?n = Suc k" using b'(4) by (metis Suc_diff_Suc)
  have u': "unpack (bs_buffer b') = bs_bits b @ True # replicate k False"
    unfolding b'(3) u k using l by simp
  have "bs_bits b' = bs_bits b" unfolding bs_bits_def [of b'] u' b'(2) using l by simp
  moreover have "bs_count_ones b' = bs_count_ones b + 1"
    unfolding bs_count_ones_def sum_count_ones u u' by simp
  moreover have "\<not> bs_wf b'" unfolding bs_wf_def u' b'(2) using l by simp
  ultimately show ?thesis using False b'(1) by simp
qed (use bs_set_at_len(1) [OF assms] in simp)

theorem set_at_length_breaks_invariant_witness:
  "\<exists>b'. bs_set \<lparr>bs_buffer = [0x01], bs_len = 3\<rparr> 3 = Some b' \<and> \<not> bs_wf b' \<and> bs_count_ones b' = 2"
proof -
  have "bs_wf \<lparr>bs_buffer = [0x01], bs_len = 3\<rparr>" "bs_count_ones \<lparr>bs_buffer = [0x01], bs_len = 3\<rparr> = 1"
    by code_simp+
  with set_at_length_breaks_invariant [of "\<lparr>bs_buffer = [0x01], bs_len = 3\<rparr>"] show ?thesis by auto
qed

end
