(* ===== verification/Time_Types.thy ===== *)
theory Time_Types
  imports Prelude
begin

text \<open>
  Timestamps and time ranges of \<^verbatim>\<open>data_types/src/lib.rs\<close>: checked timestamp arithmetic, sequence
  numbers, the half-open query ranges with their clamping constructor, the closed min/max ranges of
  files and chunks, and the tests that decide whether they overlap.
\<close>

subsection \<open>Timestamps and sequence numbers\<close>

type_synonym Timestamp = int
type_synonym SequenceNumber = nat

definition timestamp_add :: "Timestamp \<Rightarrow> Timestamp \<Rightarrow> Timestamp option" where
  "timestamp_add self other = i64_add self other"

definition timestamp_sub :: "Timestamp \<Rightarrow> Timestamp \<Rightarrow> Timestamp option" where
  "timestamp_sub self other = i64_sub self other"

definition sequence_number_add :: "SequenceNumber \<Rightarrow> nat \<Rightarrow> SequenceNumber option" where
  "sequence_number_add self other = u64_add self other"

definition sequence_number_sub :: "SequenceNumber \<Rightarrow> nat \<Rightarrow> SequenceNumber option" where
  "sequence_number_sub self other = checked_sub self other"

subsection \<open>Half-open ranges\<close>

definition MIN_NANO_TIME :: int where
  "MIN_NANO_TIME = i64_min + 2"

definition MAX_NANO_TIME :: int where
  "MAX_NANO_TIME = i64_max - 1"

record TimestampRange =
  range_start :: int
  range_end :: int

text \<open>\<^verbatim>\<open>Ord::clamp\<close> panics when its bounds are out of order.\<close>

definition clamp :: "int \<Rightarrow> int \<Rightarrow> int \<Rightarrow> int option" where
  "clamp v lo hi = do {
     assert_that (lo \<le> hi);
     Some (if v < lo then lo else if v > hi then hi else v)
   }"

definition timestamp_range_new :: "int \<Rightarrow> int \<Rightarrow> TimestampRange option" where
  "timestamp_range_new start stop = do {
     start \<leftarrow> clamp start MIN_NANO_TIME stop;
     let stop = max stop MIN_NANO_TIME;
     Some \<lparr>range_start = start, range_end = stop\<rparr>
   }"

definition contains_all :: "TimestampRange \<Rightarrow> bool" where
  "contains_all self \<longleftrightarrow> range_start self \<le> MIN_NANO_TIME \<and> range_end self > MAX_NANO_TIME"

definition contains_nearly_all :: "TimestampRange \<Rightarrow> bool" where
  "contains_nearly_all self \<longleftrightarrow> range_start self \<le> MIN_NANO_TIME \<and> range_end self \<ge> MAX_NANO_TIME"

definition range_contains :: "TimestampRange \<Rightarrow> int \<Rightarrow> bool" where
  "range_contains self v \<longleftrightarrow> range_start self \<le> v \<and> v < range_end self"

subsection \<open>Closed ranges\<close>

record TimestampMinMax =
  mm_min :: int
  mm_max :: int

definition timestamp_min_max_new :: "int \<Rightarrow> int \<Rightarrow> TimestampMinMax option" where
  "timestamp_min_max_new mn mx = do {
     assert_that (mn \<le> mx);
     Some \<lparr>mm_min = mn, mm_max = mx\<rparr>
   }"

definition min_max_overlaps :: "TimestampMinMax \<Rightarrow> TimestampRange \<Rightarrow> bool" where
  "min_max_overlaps self rng \<longleftrightarrow>
     range_contains rng (mm_min self)
     \<or> range_contains rng (mm_max self)
     \<or> (mm_min self \<le> range_start rng \<and> mm_max self \<ge> range_end rng)"

definition min_max_union :: "TimestampMinMax \<Rightarrow> TimestampMinMax \<Rightarrow> TimestampMinMax" where
  "min_max_union self other =
     \<lparr>mm_min = min (mm_min self) (mm_min other), mm_max = max (mm_max self) (mm_max other)\<rparr>"

record FileRange =
  fr_min :: int
  fr_max :: int
  fr_cap :: nat

subsection \<open>Delete predicates\<close>

datatype Op = Eq | Ne

definition op_fmt :: "Op \<Rightarrow> string" where
  "op_fmt self = (case self of Eq \<Rightarrow> ''='' | Ne \<Rightarrow> ''!='')"

text \<open>Scalars. The debug format of a finite double, \<open>f64_debug\<close>, is the standard library's shortest
  decimal printing and stays a parameter.\<close>

datatype Scalar = Scalar_Bool bool | Scalar_I64 int | Scalar_F64 f64 | Scalar_String string

record DeleteExpr =
  de_column :: string
  de_op :: Op
  de_scalar :: Scalar

record DeletePredicate =
  dp_range :: TimestampRange
  dp_exprs :: "DeleteExpr list"

definition retention_delete_predicate :: "int \<Rightarrow> DeletePredicate" where
  "retention_delete_predicate retention_time =
     \<lparr>dp_range = \<lparr>range_start = i64_min, range_end = retention_time\<rparr>, dp_exprs = []\<rparr>"

abbreviation backslash :: char where
  "backslash \<equiv> CHR 0x5C"

abbreviation quote :: char where
  "quote \<equiv> CHR 0x27"

abbreviation dquote :: char where
  "dquote \<equiv> CHR 0x22"

definition scalar_fmt :: "(f64 \<Rightarrow> string) \<Rightarrow> Scalar \<Rightarrow> string" where
  "scalar_fmt f64_debug self =
     (case self of
        Scalar_Bool value \<Rightarrow> bool_fmt value
      | Scalar_I64 value \<Rightarrow> int_fmt value
      | Scalar_F64 value \<Rightarrow>
          if f64_is_nan value then [quote] @ ''NaN'' @ [quote]
          else if f64_is_infinite value \<and> f64_key value < 0 then [quote] @ ''-Infinity'' @ [quote]
          else if f64_is_infinite value then [quote] @ ''Infinity'' @ [quote]
          else f64_debug value
      | Scalar_String value \<Rightarrow>
          [quote] @ replace_char quote [backslash, quote] (replace_char backslash [backslash, backslash] value) @ [quote])"

definition delete_expr_fmt :: "(f64 \<Rightarrow> string) \<Rightarrow> DeleteExpr \<Rightarrow> string" where
  "delete_expr_fmt f64_debug self =
     [dquote] @ replace_char dquote [backslash, dquote] (replace_char backslash [backslash, backslash] (de_column self)) @ [dquote]
     @ op_fmt (de_op self) @ scalar_fmt f64_debug (de_scalar self)"

definition expr_sql_string :: "(f64 \<Rightarrow> string) \<Rightarrow> DeletePredicate \<Rightarrow> string" where
  "expr_sql_string f64_debug self =
     fold (\<lambda>expr out. (if out \<noteq> [] then out @ '' AND '' else out) @ delete_expr_fmt f64_debug expr)
       (dp_exprs self) []"

subsection \<open>Lemmas\<close>

lemmas nano_time_defs = MIN_NANO_TIME_def MAX_NANO_TIME_def i64_min_def i64_max_def

text \<open>Where the constructor of a range succeeds, it intersects the interval with the representable times.\<close>

lemma timestamp_range_new_Some:
  assumes "MIN_NANO_TIME \<le> stop"
  shows "timestamp_range_new start stop
    = Some \<lparr>range_start = (if start < MIN_NANO_TIME then MIN_NANO_TIME else if start > stop then stop else start),
            range_end = stop\<rparr>"
  using assms by (simp add: timestamp_range_new_def clamp_def max_def)

lemma timestamp_range_new_None: "stop < MIN_NANO_TIME \<Longrightarrow> timestamp_range_new start stop = None"
  by (simp add: timestamp_range_new_def clamp_def)

text \<open>Reading a quoted literal in which a backslash escapes the next character.\<close>

fun read_quoted :: "char \<Rightarrow> string \<Rightarrow> (string \<times> string) option" where
  "read_quoted q [] = None"
| "read_quoted q (c # cs) =
     (if c = q then Some ([], cs)
      else if c = backslash then
        (case cs of [] \<Rightarrow> None
         | d # ds \<Rightarrow> map_option (\<lambda>(s, rest). (d # s, rest)) (read_quoted q ds))
      else map_option (\<lambda>(s, rest). (c # s, rest)) (read_quoted q cs))"

lemma read_quoted_escape:
  assumes "q \<noteq> backslash"
  shows "read_quoted q (replace_char q [backslash, q] (replace_char backslash [backslash, backslash] s) @ q # rest)
    = Some (s, rest)"
  using assms by (induction s) auto

subsection \<open>Properties\<close>

text \<open>
  The constructor of a query range panics exactly when its end is below the smallest representable
  time. Otherwise it returns an ordered range that starts no earlier than that time, ends where asked,
  and contains exactly the representable times of the requested half-open interval (none when the
  interval is empty or reversed).
\<close>

theorem timestamp_range_new_exact:
  "(timestamp_range_new start stop = None \<longleftrightarrow> stop < MIN_NANO_TIME)
    \<and> (\<forall>r. timestamp_range_new start stop = Some r \<longrightarrow>
        MIN_NANO_TIME \<le> range_start r \<and> range_start r \<le> range_end r \<and> range_end r = stop
        \<and> (\<forall>v. range_contains r v \<longleftrightarrow> MIN_NANO_TIME \<le> v \<and> start \<le> v \<and> v < stop))"
proof (cases "stop < MIN_NANO_TIME")
  case False
  then show ?thesis by (auto simp: timestamp_range_new_Some range_contains_def)
qed (simp add: timestamp_range_new_None)

theorem timestamp_range_new_exact_witness:
  "timestamp_range_new 5 i64_min = None
    \<and> (\<exists>r. timestamp_range_new i64_min 7 = Some r \<and> range_contains r 6 \<and> \<not> range_contains r 7
        \<and> \<not> range_contains r (i64_min + 1))"
proof -
  have "timestamp_range_new i64_min 7 \<noteq> None" "timestamp_range_new 5 i64_min = None"
    using timestamp_range_new_exact [of i64_min 7] timestamp_range_new_exact [of 5 i64_min]
    by (simp_all add: nano_time_defs)
  then show ?thesis using timestamp_range_new_exact [of i64_min 7] by (auto simp: nano_time_defs)
qed

text \<open>
  The overlap test of a closed time range against a query range is exact on non-empty query ranges:
  true if and only if some time lies in both. On an empty query range it still answers true when the
  empty range's position lies inside the closed range.
\<close>

theorem min_max_overlaps_exact:
  assumes "timestamp_min_max_new mn mx = Some self" "range_start rng \<le> range_end rng"
  shows "min_max_overlaps self rng \<longleftrightarrow>
    (\<exists>v. mn \<le> v \<and> v \<le> mx \<and> range_contains rng v)
    \<or> (range_start rng = range_end rng \<and> mn \<le> range_start rng \<and> range_start rng \<le> mx)"
proof -
  have self: "mm_min self = mn" "mm_max self = mx" and le: "mn \<le> mx"
    using assms(1) by (auto simp: timestamp_min_max_new_def assert_that_def split: if_splits)
  show ?thesis
  proof (cases "range_start rng = range_end rng")
    case True
    then show ?thesis using self le by (auto simp: min_max_overlaps_def range_contains_def)
  next
    case False
    then have "min_max_overlaps self rng \<longleftrightarrow> mn < range_end rng \<and> range_start rng \<le> mx"
      using assms(2) self le by (auto simp: min_max_overlaps_def range_contains_def)
    also have "\<dots> \<longleftrightarrow> (\<exists>v. mn \<le> v \<and> v \<le> mx \<and> range_contains rng v)"
      unfolding range_contains_def using False assms(2) le
      by (auto intro!: exI [of _ "max mn (range_start rng)"])
    finally show ?thesis using False by simp
  qed
qed

theorem min_max_overlaps_exact_witness:
  "\<exists>self. timestamp_min_max_new 1 5 = Some self
    \<and> min_max_overlaps self \<lparr>range_start = 5, range_end = 9\<rparr>
    \<and> \<not> min_max_overlaps self \<lparr>range_start = 6, range_end = 9\<rparr>
    \<and> min_max_overlaps self \<lparr>range_start = 3, range_end = 3\<rparr>"
proof -
  obtain self where self: "timestamp_min_max_new 1 5 = Some self"
    by (simp add: timestamp_min_max_new_def)
  note ex = min_max_overlaps_exact [OF self]
  show ?thesis
    using self ex [of "\<lparr>range_start = 5, range_end = 9\<rparr>"] ex [of "\<lparr>range_start = 6, range_end = 9\<rparr>"]
      ex [of "\<lparr>range_start = 3, range_end = 3\<rparr>"]
    by (auto simp: range_contains_def)
qed

text \<open>
  Quoting in the SQL text of delete predicates is lossless: reading the text of a string scalar (or
  of a column name) up to its closing quote, with backslash as the escape, gives back the original
  string and leaves exactly the rest of the text, whatever quotes and backslashes it contains.
\<close>

theorem delete_predicate_quoting_roundtrip:
  "(\<exists>body. scalar_fmt f64_debug (Scalar_String s) @ rest = quote # body \<and> read_quoted quote body = Some (s, rest))
    \<and> (\<exists>body. delete_expr_fmt f64_debug e @ rest = dquote # body \<and>
        read_quoted dquote body = Some (de_column e, op_fmt (de_op e) @ scalar_fmt f64_debug (de_scalar e) @ rest))"
  using read_quoted_escape [of quote s rest]
    read_quoted_escape [of dquote "de_column e" "op_fmt (de_op e) @ scalar_fmt f64_debug (de_scalar e) @ rest"]
  by (simp add: scalar_fmt_def delete_expr_fmt_def)

end
