(* ===== verification/Statistics.thy ===== *)
theory Statistics
  imports Time_Types "HOL-Library.Char_ord" "HOL-Library.List_Lexorder"
begin

text \<open>
  Column statistics of \<^verbatim>\<open>data_types/src/lib.rs\<close> (\<^verbatim>\<open>StatValues\<close>, \<^verbatim>\<open>Statistics\<close>, \<^verbatim>\<open>ColumnSummary\<close>,
  \<^verbatim>\<open>TableSummary\<close>). The generic \<^verbatim>\<open>StatValues<T>\<close> takes the comparison operators and the NaN test
  of \<open>T\<close> as arguments, as the trait bounds \<^verbatim>\<open>PartialOrd + IsNan\<close> do; the locale \<open>stat_order\<close>
  states what the code relies on, and is interpreted for all five value types, with doubles at
  their bits.
\<close>

subsection \<open>Statistics of one column\<close>

record 'a StatValues =
  sv_min :: "'a option"
  sv_max :: "'a option"
  sv_total_count :: nat
  sv_null_count :: "nat option"
  sv_distinct_count :: "nat option"

datatype StatOverlap = NonZero | Zero | Unknown

definition sv_overlaps :: "('a \<Rightarrow> 'a \<Rightarrow> bool) \<Rightarrow> 'a StatValues \<Rightarrow> 'a StatValues \<Rightarrow> StatOverlap" where
  "sv_overlaps ge self other =
     (case (sv_min self, sv_max self, sv_min other, sv_max other) of
        (Some self_min, Some self_max, Some other_min, Some other_max) \<Rightarrow>
          if ge other_max self_min \<and> ge self_max other_min then NonZero else Zero
      | _ \<Rightarrow> Unknown)"

definition sv_default :: "'a StatValues" where
  "sv_default = \<lparr>sv_min = None, sv_max = None, sv_total_count = 0, sv_null_count = None, sv_distinct_count = None\<rparr>"

definition sv_new_empty :: "'a StatValues" where
  "sv_new_empty = \<lparr>sv_min = None, sv_max = None, sv_total_count = 0, sv_null_count = Some 0, sv_distinct_count = None\<rparr>"

definition sv_is_none :: "'a StatValues \<Rightarrow> bool" where
  "sv_is_none self \<longleftrightarrow> sv_min self = None \<and> sv_max self = None"

text \<open>Mapping a function that may panic over an \<^verbatim>\<open>Option\<close>.\<close>

definition map_panic :: "('a \<Rightarrow> 'b option) \<Rightarrow> 'a option \<Rightarrow> 'b option option" where
  "map_panic f x = (case x of None \<Rightarrow> Some None | Some a \<Rightarrow> map_option Some (f a))"

definition sv_update_for_nulls :: "'a StatValues \<Rightarrow> nat \<Rightarrow> 'a StatValues option" where
  "sv_update_for_nulls self num_nulls = do {
     total \<leftarrow> u64_add (sv_total_count self) num_nulls;
     nulls \<leftarrow> map_panic (\<lambda>x. u64_add x num_nulls) (sv_null_count self);
     Some (self\<lparr>sv_total_count := total, sv_null_count := nulls\<rparr>)
   }"

definition sv_update :: "('a \<Rightarrow> 'a \<Rightarrow> bool) \<Rightarrow> ('a \<Rightarrow> bool) \<Rightarrow> 'a StatValues \<Rightarrow> 'a \<Rightarrow> 'a StatValues option" where
  "sv_update gt is_nan self other = do {
     total \<leftarrow> u64_add (sv_total_count self) 1;
     let self = self\<lparr>sv_total_count := total, sv_distinct_count := None\<rparr>;
     Some (if \<not> is_nan other
       then let self = (case sv_min self of
                  None \<Rightarrow> self\<lparr>sv_min := Some other\<rparr>
                | Some s \<Rightarrow> if gt s other then self\<lparr>sv_min := Some other\<rparr> else self)
            in (case sv_max self of
                  None \<Rightarrow> self\<lparr>sv_max := Some other\<rparr>
                | Some s \<Rightarrow> if gt other s then self\<lparr>sv_max := Some other\<rparr> else self)
       else self)
   }"

definition sv_update_from :: "('a \<Rightarrow> 'a \<Rightarrow> bool) \<Rightarrow> 'a StatValues \<Rightarrow> 'a StatValues \<Rightarrow> 'a StatValues option" where
  "sv_update_from gt self other = do {
     total \<leftarrow> u64_add (sv_total_count self) (sv_total_count other);
     nulls \<leftarrow> (case (sv_null_count self, sv_null_count other) of
                 (Some a, Some b) \<Rightarrow> map_option Some (u64_add a b)
               | _ \<Rightarrow> Some None);
     let mn = (case (sv_min self, sv_min other) of
                 (m, None) \<Rightarrow> m
               | (None, Some v) \<Rightarrow> Some v
               | (Some s, Some v) \<Rightarrow> if gt s v then Some v else Some s);
     let mx = (case (sv_max self, sv_max other) of
                 (m, None) \<Rightarrow> m
               | (None, Some v) \<Rightarrow> Some v
               | (Some s, Some v) \<Rightarrow> if gt v s then Some v else Some s);
     Some \<lparr>sv_min = mn, sv_max = mx, sv_total_count = total, sv_null_count = nulls, sv_distinct_count = None\<rparr>
   }"

definition sv_new_with_distinct ::
  "('a \<Rightarrow> 'a \<Rightarrow> bool) \<Rightarrow> ('a \<Rightarrow> bool) \<Rightarrow> 'a option \<Rightarrow> 'a option \<Rightarrow> nat \<Rightarrow> nat option \<Rightarrow> nat option \<Rightarrow> 'a StatValues option" where
  "sv_new_with_distinct ge is_nan mn mx total_count null_count distinct_count = do {
     assert_that (case mn of Some v \<Rightarrow> \<not> is_nan v | None \<Rightarrow> True);
     assert_that (case mx of Some v \<Rightarrow> \<not> is_nan v | None \<Rightarrow> True);
     assert_that (case (mn, mx) of (Some a, Some b) \<Rightarrow> ge b a | _ \<Rightarrow> True);
     Some \<lparr>sv_min = mn, sv_max = mx, sv_total_count = total_count, sv_null_count = null_count,
           sv_distinct_count = distinct_count\<rparr>
   }"

definition sv_new where
  "sv_new ge is_nan mn mx total_count null_count =
     sv_new_with_distinct ge is_nan mn mx total_count null_count None"

definition sv_new_all_null where
  "sv_new_all_null ge is_nan total_count distinct_count = do {
     assert_that (case distinct_count of Some count \<Rightarrow> count > 0 | None \<Rightarrow> True);
     sv_new_with_distinct ge is_nan None None total_count (Some total_count) distinct_count
   }"

definition sv_new_non_null where
  "sv_new_non_null ge is_nan mn mx total_count =
     sv_new_with_distinct ge is_nan mn mx total_count (Some 0) None"

subsection \<open>Statistics with their type\<close>

datatype Statistics =
    Stat_I64 "int StatValues"
  | Stat_U64 "nat StatValues"
  | Stat_Bool "bool StatValues"
  | Stat_String "string StatValues"
  | Stat_F64 "f64 StatValues"

definition stat_total_count :: "Statistics \<Rightarrow> nat" where
  "stat_total_count self = (case self of
     Stat_I64 s \<Rightarrow> sv_total_count s | Stat_U64 s \<Rightarrow> sv_total_count s | Stat_F64 s \<Rightarrow> sv_total_count s
   | Stat_Bool s \<Rightarrow> sv_total_count s | Stat_String s \<Rightarrow> sv_total_count s)"

definition stat_is_none :: "Statistics \<Rightarrow> bool" where
  "stat_is_none self = (case self of
     Stat_I64 v \<Rightarrow> sv_is_none v | Stat_U64 v \<Rightarrow> sv_is_none v | Stat_F64 v \<Rightarrow> sv_is_none v
   | Stat_Bool v \<Rightarrow> sv_is_none v | Stat_String v \<Rightarrow> sv_is_none v)"

definition stat_null_count :: "Statistics \<Rightarrow> nat option" where
  "stat_null_count self = (case self of
     Stat_I64 s \<Rightarrow> sv_null_count s | Stat_U64 s \<Rightarrow> sv_null_count s | Stat_F64 s \<Rightarrow> sv_null_count s
   | Stat_Bool s \<Rightarrow> sv_null_count s | Stat_String s \<Rightarrow> sv_null_count s)"

definition stat_distinct_count :: "Statistics \<Rightarrow> nat option" where
  "stat_distinct_count self = (case self of
     Stat_I64 s \<Rightarrow> sv_distinct_count s | Stat_U64 s \<Rightarrow> sv_distinct_count s | Stat_F64 s \<Rightarrow> sv_distinct_count s
   | Stat_Bool s \<Rightarrow> sv_distinct_count s | Stat_String s \<Rightarrow> sv_distinct_count s)"

definition stat_update_for_nulls :: "Statistics \<Rightarrow> nat \<Rightarrow> Statistics option" where
  "stat_update_for_nulls self n = (case self of
     Stat_I64 v \<Rightarrow> map_option Stat_I64 (sv_update_for_nulls v n)
   | Stat_U64 v \<Rightarrow> map_option Stat_U64 (sv_update_for_nulls v n)
   | Stat_F64 v \<Rightarrow> map_option Stat_F64 (sv_update_for_nulls v n)
   | Stat_Bool v \<Rightarrow> map_option Stat_Bool (sv_update_for_nulls v n)
   | Stat_String v \<Rightarrow> map_option Stat_String (sv_update_for_nulls v n))"

definition stat_type_name :: "Statistics \<Rightarrow> string" where
  "stat_type_name self = (case self of
     Stat_I64 _ \<Rightarrow> ''I64'' | Stat_U64 _ \<Rightarrow> ''U64'' | Stat_F64 _ \<Rightarrow> ''F64''
   | Stat_Bool _ \<Rightarrow> ''Bool'' | Stat_String _ \<Rightarrow> ''String'')"

definition stat_as_i64 :: "Statistics \<Rightarrow> int StatValues option" where
  "stat_as_i64 self = (case self of Stat_I64 val \<Rightarrow> Some val | _ \<Rightarrow> None)"

subsection \<open>Column and table summaries\<close>

datatype InfluxDbType = Influx_Tag | Influx_Field | Influx_Timestamp

record ColumnSummary =
  cs_name :: string
  cs_influxdb_type :: InfluxDbType
  cs_stats :: Statistics

definition cs_total_count :: "ColumnSummary \<Rightarrow> nat" where
  "cs_total_count self = stat_total_count (cs_stats self)"

text \<open>Statistics of different types hit the \<^verbatim>\<open>unreachable!()\<close> arms.\<close>

definition stat_update_from :: "Statistics \<Rightarrow> Statistics \<Rightarrow> Statistics option" where
  "stat_update_from self other = (case (self, other) of
     (Stat_F64 s, Stat_F64 v) \<Rightarrow> map_option Stat_F64 (sv_update_from f64_gt s v)
   | (Stat_I64 s, Stat_I64 v) \<Rightarrow> map_option Stat_I64 (sv_update_from (>) s v)
   | (Stat_Bool s, Stat_Bool v) \<Rightarrow> map_option Stat_Bool (sv_update_from (>) s v)
   | (Stat_String s, Stat_String v) \<Rightarrow> map_option Stat_String (sv_update_from (>) s v)
   | (Stat_U64 s, Stat_U64 v) \<Rightarrow> map_option Stat_U64 (sv_update_from (>) s v)
   | _ \<Rightarrow> None)"

definition cs_update_from :: "ColumnSummary \<Rightarrow> ColumnSummary \<Rightarrow> ColumnSummary option" where
  "cs_update_from self other =
     map_option (\<lambda>st. self\<lparr>cs_stats := st\<rparr>) (stat_update_from (cs_stats self) (cs_stats other))"

definition cs_update_to_total_count :: "ColumnSummary \<Rightarrow> nat \<Rightarrow> ColumnSummary option" where
  "cs_update_to_total_count self n = do {
     let total_count = cs_total_count self;
     assert_that (total_count \<le> n);
     delta \<leftarrow> checked_sub n total_count;
     st \<leftarrow> stat_update_for_nulls (cs_stats self) delta;
     Some (self\<lparr>cs_stats := st\<rparr>)
   }"

record TableSummary =
  ts_columns :: "ColumnSummary list"

definition ts_column :: "TableSummary \<Rightarrow> string \<Rightarrow> ColumnSummary option" where
  "ts_column self name = find (\<lambda>c. cs_name c = name) (ts_columns self)"

text \<open>The consistency check of \<^verbatim>\<open>total_count\<close> only logs, so the result is the first column's count.\<close>

definition ts_total_count :: "TableSummary \<Rightarrow> nat" where
  "ts_total_count self = (case ts_columns self of [] \<Rightarrow> 0 | c # _ \<Rightarrow> cs_total_count c)"

fun update_existing :: "TableSummary \<Rightarrow> nat \<Rightarrow> ColumnSummary list \<Rightarrow> ColumnSummary list option" where
  "update_existing other new_total_count [] = Some []"
| "update_existing other new_total_count (col # cols) = do {
     col' \<leftarrow> (case ts_column other (cs_name col) of
               Some other_col \<Rightarrow> cs_update_from col other_col
             | None \<Rightarrow> cs_update_to_total_count col new_total_count);
     cols' \<leftarrow> update_existing other new_total_count cols;
     Some (col' # cols')
   }"

fun add_new_columns :: "nat \<Rightarrow> ColumnSummary list \<Rightarrow> TableSummary \<Rightarrow> TableSummary option" where
  "add_new_columns new_total_count [] self = Some self"
| "add_new_columns new_total_count (col # cols) self =
     (case ts_column self (cs_name col) of
        None \<Rightarrow> do {
          new_col \<leftarrow> cs_update_to_total_count col new_total_count;
          add_new_columns new_total_count cols (self\<lparr>ts_columns := ts_columns self @ [new_col]\<rparr>)
        }
      | Some _ \<Rightarrow> add_new_columns new_total_count cols self)"

definition ts_update_from :: "TableSummary \<Rightarrow> TableSummary \<Rightarrow> TableSummary option" where
  "ts_update_from self other = do {
     new_total_count \<leftarrow> u64_add (ts_total_count self) (ts_total_count other);
     cols \<leftarrow> update_existing other new_total_count (ts_columns self);
     add_new_columns new_total_count (ts_columns other) (self\<lparr>ts_columns := cols\<rparr>)
   }"

text \<open>\<^verbatim>\<open>TIME_COLUMN_NAME\<close> of the \<^verbatim>\<open>schema\<close> crate.\<close>

definition TIME_COLUMN_NAME :: string where
  "TIME_COLUMN_NAME = ''time''"

definition ts_time_range :: "TableSummary \<Rightarrow> TimestampMinMax option option" where
  "ts_time_range self =
     (case ts_column self TIME_COLUMN_NAME of
        Some c \<Rightarrow>
          (case cs_stats c of
             Stat_I64 s \<Rightarrow>
               (case (sv_min s, sv_max s) of
                  (Some mn, Some mx) \<Rightarrow> map_option Some (timestamp_min_max_new mn mx)
                | _ \<Rightarrow> Some None)
           | _ \<Rightarrow> Some None)
      | None \<Rightarrow> Some None)"

subsection \<open>What statistics describe\<close>

text \<open>
  The specification: statistics describe a column, a list of values with \<open>None\<close> for NULL. The minimum
  and maximum range over the values that are neither NULL nor NaN.
\<close>

definition ordinary :: "('a \<Rightarrow> bool) \<Rightarrow> 'a option list \<Rightarrow> 'a list" where
  "ordinary is_nan vs = filter (\<lambda>v. \<not> is_nan v) (map the (filter (\<lambda>v. v \<noteq> None) vs))"

definition least :: "('a \<Rightarrow> 'a \<Rightarrow> bool) \<Rightarrow> 'a option \<Rightarrow> 'a list \<Rightarrow> bool" where
  "least gt m xs \<longleftrightarrow> (case m of None \<Rightarrow> xs = [] | Some x \<Rightarrow> x \<in> set xs \<and> list_all (\<lambda>y. \<not> gt x y) xs)"

definition describes :: "('a \<Rightarrow> 'a \<Rightarrow> bool) \<Rightarrow> ('a \<Rightarrow> bool) \<Rightarrow> 'a StatValues \<Rightarrow> 'a option list \<Rightarrow> bool" where
  "describes gt is_nan s vs \<longleftrightarrow>
     sv_total_count s = length vs
     \<and> sv_null_count s = Some (length (filter (\<lambda>v. v = None) vs))
     \<and> least gt (sv_min s) (ordinary is_nan vs)
     \<and> least (\<lambda>a b. gt b a) (sv_max s) (ordinary is_nan vs)"

text \<open>Feeding a column into statistics value by value.\<close>

fun sv_collect :: "('a \<Rightarrow> 'a \<Rightarrow> bool) \<Rightarrow> ('a \<Rightarrow> bool) \<Rightarrow> 'a StatValues \<Rightarrow> 'a option list \<Rightarrow> 'a StatValues option" where
  "sv_collect gt is_nan s [] = Some s"
| "sv_collect gt is_nan s (v # vs) = do {
     s' \<leftarrow> (case v of Some x \<Rightarrow> sv_update gt is_nan s x | None \<Rightarrow> sv_update_for_nulls s 1);
     sv_collect gt is_nan s' vs
   }"

lemma ordinary_append [simp]: "ordinary is_nan (vs @ ws) = ordinary is_nan vs @ ordinary is_nan ws"
  by (simp add: ordinary_def)

lemma ordinary_simps [simp]:
  "ordinary is_nan [] = []" "ordinary is_nan [None] = []" "ordinary is_nan (replicate n None) = []"
  "ordinary is_nan [Some v] = (if is_nan v then [] else [v])"
  by (simp_all add: ordinary_def)

lemma ordinary_not_nan: "v \<in> set (ordinary is_nan vs) \<Longrightarrow> \<not> is_nan v"
  by (simp add: ordinary_def)

text \<open>A value lies between two values of a list.\<close>

definition within :: "('a \<Rightarrow> 'a \<Rightarrow> bool) \<Rightarrow> 'a list \<Rightarrow> 'a \<Rightarrow> bool" where
  "within gt xs v \<longleftrightarrow> (\<exists>a \<in> set xs. \<not> gt a v) \<and> (\<exists>b \<in> set xs. \<not> gt v b)"

text \<open>The better of two bounds, the first one on a tie.\<close>

definition merge_bound :: "('a \<Rightarrow> 'a \<Rightarrow> bool) \<Rightarrow> 'a option \<Rightarrow> 'a option \<Rightarrow> 'a option" where
  "merge_bound gt m n = (case (m, n) of (m, None) \<Rightarrow> m | (None, Some v) \<Rightarrow> Some v
     | (Some s, Some v) \<Rightarrow> if gt s v then Some v else Some s)"

lemma least_merge:
  assumes "least gt m xs" "least gt n ys" and asym: "\<And>a b. gt a b \<Longrightarrow> \<not> gt b a"
    and trans: "\<And>a b c. a \<in> set (xs @ ys) \<Longrightarrow> b \<in> set (xs @ ys) \<Longrightarrow> c \<in> set (xs @ ys) \<Longrightarrow>
      \<not> gt a b \<Longrightarrow> \<not> gt b c \<Longrightarrow> \<not> gt a c"
  shows "least gt (merge_bound gt m n) (xs @ ys)"
proof (cases m; cases n)
  fix a b assume mn: "m = Some a" "n = Some b"
  then have a: "a \<in> set xs" "\<And>y. y \<in> set xs \<Longrightarrow> \<not> gt a y" and b: "b \<in> set ys" "\<And>y. y \<in> set ys \<Longrightarrow> \<not> gt b y"
    using assms(1,2) by (auto simp: least_def list_all_iff)
  show ?thesis
  proof (cases "gt a b")
    case True
    then have "\<not> gt b y" if "y \<in> set xs" for y using asym trans [of b a y] a b that by auto
    then show ?thesis using True b mn by (auto simp: merge_bound_def least_def list_all_iff)
  next
    case False
    then have "\<not> gt a y" if "y \<in> set ys" for y using trans [of a b y] a b that by auto
    then show ?thesis using False a mn by (auto simp: merge_bound_def least_def list_all_iff)
  qed
qed (use assms(1,2) in \<open>auto simp: merge_bound_def least_def list_all_iff\<close>)

text \<open>What the code relies on of the compared type: a strict weak order on the values that are not NaN.\<close>

locale stat_order =
  fixes gt ge :: "'a \<Rightarrow> 'a \<Rightarrow> bool" and is_nan :: "'a \<Rightarrow> bool"
  assumes gt_asym: "gt a b \<Longrightarrow> \<not> gt b a"
    and gt_neg_trans: "\<not> is_nan a \<Longrightarrow> \<not> is_nan b \<Longrightarrow> \<not> is_nan c \<Longrightarrow> \<not> gt a b \<Longrightarrow> \<not> gt b c \<Longrightarrow> \<not> gt a c"
    and ge_iff: "\<not> is_nan a \<Longrightarrow> \<not> is_nan b \<Longrightarrow> ge a b \<longleftrightarrow> \<not> gt b a"
begin

lemma least_append:
  assumes "least gt m xs" "least gt n ys" "\<forall>v \<in> set (xs @ ys). \<not> is_nan v"
  shows "least gt (merge_bound gt m n) (xs @ ys)"
  by (rule least_merge [OF assms(1,2) gt_asym]) (use gt_neg_trans assms(3) in blast)+

lemma greatest_append:
  assumes "least (\<lambda>a b. gt b a) m xs" "least (\<lambda>a b. gt b a) n ys" "\<forall>v \<in> set (xs @ ys). \<not> is_nan v"
  shows "least (\<lambda>a b. gt b a) (merge_bound (\<lambda>a b. gt b a) m n) (xs @ ys)"
  by (rule least_merge [OF assms(1,2) gt_asym]) (use gt_neg_trans assms(3) in blast)+

lemma describes_update_from:
  assumes "describes gt is_nan s vs" "describes gt is_nan t ws" "length vs + length ws < 2 ^ 64"
  shows "\<exists>u. sv_update_from gt s t = Some u \<and> describes gt is_nan u (vs @ ws)"
proof -
  have nn: "\<forall>v \<in> set (ordinary is_nan vs @ ordinary is_nan ws). \<not> is_nan v"
    by (auto dest: ordinary_not_nan)
  have "length (filter (\<lambda>v. v = None) vs) + length (filter (\<lambda>v. v = None) ws) < 2 ^ 64"
    using assms(3) length_filter_le [of "\<lambda>v. v = None" vs] length_filter_le [of "\<lambda>v. v = None" ws] by linarith
  then show ?thesis
    using assms least_append [OF _ _ nn, of "sv_min s" "sv_min t"] greatest_append [OF _ _ nn, of "sv_max s" "sv_max t"]
    by (simp add: sv_update_from_def describes_def u64_add_def merge_bound_def)
qed

lemma describes_new_empty: "describes gt is_nan sv_new_empty []"
  by (simp add: describes_def sv_new_empty_def least_def)

lemma sv_update_eq:
  "sv_update gt is_nan s v = do {
     total \<leftarrow> u64_add (sv_total_count s) 1;
     let bound = (if is_nan v then None else Some v);
     Some \<lparr>sv_min = merge_bound gt (sv_min s) bound, sv_max = merge_bound (\<lambda>a b. gt b a) (sv_max s) bound,
           sv_total_count = total, sv_null_count = sv_null_count s, sv_distinct_count = None\<rparr>
   }"
  by (cases s) (simp add: sv_update_def merge_bound_def Let_def split: option.splits)

lemma describes_update:
  assumes "describes gt is_nan s vs" "length vs + 1 < 2 ^ 64"
  shows "\<exists>u. sv_update gt is_nan s v = Some u \<and> describes gt is_nan u (vs @ [Some v])"
proof -
  let ?b = "if is_nan v then None else Some v"
  have nn: "\<forall>x \<in> set (ordinary is_nan vs @ ordinary is_nan [Some v]). \<not> is_nan x"
    by (auto dest: ordinary_not_nan)
  have "least gt ?b (ordinary is_nan [Some v])" "least (\<lambda>a b. gt b a) ?b (ordinary is_nan [Some v])"
    using gt_asym by (auto simp: least_def)
  then have "least gt (merge_bound gt (sv_min s) ?b) (ordinary is_nan (vs @ [Some v]))"
    "least (\<lambda>a b. gt b a) (merge_bound (\<lambda>a b. gt b a) (sv_max s) ?b) (ordinary is_nan (vs @ [Some v]))"
    using assms(1) least_append [OF _ _ nn] greatest_append [OF _ _ nn]
    unfolding describes_def ordinary_append by blast+
  then show ?thesis
    using assms by (cases "is_nan v") (simp_all add: sv_update_eq describes_def u64_add_def Let_def)
qed

lemma describes_nulls:
  assumes "describes gt is_nan s vs" "length vs + n < 2 ^ 64"
  shows "\<exists>u. sv_update_for_nulls s n = Some u \<and> describes gt is_nan u (vs @ replicate n None)"
proof -
  have "length (filter (\<lambda>v. v = None) vs) + n < 2 ^ 64"
    using assms(2) length_filter_le [of "\<lambda>v. v = None" vs] by linarith
  then show ?thesis
    using assms by (simp add: sv_update_for_nulls_def describes_def u64_add_def map_panic_def)
qed

lemma sv_collect_describes:
  assumes "describes gt is_nan s vs" "length vs + length ws < 2 ^ 64"
  shows "\<exists>u. sv_collect gt is_nan s ws = Some u \<and> describes gt is_nan u (vs @ ws)"
  using assms
proof (induction ws arbitrary: s vs)
  case (Cons w ws)
  obtain s' where "(case w of Some x \<Rightarrow> sv_update gt is_nan s x | None \<Rightarrow> sv_update_for_nulls s 1) = Some s'"
    "describes gt is_nan s' (vs @ [w])"
    using describes_update [OF Cons.prems(1)] describes_nulls [OF Cons.prems(1), of 1] Cons.prems(2)
    by (cases w) auto
  then show ?case using Cons.IH [of s' "vs @ [w]"] Cons.prems(2) by simp
qed simp

text \<open>The overlap test compares the closed value ranges of two described columns.\<close>

lemma describes_bounds:
  assumes "describes gt is_nan s vs" "ordinary is_nan vs \<noteq> []"
  obtains mn mx where "sv_min s = Some mn" "sv_max s = Some mx" "\<not> is_nan mn" "\<not> is_nan mx"
    "mn \<in> set (ordinary is_nan vs)" "mx \<in> set (ordinary is_nan vs)"
    "\<And>y. y \<in> set (ordinary is_nan vs) \<Longrightarrow> \<not> gt mn y \<and> \<not> gt y mx \<and> \<not> is_nan y"
  using assms ordinary_not_nan [of _ is_nan vs] that
  by (cases "sv_min s"; cases "sv_max s") (auto simp: describes_def least_def list_all_iff)

lemma overlaps_NonZero_iff:
  assumes s: "describes gt is_nan s vs" "ordinary is_nan vs \<noteq> []" and t: "describes gt is_nan t ws" "ordinary is_nan ws \<noteq> []"
  shows "sv_overlaps ge s t = (if \<exists>v. \<not> is_nan v \<and> within gt (ordinary is_nan vs) v \<and> within gt (ordinary is_nan ws) v
    then NonZero else Zero)"
proof -
  obtain a b where ab: "sv_min s = Some a" "sv_max s = Some b" "\<not> is_nan a" "\<not> is_nan b"
      "a \<in> set (ordinary is_nan vs)" "b \<in> set (ordinary is_nan vs)"
      "\<And>y. y \<in> set (ordinary is_nan vs) \<Longrightarrow> \<not> gt a y \<and> \<not> gt y b \<and> \<not> is_nan y"
    by (rule describes_bounds [OF s]) blast
  obtain c d where cd: "sv_min t = Some c" "sv_max t = Some d" "\<not> is_nan c" "\<not> is_nan d"
      "c \<in> set (ordinary is_nan ws)" "d \<in> set (ordinary is_nan ws)"
      "\<And>y. y \<in> set (ordinary is_nan ws) \<Longrightarrow> \<not> gt c y \<and> \<not> gt y d \<and> \<not> is_nan y"
    by (rule describes_bounds [OF t]) blast
  have vs: "within gt (ordinary is_nan vs) v \<longleftrightarrow> \<not> gt a v \<and> \<not> gt v b" if "\<not> is_nan v" for v
    unfolding within_def using ab that gt_neg_trans by blast
  have ws: "within gt (ordinary is_nan ws) v \<longleftrightarrow> \<not> gt c v \<and> \<not> gt v d" if "\<not> is_nan v" for v
    unfolding within_def using cd that gt_neg_trans by blast
  have "(\<not> gt a d \<and> \<not> gt c b) \<longleftrightarrow> (\<exists>v. \<not> is_nan v \<and> \<not> gt a v \<and> \<not> gt v b \<and> \<not> gt c v \<and> \<not> gt v d)"
  proof
    assume "\<not> gt a d \<and> \<not> gt c b"
    then show "\<exists>v. \<not> is_nan v \<and> \<not> gt a v \<and> \<not> gt v b \<and> \<not> gt c v \<and> \<not> gt v d"
      using ab cd gt_asym by (cases "gt a c") blast+
  next
    assume "\<exists>v. \<not> is_nan v \<and> \<not> gt a v \<and> \<not> gt v b \<and> \<not> gt c v \<and> \<not> gt v d"
    then show "\<not> gt a d \<and> \<not> gt c b" using gt_neg_trans ab(3,4) cd(3,4) by blast
  qed
  then show ?thesis using vs ws ab(1-4) cd(1-4) by (simp add: sv_overlaps_def ge_iff cong: conj_cong)
qed

end

subsection \<open>The five value types\<close>

definition f64_ge :: "f64 \<Rightarrow> f64 \<Rightarrow> bool" where
  "f64_ge a b \<longleftrightarrow> \<not> f64_is_nan a \<and> \<not> f64_is_nan b \<and> f64_key a \<ge> f64_key b"

interpretation i64_stat: stat_order "(>) :: int \<Rightarrow> int \<Rightarrow> bool" "(\<ge>)" "\<lambda>_. False"
  by unfold_locales auto

interpretation u64_stat: stat_order "(>) :: nat \<Rightarrow> nat \<Rightarrow> bool" "(\<ge>)" "\<lambda>_. False"
  by unfold_locales auto

interpretation bool_stat: stat_order "(>) :: bool \<Rightarrow> bool \<Rightarrow> bool" "(\<ge>)" "\<lambda>_. False"
  by unfold_locales auto

interpretation string_stat: stat_order "(>) :: string \<Rightarrow> string \<Rightarrow> bool" "(\<ge>)" "\<lambda>_. False"
  by unfold_locales auto

interpretation f64_stat: stat_order f64_gt f64_ge f64_is_nan
  by unfold_locales (auto simp: f64_gt_def f64_ge_def)

subsection \<open>Merging table summaries\<close>

text \<open>Statistics over \<open>n\<close> rows, and a summary whose columns all cover \<open>n\<close> rows.\<close>

definition sv_rows :: "nat \<Rightarrow> 'a StatValues \<Rightarrow> bool" where
  "sv_rows n s \<longleftrightarrow> sv_total_count s = n \<and> (case sv_null_count s of None \<Rightarrow> True | Some k \<Rightarrow> k \<le> n)"

definition stat_rows :: "nat \<Rightarrow> Statistics \<Rightarrow> bool" where
  "stat_rows n st \<longleftrightarrow> stat_total_count st = n \<and> (case stat_null_count st of None \<Rightarrow> True | Some k \<Rightarrow> k \<le> n)"

definition ts_rows :: "nat \<Rightarrow> TableSummary \<Rightarrow> bool" where
  "ts_rows n ts \<longleftrightarrow> (ts_columns ts = [] \<longrightarrow> n = 0) \<and> distinct (map cs_name (ts_columns ts))
     \<and> list_all (\<lambda>c. stat_rows n (cs_stats c)) (ts_columns ts)"

text \<open>Columns that occur in both summaries have statistics of the same type.\<close>

definition ts_compatible :: "TableSummary \<Rightarrow> TableSummary \<Rightarrow> bool" where
  "ts_compatible a b \<longleftrightarrow> list_all (\<lambda>c. case ts_column b (cs_name c) of None \<Rightarrow> True
     | Some d \<Rightarrow> stat_type_name (cs_stats c) = stat_type_name (cs_stats d)) (ts_columns a)"

lemma stat_rows_simps [simp]:
  "stat_rows n (Stat_I64 s1) = sv_rows n s1" "stat_rows n (Stat_U64 s2) = sv_rows n s2"
  "stat_rows n (Stat_Bool s3) = sv_rows n s3" "stat_rows n (Stat_String s4) = sv_rows n s4"
  "stat_rows n (Stat_F64 s5) = sv_rows n s5"
  by (simp_all add: stat_rows_def sv_rows_def stat_total_count_def stat_null_count_def)

lemma sv_update_from_rows:
  assumes "sv_rows n s" "sv_rows m t" "n + m < 2 ^ 64"
  shows "\<exists>u. sv_update_from gt s t = Some u \<and> sv_rows (n + m) u"
  using assms
  by (cases "sv_null_count s"; cases "sv_null_count t") (auto simp: sv_rows_def sv_update_from_def u64_add_def)

lemma sv_update_for_nulls_rows:
  assumes "sv_rows n s" "n + k < 2 ^ 64"
  shows "\<exists>u. sv_update_for_nulls s k = Some u \<and> sv_rows (n + k) u"
  using assms
  by (cases "sv_null_count s") (auto simp: sv_rows_def sv_update_for_nulls_def u64_add_def map_panic_def)

lemma stat_update_from_rows:
  assumes "stat_rows n a" "stat_rows m b" "n + m < 2 ^ 64" "stat_type_name a = stat_type_name b"
  shows "\<exists>c. stat_update_from a b = Some c \<and> stat_rows (n + m) c"
  using assms(1,2,4)
  by (cases a; cases b) (auto simp: stat_update_from_def stat_type_name_def
    dest!: sv_update_from_rows [OF _ _ assms(3)])

lemma stat_update_for_nulls_rows:
  assumes "stat_rows n a" "n + k < 2 ^ 64"
  shows "\<exists>c. stat_update_for_nulls a k = Some c \<and> stat_rows (n + k) c"
  using assms(1)
  by (cases a) (auto simp: stat_update_for_nulls_def dest!: sv_update_for_nulls_rows [OF _ assms(2)])

lemma stat_update_from_mismatch:
  "stat_type_name a \<noteq> stat_type_name b \<Longrightarrow> stat_update_from a b = None"
  by (cases a; cases b) (auto simp: stat_update_from_def stat_type_name_def)

lemma cs_update_to_total_count_rows:
  assumes "stat_rows n (cs_stats c)" "n \<le> k" "k < 2 ^ 64"
  obtains c' where "cs_update_to_total_count c k = Some c'" "stat_rows k (cs_stats c')" "cs_name c' = cs_name c"
proof -
  obtain st where "stat_update_for_nulls (cs_stats c) (k - n) = Some st" "stat_rows (n + (k - n)) st"
    using stat_update_for_nulls_rows [OF assms(1), of "k - n"] assms by auto
  then show ?thesis
    using assms that [of "c\<lparr>cs_stats := st\<rparr>"]
    by (simp add: cs_update_to_total_count_def cs_total_count_def stat_rows_def)
qed

lemma update_existing_rows:
  assumes "list_all (\<lambda>c. stat_rows n (cs_stats c)) cols" "list_all (\<lambda>c. stat_rows m (cs_stats c)) (ts_columns other)"
    "n + m < 2 ^ 64"
    "list_all (\<lambda>c. case ts_column other (cs_name c) of None \<Rightarrow> True
      | Some d \<Rightarrow> stat_type_name (cs_stats c) = stat_type_name (cs_stats d)) cols"
  shows "\<exists>cols'. update_existing other (n + m) cols = Some cols' \<and> map cs_name cols' = map cs_name cols
    \<and> list_all (\<lambda>c. stat_rows (n + m) (cs_stats c)) cols'"
  using assms(1,4)
proof (induction cols)
  case (Cons c cols)
  have "\<exists>c'. (case ts_column other (cs_name c) of Some d \<Rightarrow> cs_update_from c d
      | None \<Rightarrow> cs_update_to_total_count c (n + m)) = Some c' \<and> stat_rows (n + m) (cs_stats c') \<and> cs_name c' = cs_name c"
  proof (cases "ts_column other (cs_name c)")
    case None
    then show ?thesis
      using cs_update_to_total_count_rows [of n c "n + m"] Cons.prems assms(3) by auto
  next
    case (Some d)
    then have "stat_rows m (cs_stats d)" using assms(2) by (auto simp: ts_column_def list_all_iff dest: find_SomeD)
    then obtain st where "stat_update_from (cs_stats c) (cs_stats d) = Some st" "stat_rows (n + m) st"
      using stat_update_from_rows [of n "cs_stats c" m "cs_stats d"] Cons.prems assms(3) Some by auto
    then show ?thesis using Some by (simp add: cs_update_from_def)
  qed
  with Cons show ?case by auto
qed simp

lemma add_new_columns_rows:
  assumes "list_all (\<lambda>c. stat_rows m (cs_stats c)) cols" "m \<le> k" "k < 2 ^ 64" "distinct (map cs_name cols)"
    "list_all (\<lambda>c. stat_rows k (cs_stats c)) (ts_columns ts)" "distinct (map cs_name (ts_columns ts))"
  shows "\<exists>r. add_new_columns k cols ts = Some r
    \<and> map cs_name (ts_columns r) = map cs_name (ts_columns ts)
        @ filter (\<lambda>x. x \<notin> cs_name ` set (ts_columns ts)) (map cs_name cols)
    \<and> list_all (\<lambda>c. stat_rows k (cs_stats c)) (ts_columns r)"
  using assms(1,4-6)
proof (induction cols arbitrary: ts)
  case (Cons c cols)
  show ?case
  proof (cases "ts_column ts (cs_name c)")
    case None
    then have new: "cs_name c \<notin> cs_name ` set (ts_columns ts)" by (auto simp: ts_column_def find_None_iff)
    obtain c' where c': "cs_update_to_total_count c k = Some c'" "stat_rows k (cs_stats c')" "cs_name c' = cs_name c"
      using cs_update_to_total_count_rows [of m c k] Cons.prems assms(2,3) by auto
    have "filter (\<lambda>x. x \<noteq> cs_name c \<and> x \<notin> cs_name ` set (ts_columns ts)) (map cs_name cols)
        = filter (\<lambda>x. x \<notin> cs_name ` set (ts_columns ts)) (map cs_name cols)"
      using Cons.prems(2) by (intro filter_cong) (auto simp: image_iff)
    then show ?thesis
      using Cons.IH [of "ts\<lparr>ts_columns := ts_columns ts @ [c']\<rparr>"] Cons.prems new c' None by simp
  next
    case (Some d)
    then have "cs_name c \<in> cs_name ` set (ts_columns ts)"
      using find_SomeD [of "\<lambda>x. cs_name x = cs_name c" "ts_columns ts" d]
      by (auto simp: ts_column_def intro: rev_image_eqI)
    then show ?thesis using Cons Some by simp
  qed
qed simp

lemma ts_rows_total: "ts_rows n ts \<Longrightarrow> ts_total_count ts = n"
  by (auto simp: ts_rows_def ts_total_count_def cs_total_count_def stat_rows_def split: list.splits)

lemma update_existing_mismatch:
  assumes "c \<in> set cols" "ts_column other (cs_name c) = Some d" "stat_type_name (cs_stats c) \<noteq> stat_type_name (cs_stats d)"
  shows "update_existing other k cols = None"
  using assms
  by (induction cols) (auto simp: cs_update_from_def stat_update_from_mismatch split: option.splits Option.bind_splits)

subsection \<open>Properties\<close>

text \<open>
  C17. Statistics are exact: feeding a column of doubles (fewer than \<open>2 ^ 64\<close> values, NULLs and NaNs among
  them) into empty statistics never panics and yields the row count, the NULL count and the true minimum
  and maximum of the values that are neither NULL nor NaN; merging the statistics of two columns yields
  the statistics of their concatenation. The same holds for integer columns.
\<close>

theorem statistics_describe_column:
  assumes "length vs + length ws < 2 ^ 64" "length is + length js < 2 ^ 64"
  shows "(\<exists>s t u. sv_collect f64_gt f64_is_nan sv_new_empty vs = Some s \<and> describes f64_gt f64_is_nan s vs
      \<and> sv_collect f64_gt f64_is_nan sv_new_empty ws = Some t
      \<and> sv_update_from f64_gt s t = Some u \<and> describes f64_gt f64_is_nan u (vs @ ws))
    \<and> (\<exists>s t u. sv_collect (>) (\<lambda>_. False) sv_new_empty is = Some s \<and> describes (>) (\<lambda>_. False) s (is :: int option list)
      \<and> sv_collect (>) (\<lambda>_. False) sv_new_empty js = Some t
      \<and> sv_update_from (>) s t = Some u \<and> describes (>) (\<lambda>_. False) u (is @ js))"
proof (intro conjI)
  obtain s where s: "sv_collect f64_gt f64_is_nan sv_new_empty vs = Some s" "describes f64_gt f64_is_nan s vs"
    using f64_stat.sv_collect_describes [OF f64_stat.describes_new_empty, of vs] assms by auto
  obtain t where t: "sv_collect f64_gt f64_is_nan sv_new_empty ws = Some t" "describes f64_gt f64_is_nan t ws"
    using f64_stat.sv_collect_describes [OF f64_stat.describes_new_empty, of ws] assms by auto
  from f64_stat.describes_update_from [OF s(2) t(2) assms(1)] s t
  show "\<exists>s t u. sv_collect f64_gt f64_is_nan sv_new_empty vs = Some s \<and> describes f64_gt f64_is_nan s vs
      \<and> sv_collect f64_gt f64_is_nan sv_new_empty ws = Some t
      \<and> sv_update_from f64_gt s t = Some u \<and> describes f64_gt f64_is_nan u (vs @ ws)" by blast
next
  obtain s where s: "sv_collect (>) (\<lambda>_. False) sv_new_empty is = Some s" "describes (>) (\<lambda>_. False) s is"
    using i64_stat.sv_collect_describes [OF i64_stat.describes_new_empty, of "is"] assms by auto
  obtain t where t: "sv_collect (>) (\<lambda>_. False) sv_new_empty js = Some t" "describes (>) (\<lambda>_. False) t js"
    using i64_stat.sv_collect_describes [OF i64_stat.describes_new_empty, of js] assms by auto
  from i64_stat.describes_update_from [OF s(2) t(2) assms(2)] s t
  show "\<exists>s t u. sv_collect (>) (\<lambda>_. False) sv_new_empty is = Some s \<and> describes (>) (\<lambda>_. False) s is
      \<and> sv_collect (>) (\<lambda>_. False) sv_new_empty js = Some t
      \<and> sv_update_from (>) s t = Some u \<and> describes (>) (\<lambda>_. False) u (is @ js)" by blast
qed

theorem statistics_describe_column_witness:
  "\<exists>s. sv_collect f64_gt f64_is_nan sv_new_empty
      [Some 0x3FF0000000000000, None, Some 0x7FF8000000000000, Some 0xBFF0000000000000] = Some s
    \<and> sv_total_count s = 4 \<and> sv_null_count s = Some 1"
  using statistics_describe_column [of "[Some 0x3FF0000000000000, None, Some 0x7FF8000000000000, Some 0xBFF0000000000000]"
    "[]" "[]" "[]"]
  by (auto simp: describes_def)

text \<open>
  Two statistics of doubles that each describe a column with an ordinary value report an overlap
  exactly when some value lies within the value ranges of both columns.
\<close>

theorem statistics_overlap_exact:
  assumes "describes f64_gt f64_is_nan s vs" "ordinary f64_is_nan vs \<noteq> []"
    and "describes f64_gt f64_is_nan t ws" "ordinary f64_is_nan ws \<noteq> []"
  shows "sv_overlaps f64_ge s t = (if \<exists>v. \<not> f64_is_nan v \<and> within f64_gt (ordinary f64_is_nan vs) v
    \<and> within f64_gt (ordinary f64_is_nan ws) v then NonZero else Zero)"
  by (rule f64_stat.overlaps_NonZero_iff [OF assms])

text \<open>The two smallest non-negative doubles, for evaluation.\<close>

lemma f64_small [simp]:
  "\<not> f64_is_nan 0" "\<not> f64_is_nan 1" "f64_gt 1 0" "\<not> f64_gt 0 1" "\<not> f64_gt v v"
  by (simp_all add: f64_is_nan_def f64_gt_def f64_key_def f64_magnitude_def flip: take_bit_eq_mask)

theorem statistics_overlap_exact_witness:
  "sv_overlaps f64_ge \<lparr>sv_min = Some 0, sv_max = Some 1, sv_total_count = 2, sv_null_count = Some 0, sv_distinct_count = None\<rparr>
     \<lparr>sv_min = Some 1, sv_max = Some 1, sv_total_count = 1, sv_null_count = Some 0, sv_distinct_count = None\<rparr>
   = NonZero"
proof -
  let ?s = "\<lparr>sv_min = Some 0, sv_max = Some 1, sv_total_count = 2, sv_null_count = Some 0, sv_distinct_count = None\<rparr>"
  let ?t = "\<lparr>sv_min = Some 1, sv_max = Some 1, sv_total_count = 1, sv_null_count = Some 0, sv_distinct_count = None\<rparr>"
  have ord: "ordinary f64_is_nan [Some 0, Some 1] = [0, 1]" "ordinary f64_is_nan [Some 1] = [1]"
    by (simp_all add: ordinary_def)
  have s: "describes f64_gt f64_is_nan ?s [Some 0, Some 1]" "ordinary f64_is_nan [Some 0, Some 1] \<noteq> []"
    by (simp_all add: describes_def ord least_def)
  have t: "describes f64_gt f64_is_nan ?t [Some 1]" "ordinary f64_is_nan [Some 1] \<noteq> []"
    by (simp_all add: describes_def ord least_def del: ordinary_simps)
  have "\<exists>v. \<not> f64_is_nan v \<and> within f64_gt [0, 1] v \<and> within f64_gt [1] v"
    by (rule exI [of _ 1]) (simp add: within_def)
  then show ?thesis using statistics_overlap_exact [OF s t] unfolding ord by simp
qed

text \<open>
  Merging table summaries keeps them consistent: when every column of each summary covers all its rows
  and columns with the same name have the same type, merging does not panic, the merged summary
  covers the sum of the rows in every column (NULL-padded where a column was missing), and its columns
  are those of the first summary followed by the new ones of the second, each name once.
\<close>

theorem table_summary_merge_consistent:
  assumes "ts_rows n a" "ts_rows m b" "n + m < 2 ^ 64" "ts_compatible a b"
  shows "\<exists>r. ts_update_from a b = Some r \<and> ts_rows (n + m) r \<and> ts_total_count r = n + m
    \<and> map cs_name (ts_columns r) = map cs_name (ts_columns a)
        @ filter (\<lambda>x. x \<notin> cs_name ` set (ts_columns a)) (map cs_name (ts_columns b))"
proof -
  have tot: "u64_add (ts_total_count a) (ts_total_count b) = Some (n + m)"
    using assms by (simp add: ts_rows_total del: One_nat_def)
  obtain cols where cols: "update_existing b (n + m) (ts_columns a) = Some cols"
    "map cs_name cols = map cs_name (ts_columns a)" "list_all (\<lambda>c. stat_rows (n + m) (cs_stats c)) cols"
    using update_existing_rows [of n "ts_columns a" m b] assms by (auto simp: ts_rows_def ts_compatible_def)
  have names: "cs_name ` set cols = cs_name ` set (ts_columns a)" by (metis cols(2) list.set_map)
  obtain r where r: "add_new_columns (n + m) (ts_columns b) (a\<lparr>ts_columns := cols\<rparr>) = Some r"
    "map cs_name (ts_columns r) = map cs_name (ts_columns a)
        @ filter (\<lambda>x. x \<notin> cs_name ` set (ts_columns a)) (map cs_name (ts_columns b))"
    "list_all (\<lambda>c. stat_rows (n + m) (cs_stats c)) (ts_columns r)"
    using add_new_columns_rows [of m "ts_columns b" "n + m" "a\<lparr>ts_columns := cols\<rparr>"] assms cols names
    by (auto simp: ts_rows_def)
  have "distinct (map cs_name (ts_columns r))" using assms(1,2) unfolding r(2) by (auto simp: ts_rows_def)
  moreover have "n + m = 0" if "ts_columns r = []"
    using that r(2) assms(1,2) by (auto simp: ts_rows_def)
  ultimately have "ts_rows (n + m) r" using r(3) by (simp add: ts_rows_def)
  then show ?thesis using tot cols(1) r by (simp add: ts_update_from_def ts_rows_total)
qed

theorem table_summary_merge_consistent_witness:
  "\<exists>r. ts_update_from
      \<lparr>ts_columns = [\<lparr>cs_name = ''time'', cs_influxdb_type = Influx_Timestamp,
        cs_stats = Stat_I64 \<lparr>sv_min = Some 1, sv_max = Some 5, sv_total_count = 3, sv_null_count = Some 0, sv_distinct_count = None\<rparr>\<rparr>]\<rparr>
      \<lparr>ts_columns = [\<lparr>cs_name = ''host'', cs_influxdb_type = Influx_Tag,
        cs_stats = Stat_String \<lparr>sv_min = Some ''a'', sv_max = Some ''b'', sv_total_count = 2, sv_null_count = Some 0, sv_distinct_count = None\<rparr>\<rparr>]\<rparr>
      = Some r \<and> ts_total_count r = 5 \<and> map cs_name (ts_columns r) = [''time'', ''host'']"
  using table_summary_merge_consistent [of 3
      "\<lparr>ts_columns = [\<lparr>cs_name = ''time'', cs_influxdb_type = Influx_Timestamp,
        cs_stats = Stat_I64 \<lparr>sv_min = Some 1, sv_max = Some 5, sv_total_count = 3, sv_null_count = Some 0, sv_distinct_count = None\<rparr>\<rparr>]\<rparr>" 2
      "\<lparr>ts_columns = [\<lparr>cs_name = ''host'', cs_influxdb_type = Influx_Tag,
        cs_stats = Stat_String \<lparr>sv_min = Some ''a'', sv_max = Some ''b'', sv_total_count = 2, sv_null_count = Some 0, sv_distinct_count = None\<rparr>\<rparr>]\<rparr>"]
  by (auto simp: ts_rows_def ts_compatible_def ts_column_def sv_rows_def)

text \<open>
  Merging summaries in which a column occurs with different types panics (the type mismatch reaches
  the \<^verbatim>\<open>unreachable!()\<close> arms), although the documentation promises that such a column is left alone.
\<close>

theorem table_summary_merge_type_mismatch_panics:
  assumes "c \<in> set (ts_columns a)" "ts_column b (cs_name c) = Some d"
    and "stat_type_name (cs_stats c) \<noteq> stat_type_name (cs_stats d)"
  shows "ts_update_from a b = None"
  using update_existing_mismatch [OF assms] by (simp add: ts_update_from_def split: Option.bind_splits)

theorem table_summary_merge_type_mismatch_panics_witness:
  "ts_update_from
      \<lparr>ts_columns = [\<lparr>cs_name = ''f'', cs_influxdb_type = Influx_Field, cs_stats = Stat_I64 sv_new_empty\<rparr>]\<rparr>
      \<lparr>ts_columns = [\<lparr>cs_name = ''f'', cs_influxdb_type = Influx_Field, cs_stats = Stat_Bool sv_new_empty\<rparr>]\<rparr> = None"
  by (rule table_summary_merge_type_mismatch_panics) (auto simp: ts_column_def stat_type_name_def)

end
