(* ===== verification/Columns.thy ===== *)
theory Columns
  imports Statistics "HOL-Library.Sublist"
begin

text \<open>
  Columns, column sets and sort-key ids of \<^verbatim>\<open>data_types/src/columns.rs\<close>. A column set is a sorted
  vector without duplicates; its in-place union and its intersection iterator are index loops,
  shown equal to a structural merge and to the indexed filter. Sort-key ids keep their order and end
  in the time column.
\<close>

subsection \<open>Column types\<close>

type_synonym ColumnId = int
type_synonym TableId = int
type_synonym NamespaceId = int

datatype ColumnType = CT_I64 | CT_U64 | CT_F64 | CT_Bool | CT_String | CT_Time | CT_Tag

text \<open>The discriminants of the \<^verbatim>\<open>repr(i16)\<close> enum.\<close>

definition column_type_code :: "ColumnType \<Rightarrow> int" where
  "column_type_code self = (case self of CT_I64 \<Rightarrow> 1 | CT_U64 \<Rightarrow> 2 | CT_F64 \<Rightarrow> 3 | CT_Bool \<Rightarrow> 4
     | CT_String \<Rightarrow> 5 | CT_Time \<Rightarrow> 6 | CT_Tag \<Rightarrow> 7)"

definition column_type_as_str :: "ColumnType \<Rightarrow> string" where
  "column_type_as_str self = (case self of CT_I64 \<Rightarrow> ''i64'' | CT_U64 \<Rightarrow> ''u64'' | CT_F64 \<Rightarrow> ''f64''
     | CT_Bool \<Rightarrow> ''bool'' | CT_String \<Rightarrow> ''string'' | CT_Time \<Rightarrow> ''time'' | CT_Tag \<Rightarrow> ''tag'')"

definition column_type_try_from :: "int \<Rightarrow> ColumnType option" where
  "column_type_try_from value =
     (if value = column_type_code CT_I64 then Some CT_I64
      else if value = column_type_code CT_U64 then Some CT_U64
      else if value = column_type_code CT_F64 then Some CT_F64
      else if value = column_type_code CT_Bool then Some CT_Bool
      else if value = column_type_code CT_String then Some CT_String
      else if value = column_type_code CT_Time then Some CT_Time
      else if value = column_type_code CT_Tag then Some CT_Tag
      else None)"

datatype InfluxFieldType = IF_Float | IF_Integer | IF_UInteger | IF_String | IF_Boolean

datatype InfluxColumnType = IC_Tag | IC_Field InfluxFieldType | IC_Timestamp

definition column_type_from_influx :: "InfluxColumnType \<Rightarrow> ColumnType" where
  "column_type_from_influx value = (case value of
     IC_Tag \<Rightarrow> CT_Tag
   | IC_Field IF_Float \<Rightarrow> CT_F64
   | IC_Field IF_Integer \<Rightarrow> CT_I64
   | IC_Field IF_UInteger \<Rightarrow> CT_U64
   | IC_Field IF_String \<Rightarrow> CT_String
   | IC_Field IF_Boolean \<Rightarrow> CT_Bool
   | IC_Timestamp \<Rightarrow> CT_Time)"

definition influx_from_column_type :: "ColumnType \<Rightarrow> InfluxColumnType" where
  "influx_from_column_type value = (case value of
     CT_I64 \<Rightarrow> IC_Field IF_Integer
   | CT_U64 \<Rightarrow> IC_Field IF_UInteger
   | CT_F64 \<Rightarrow> IC_Field IF_Float
   | CT_Bool \<Rightarrow> IC_Field IF_Boolean
   | CT_String \<Rightarrow> IC_Field IF_String
   | CT_Time \<Rightarrow> IC_Timestamp
   | CT_Tag \<Rightarrow> IC_Tag)"

definition column_type_eq_influx :: "ColumnType \<Rightarrow> InfluxColumnType \<Rightarrow> bool" where
  "column_type_eq_influx self got = (case self of
     CT_I64 \<Rightarrow> got = IC_Field IF_Integer
   | CT_U64 \<Rightarrow> got = IC_Field IF_UInteger
   | CT_F64 \<Rightarrow> got = IC_Field IF_Float
   | CT_Bool \<Rightarrow> got = IC_Field IF_Boolean
   | CT_String \<Rightarrow> got = IC_Field IF_String
   | CT_Time \<Rightarrow> got = IC_Timestamp
   | CT_Tag \<Rightarrow> got = IC_Tag)"

text \<open>The type of a line protocol field value (its payload is irrelevant here).\<close>

datatype FieldValueType = FV_I64 | FV_U64 | FV_F64 | FV_String | FV_Boolean

definition column_type_from_field :: "FieldValueType \<Rightarrow> ColumnType" where
  "column_type_from_field field_value = (case field_value of
     FV_I64 \<Rightarrow> CT_I64 | FV_U64 \<Rightarrow> CT_U64 | FV_F64 \<Rightarrow> CT_F64 | FV_String \<Rightarrow> CT_String | FV_Boolean \<Rightarrow> CT_Bool)"

record Column =
  col_id :: ColumnId
  col_table_id :: TableId
  col_name :: string
  col_column_type :: ColumnType

definition column_is_tag :: "Column \<Rightarrow> bool" where
  "column_is_tag self \<longleftrightarrow> col_column_type self = CT_Tag"

definition column_matches_field_type :: "Column \<Rightarrow> FieldValueType \<Rightarrow> bool" where
  "column_matches_field_type self field_value = (case field_value of
     FV_I64 \<Rightarrow> col_column_type self = CT_I64
   | FV_U64 \<Rightarrow> col_column_type self = CT_U64
   | FV_F64 \<Rightarrow> col_column_type self = CT_F64
   | FV_String \<Rightarrow> col_column_type self = CT_String
   | FV_Boolean \<Rightarrow> col_column_type self = CT_Bool)"

record ColumnSchema =
  csch_id :: ColumnId
  csch_column_type :: ColumnType

definition column_schema_is_tag :: "ColumnSchema \<Rightarrow> bool" where
  "column_schema_is_tag self \<longleftrightarrow> csch_column_type self = CT_Tag"

definition column_schema_matches_type :: "ColumnSchema \<Rightarrow> InfluxColumnType \<Rightarrow> bool" where
  "column_schema_matches_type self mb_column_influx_type =
     column_type_eq_influx (csch_column_type self) mb_column_influx_type"

definition column_schema_matches_field_type :: "ColumnSchema \<Rightarrow> FieldValueType \<Rightarrow> bool" where
  "column_schema_matches_field_type self field_value = (case (field_value, csch_column_type self) of
     (FV_I64, CT_I64) \<Rightarrow> True | (FV_U64, CT_U64) \<Rightarrow> True | (FV_F64, CT_F64) \<Rightarrow> True
   | (FV_String, CT_String) \<Rightarrow> True | (FV_Boolean, CT_Bool) \<Rightarrow> True | _ \<Rightarrow> False)"

subsection \<open>Columns by name\<close>

text \<open>A \<^verbatim>\<open>BTreeMap\<close> is the list of its entries in key order.\<close>

fun btree_insert :: "'k::linorder \<Rightarrow> 'v \<Rightarrow> ('k \<times> 'v) list \<Rightarrow> ('k \<times> 'v) list" where
  "btree_insert k v [] = [(k, v)]"
| "btree_insert k v ((k', v') # m) =
     (if k < k' then (k, v) # (k', v') # m
      else if k = k' then (k, v) # m
      else (k', v') # btree_insert k v m)"

definition btree_wf :: "('k::linorder \<times> 'v) list \<Rightarrow> bool" where
  "btree_wf m \<longleftrightarrow> sorted_wrt (<) (map fst m)"

type_synonym ColumnsByName = "(string \<times> ColumnSchema) list"

definition columns_by_name_new :: "Column list \<Rightarrow> ColumnsByName" where
  "columns_by_name_new columns =
     fold (\<lambda>c m. btree_insert (col_name c) \<lparr>csch_id = col_id c, csch_column_type = col_column_type c\<rparr> m) columns []"

definition columns_add_column :: "ColumnsByName \<Rightarrow> string \<Rightarrow> ColumnSchema \<Rightarrow> ColumnsByName option" where
  "columns_add_column self column_name column_schema = do {
     let old = map_of self column_name;
     let m = btree_insert column_name column_schema self;
     assert_that (old = None);
     Some m
   }"

definition columns_contains_column_name :: "ColumnsByName \<Rightarrow> string \<Rightarrow> bool" where
  "columns_contains_column_name self name \<longleftrightarrow> map_of self name \<noteq> None"

definition columns_column_count :: "ColumnsByName \<Rightarrow> nat" where
  "columns_column_count self = length self"

definition columns_names :: "ColumnsByName \<Rightarrow> string list" where
  "columns_names self = map fst self"

definition columns_ids :: "ColumnsByName \<Rightarrow> ColumnId list" where
  "columns_ids self = map (\<lambda>(_, c). csch_id c) self"

definition columns_get :: "ColumnsByName \<Rightarrow> string \<Rightarrow> ColumnSchema option" where
  "columns_get self name = map_of self name"

definition columns_time_column_id :: "ColumnsByName \<Rightarrow> ColumnId option" where
  "columns_time_column_id self = map_option csch_id (columns_get self TIME_COLUMN_NAME)"

text \<open>\<^verbatim>\<open>id_map\<close> collects into a hash map: a later entry with the same id replaces an earlier one.\<close>

definition columns_id_map :: "ColumnsByName \<Rightarrow> ColumnId \<rightharpoonup> string" where
  "columns_id_map self = map_of (rev (map (\<lambda>(name, c). (csch_id c, name)) self))"

subsection \<open>Column sets\<close>

type_synonym ColumnSet = "ColumnId list"

definition column_set_new :: "ColumnId list \<Rightarrow> ColumnSet option" where
  "column_set_new columns = do {
     let columns = sort columns;
     assert_that (list_all (\<lambda>(a, b). a \<noteq> b) (zip columns (tl columns)));
     Some columns
   }"

definition column_set_is_empty :: "ColumnSet \<Rightarrow> bool" where
  "column_set_is_empty self \<longleftrightarrow> self = []"

text \<open>\<^verbatim>\<open>Vec::insert\<close>.\<close>

definition insert_at :: "nat \<Rightarrow> 'a \<Rightarrow> 'a list \<Rightarrow> 'a list" where
  "insert_at i x xs = take i xs @ x # drop i xs"

text \<open>The merge loop of \<^verbatim>\<open>union\<close>, on the vector being updated and the two indices.\<close>

function column_set_union_loop :: "ColumnSet \<Rightarrow> ColumnSet \<Rightarrow> nat \<Rightarrow> nat \<Rightarrow> ColumnSet" where
  "column_set_union_loop self other insert_idx src_idx =
     (if insert_idx < length self \<and> src_idx < length other
      then
        (if self ! insert_idx < other ! src_idx
         then column_set_union_loop self other (insert_idx + 1) src_idx
         else if self ! insert_idx = other ! src_idx
         then column_set_union_loop self other (insert_idx + 1) (src_idx + 1)
         else column_set_union_loop (insert_at insert_idx (other ! src_idx) self) other (insert_idx + 1) (src_idx + 1))
      else self @ drop src_idx other)"
  by pat_completeness auto
termination
  by (relation "measure (\<lambda>(self, other, i, j). (length self - i) + (length other - j))")
    (auto simp: insert_at_def)

declare column_set_union_loop.simps [simp del]

definition column_set_union :: "ColumnSet \<Rightarrow> ColumnSet \<Rightarrow> ColumnSet" where
  "column_set_union self other = column_set_union_loop self other 0 0"

text \<open>All items of the iterator returned by \<^verbatim>\<open>intersect\<close>, from the two indices on.\<close>

function column_set_intersect_loop :: "ColumnSet \<Rightarrow> ColumnSet \<Rightarrow> nat \<Rightarrow> nat \<Rightarrow> (nat \<times> ColumnId) list" where
  "column_set_intersect_loop self other left_idx right_idx =
     (case nth_opt self left_idx of
        None \<Rightarrow> []
      | Some s \<Rightarrow>
          (case nth_opt other right_idx of
             None \<Rightarrow> []
           | Some o' \<Rightarrow>
               if s < o' then column_set_intersect_loop self other (left_idx + 1) right_idx
               else if s > o' then column_set_intersect_loop self other left_idx (right_idx + 1)
               else (left_idx, s) # column_set_intersect_loop self other (left_idx + 1) (right_idx + 1)))"
  by pat_completeness auto
termination
  by (relation "measure (\<lambda>(self, other, i, j). (length self - i) + (length other - j))")
    (auto simp: nth_opt_def split: if_splits)

declare column_set_intersect_loop.simps [simp del]

definition column_set_intersect :: "ColumnSet \<Rightarrow> ColumnSet \<Rightarrow> (nat \<times> ColumnId) list" where
  "column_set_intersect self other = column_set_intersect_loop self other 0 0"

subsection \<open>Sort-key ids\<close>

type_synonym SortKeyIds = "ColumnId list"

text \<open>The loop that panics on the first repeated id; \<^verbatim>\<open>new\<close> runs it in builds with debug assertions.\<close>

fun check_for_duplicates :: "ColumnId list \<Rightarrow> ColumnId list \<Rightarrow> unit option" where
  "check_for_duplicates column_ids [] = Some ()"
| "check_for_duplicates column_ids (c # cs) =
     (if c \<in> set column_ids then None else check_for_duplicates (c # column_ids) cs)"

definition sort_key_ids_new :: "ColumnId list \<Rightarrow> SortKeyIds option" where
  "sort_key_ids_new columns = do {
     check_for_duplicates [] columns;
     Some columns
   }"

text \<open>\<^verbatim>\<open>None\<close> of the result type is no update; the outer option is the panic.\<close>

definition maybe_append :: "SortKeyIds \<Rightarrow> SortKeyIds \<Rightarrow> ColumnId \<Rightarrow> SortKeyIds option option" where
  "maybe_append self other time_column_id =
     (let existing_columns_without_time = filter (\<lambda>c. c \<noteq> time_column_id) self;
          new_columns = filter (\<lambda>c. c \<notin> set self) other
      in if new_columns = [] then Some None
         else map_option Some
           (sort_key_ids_new (existing_columns_without_time @ new_columns @ [time_column_id])))"

definition is_monotonic_update :: "SortKeyIds \<Rightarrow> SortKeyIds \<Rightarrow> bool option" where
  "is_monotonic_update self other = do {
     assert_that (self \<noteq> [] \<longrightarrow> other \<noteq> [] \<and> last self = last other);
     Some (length self \<le> length other
       \<and> list_all (\<lambda>(a, b). a = b) (zip (take (length self - 1) self) other))
   }"

definition ids_for_names :: "ColumnsByName \<Rightarrow> string list \<Rightarrow> SortKeyIds option" where
  "ids_for_names self names = do {
     ids \<leftarrow> those (map (\<lambda>name. map_option csch_id (columns_get self name)) names);
     sort_key_ids_new ids
   }"

subsection \<open>Lemmas on maps and sorted vectors\<close>

lemma set_btree_insert_keys [simp]: "fst ` set (btree_insert k v m) = insert k (fst ` set m)"
  by (induction k v m rule: btree_insert.induct) auto

lemma map_of_btree_insert [simp]:
  "btree_wf m \<Longrightarrow> map_of (btree_insert k v m) = (map_of m)(k \<mapsto> v)"
  by (induction k v m rule: btree_insert.induct) (auto simp: btree_wf_def fun_eq_iff map_of_eq_None_iff)

lemma btree_wf_insert [simp]: "btree_wf m \<Longrightarrow> btree_wf (btree_insert k v m)"
proof (induction k v m rule: btree_insert.induct)
  case (2 k v k' v' m)
  then show ?case using set_btree_insert_keys [of k v m] by (auto simp: btree_wf_def)
qed (simp add: btree_wf_def)

lemma btree_wf_Nil [simp]: "btree_wf []"
  by (simp add: btree_wf_def)

lemma columns_by_name_new_wf: "btree_wf (columns_by_name_new cols)"
proof -
  have "btree_wf m \<Longrightarrow> btree_wf (fold (\<lambda>c m. btree_insert (col_name c)
      \<lparr>csch_id = col_id c, csch_column_type = col_column_type c\<rparr> m) cols m)" for m
    by (induction cols arbitrary: m) simp_all
  then show ?thesis by (simp add: columns_by_name_new_def)
qed

text \<open>A strictly sorted vector, the invariant of a column set.\<close>

definition column_set_wf :: "ColumnSet \<Rightarrow> bool" where
  "column_set_wf xs \<longleftrightarrow> sorted_wrt (<) xs"

lemma column_set_new_Some:
  assumes "distinct columns"
  shows "column_set_new columns = Some (sort columns)" "column_set_wf (sort columns)"
proof -
  have st: "sorted_wrt (<) (sort columns)"
    using assms by (simp add: strict_sorted_iff)
  then show "column_set_wf (sort columns)" by (simp add: column_set_wf_def)
  have "a \<noteq> b" if "(a, b) \<in> set (zip xs (tl xs))" "sorted_wrt (<) xs" for a b :: int and xs
    using that by (induction xs rule: induct_list012) auto
  then have "list_all (\<lambda>(a, b). a \<noteq> b) (zip (sort columns) (tl (sort columns)))"
    using st by (auto simp: list_all_iff)
  then show "column_set_new columns = Some (sort columns)" by (simp add: column_set_new_def)
qed

lemma column_set_new_None:
  assumes "\<not> distinct columns"
  shows "column_set_new columns = None"
proof -
  have "\<exists>a. (a, a) \<in> set (zip xs (tl xs))" if "sorted xs" "\<not> distinct xs" for xs :: "int list"
    using that by (induction xs rule: induct_list012) force+
  from this [of "sort columns"] assms have "\<not> list_all (\<lambda>(a, b). a \<noteq> b) (zip (sort columns) (tl (sort columns)))"
    by (auto simp: list_all_iff)
  then show ?thesis by (simp add: column_set_new_def)
qed

text \<open>The reference for the union: a structural merge of sorted lists.\<close>

fun merge_sets :: "int list \<Rightarrow> int list \<Rightarrow> int list" where
  "merge_sets [] ys = ys"
| "merge_sets xs [] = xs"
| "merge_sets (x # xs) (y # ys) =
     (if x < y then x # merge_sets xs (y # ys)
      else if x = y then x # merge_sets xs ys
      else y # merge_sets (x # xs) ys)"

lemma set_merge_sets [simp]: "set (merge_sets xs ys) = set xs \<union> set ys"
  by (induction xs ys rule: merge_sets.induct) auto

lemma merge_sets_wf: "column_set_wf xs \<Longrightarrow> column_set_wf ys \<Longrightarrow> column_set_wf (merge_sets xs ys)"
  unfolding column_set_wf_def by (induction xs ys rule: merge_sets.induct) auto

lemma merge_sets_Nil2 [simp]: "merge_sets xs [] = xs"
  by (cases xs) simp_all

lemma column_set_union_loop_merge:
  "column_set_union_loop (pre @ xs) other (length pre) j = pre @ merge_sets xs (drop j other)"
proof (induction "length xs + (length other - j)" arbitrary: pre xs j rule: less_induct)
  case less
  show ?case
  proof (cases "xs = [] \<or> length other \<le> j")
    case True
    then show ?thesis by (subst column_set_union_loop.simps) auto
  next
    case False
    then obtain x xs' where xs: "xs = x # xs'" by (cases xs) auto
    from False have j: "j < length other" by simp
    then have d: "drop j other = other ! j # drop (Suc j) other" by (simp add: Cons_nth_drop_Suc)
    have step: "column_set_union_loop (pre @ xs) other (length pre) j =
      (if x < other ! j then column_set_union_loop ((pre @ [x]) @ xs') other (length (pre @ [x])) j
       else if x = other ! j then column_set_union_loop ((pre @ [x]) @ xs') other (length (pre @ [x])) (Suc j)
       else column_set_union_loop ((pre @ [other ! j]) @ xs) other (length (pre @ [other ! j])) (Suc j))"
      using j xs by (subst column_set_union_loop.simps) (simp add: insert_at_def)
    have IH: "column_set_union_loop ((pre @ [x]) @ xs') other (length (pre @ [x])) j = (pre @ [x]) @ merge_sets xs' (drop j other)"
      "column_set_union_loop ((pre @ [x]) @ xs') other (length (pre @ [x])) (Suc j) = (pre @ [x]) @ merge_sets xs' (drop (Suc j) other)"
      "column_set_union_loop ((pre @ [other ! j]) @ xs) other (length (pre @ [other ! j])) (Suc j)
        = (pre @ [other ! j]) @ merge_sets xs (drop (Suc j) other)"
      by (rule less; use j xs in \<open>simp; linarith\<close>)+
    show ?thesis unfolding step IH d using xs by simp
  qed
qed

text \<open>The reference for the intersection: the positions whose element is in the other set.\<close>

lemma column_set_intersect_loop_filter:
  assumes "column_set_wf self" "column_set_wf other"
    and "\<And>i'. i \<le> i' \<Longrightarrow> i' < length self \<Longrightarrow> self ! i' \<notin> set (take j other)"
  shows "column_set_intersect_loop self other i j
      = map (\<lambda>i. (i, self ! i)) (filter (\<lambda>i. self ! i \<in> set other) [i..<length self])"
  using assms
proof (induction self other i j rule: column_set_intersect_loop.induct)
  case (1 self other i j)
  have rest: "x \<in> set other \<longleftrightarrow> x \<in> set (take j other) \<or> x \<in> set (drop j other)" for x
    by (metis Un_iff append_take_drop_id set_append)
  show ?case
  proof (cases "i < length self \<and> j < length other")
    case False
    then have "self ! i' \<notin> set other" if "i \<le> i'" "i' < length self" for i'
      using 1(6) [OF that] that by simp
    then have "filter (\<lambda>i. self ! i \<in> set other) [i..<length self] = []"
      by (simp add: filter_empty_conv)
    then show ?thesis using False by (subst column_set_intersect_loop.simps) (auto simp: nth_opt_def)
  next
    case True
    then have d: "drop j other = other ! j # drop (Suc j) other" and t: "take (Suc j) other = take j other @ [other ! j]"
      by (simp_all add: Cons_nth_drop_Suc take_Suc_conv_app_nth)
    have os: "other ! j < y" if "y \<in> set (drop (Suc j) other)" for y
      using 1(5) that True by (auto simp: column_set_wf_def sorted_wrt_iff_nth_less in_set_conv_nth)
    have ss: "self ! i < self ! i'" if "i < i'" "i' < length self" for i'
      using 1(4) that by (simp add: column_set_wf_def sorted_wrt_iff_nth_less)
    have u: "[i..<length self] = i # [Suc i..<length self]" using True by (simp add: upt_conv_Cons)
    have ni: "self ! i \<notin> set (take j other)" using 1(6) [of i] True by simp
    consider "self ! i < other ! j" | "self ! i > other ! j" | "self ! i = other ! j" by linarith
    then show ?thesis
    proof cases
      case 1
      then have "self ! i \<notin> set other" using ni os by (force simp: rest d)
      then show ?thesis
        using "1.IH"(1) [of "self ! i" "other ! j"] "1.prems" 1 True u
        by (subst column_set_intersect_loop.simps) simp
    next
      case 2
      then have "self ! i' \<noteq> other ! j" if "i \<le> i'" "i' < length self" for i'
        using ss [of i'] that by (cases "i = i'") auto
      then show ?thesis
        using "1.IH"(2) [of "self ! i" "other ! j"] "1.prems" 2 True t
        by (subst column_set_intersect_loop.simps) auto
    next
      case 3
      then have "self ! i' \<noteq> other ! j" if "Suc i \<le> i'" "i' < length self" for i'
        using ss [of i'] that by simp
      moreover have "self ! i \<in> set other" using 3 True by simp
      ultimately show ?thesis
        using "1.IH"(3) [of "self ! i" "other ! j"] "1.prems" 3 True t u
        by (subst column_set_intersect_loop.simps) auto
    qed
  qed
qed

subsection \<open>Lemmas on sort keys\<close>

lemma check_for_duplicates_iff:
  "check_for_duplicates seen cs = (if distinct cs \<and> set cs \<inter> set seen = {} then Some () else None)"
  by (induction cs arbitrary: seen) auto

lemma sort_key_ids_new_iff: "sort_key_ids_new cs = (if distinct cs then Some cs else None)"
  by (simp add: sort_key_ids_new_def check_for_duplicates_iff)

lemma is_monotonic_update_snoc:
  "is_monotonic_update (xs @ [t]) (ys @ [t]) = Some (prefix xs ys)"
proof -
  have "list_all (\<lambda>(a, b). a = b) (zip xs (ys @ [t])) \<longleftrightarrow> prefix xs ys" if "length xs \<le> length ys"
    using that by (induction xs ys rule: list_induct2') auto
  then show ?thesis
    using prefix_length_le [of xs ys] by (auto simp: is_monotonic_update_def)
qed

subsection \<open>Properties\<close>

text \<open>
  C20. Column sets: the constructor panics exactly on duplicates and otherwise gives the strictly sorted
  vector. On such vectors the in-place union loop computes the structural merge, so the result is again
  strictly sorted and holds exactly the ids of both sets; the intersection iterator yields exactly the
  positions (in order, with their ids) whose id is in the other set.
\<close>

theorem column_set_operations_exact:
  assumes "column_set_new xs = Some a" "column_set_new ys = Some b"
  shows "distinct xs \<and> distinct ys \<and> set a = set xs \<and> column_set_wf a
    \<and> column_set_union a b = merge_sets a b
    \<and> column_set_wf (column_set_union a b) \<and> set (column_set_union a b) = set xs \<union> set ys
    \<and> column_set_intersect a b = map (\<lambda>i. (i, a ! i)) (filter (\<lambda>i. a ! i \<in> set b) [0..<length a])"
proof -
  have d: "distinct xs" "distinct ys" using assms column_set_new_None by force+
  then have ab: "a = sort xs" "b = sort ys" "column_set_wf a" "column_set_wf b"
    using assms column_set_new_Some by auto
  have "column_set_union a b = merge_sets a b"
    using column_set_union_loop_merge [of "[]" a b 0] by (simp add: column_set_union_def)
  moreover have "column_set_intersect a b = map (\<lambda>i. (i, a ! i)) (filter (\<lambda>i. a ! i \<in> set b) [0..<length a])"
    unfolding column_set_intersect_def by (rule column_set_intersect_loop_filter [OF ab(3,4)]) simp
  ultimately show ?thesis using d ab by (simp add: merge_sets_wf)
qed

theorem column_set_operations_exact_witness:
  "column_set_new [4, 2, 7, 1, 6] = Some [1, 2, 4, 6, 7] \<and> column_set_new [6, 4, 2] = Some [2, 4, 6]
    \<and> column_set_intersect [1, 2, 4, 6, 7] [2, 4, 6] = [(1, 2), (2, 4), (3, 6)]
    \<and> set (column_set_union [1, 2, 4, 6, 7] [2, 4, 6]) = {1, 2, 4, 6, 7}"
proof -
  have a: "column_set_new [4, 2, 7, 1, 6] = Some [1, 2, 4, 6, 7]" and b: "column_set_new [6, 4, 2] = Some [2, 4, 6]"
    by (simp_all add: column_set_new_def)
  from column_set_operations_exact [OF a b] a b show ?thesis by (auto simp: upt_rec)
qed

text \<open>
  Extending a sort key: for duplicate-free keys with the time column last (or an empty catalog key and no
  time column among the new ids), \<^verbatim>\<open>maybe_append\<close> reports no update exactly when nothing is new, and
  otherwise returns a duplicate-free key that is the old key without time, then the new ids in their order,
  then time; it is accepted by \<^verbatim>\<open>is_monotonic_update\<close>.
\<close>

theorem maybe_append_extends:
  assumes "distinct self" "distinct other" "self = [] \<or> last self = time" "time \<in> set self \<or> time \<notin> set other"
  shows "if set other \<subseteq> set self then maybe_append self other time = Some None
    else \<exists>r. maybe_append self other time = Some (Some r) \<and> distinct r
      \<and> r = filter (\<lambda>c. c \<noteq> time) self @ filter (\<lambda>c. c \<notin> set self) other @ [time]
      \<and> set r = set self \<union> set other \<union> {time} \<and> is_monotonic_update self r = Some True"
proof (cases "set other \<subseteq> set self")
  case True
  then show ?thesis by (simp add: maybe_append_def filter_empty_conv subset_iff)
next
  case False
  let ?old = "filter (\<lambda>c. c \<noteq> time) self" and ?new = "filter (\<lambda>c. c \<notin> set self) other"
  have ne: "?new \<noteq> []" using False by (auto simp: filter_empty_conv)
  have d: "distinct (?old @ ?new @ [time])" using assms(1,2,4) by auto
  have "is_monotonic_update self (?old @ ?new @ [time]) = Some True"
  proof (cases "self = []")
    case True
    then show ?thesis by (simp add: is_monotonic_update_def)
  next
    case nonempty: False
    then obtain xs where self: "self = xs @ [time]" using assms(3) by (metis append_butlast_last_id)
    then have "?old = xs" using assms(1) by (auto simp: filter_id_conv)
    then show ?thesis using self is_monotonic_update_snoc [of xs time "xs @ ?new"] by simp
  qed
  with False ne d show ?thesis by (auto simp: maybe_append_def sort_key_ids_new_iff)
qed

theorem maybe_append_extends_witness:
  "maybe_append [3, 1, 9] [1, 4, 9] 9 = Some (Some [3, 1, 4, 9]) \<and> is_monotonic_update [3, 1, 9] [3, 1, 4, 9] = Some True"
  using maybe_append_extends [of "[3, 1, 9]" "[1, 4, 9]" 9] by auto

text \<open>
  When the catalog's key is still empty and the new ids contain the time column, \<^verbatim>\<open>maybe_append\<close> adds
  the time column twice, which the duplicate check turns into a panic.
\<close>

theorem maybe_append_empty_with_time_panics:
  assumes "time \<in> set other"
  shows "maybe_append [] other time = None"
  using assms by (auto simp: maybe_append_def sort_key_ids_new_iff filter_empty_conv)

theorem maybe_append_empty_with_time_panics_witness: "maybe_append [] [1, 2, 9] 9 = None"
  by (rule maybe_append_empty_with_time_panics) simp

text \<open>
  Column type conversions are inverse to each other: the database code of a type is read back as that
  type and every other code is an error; the conversion from and to the schema's column type are
  inverse bijections and agree with the equality test between the two types.
\<close>

theorem column_type_conversions_roundtrip:
  "column_type_try_from (column_type_code t) = Some t
    \<and> (column_type_try_from v = None \<longleftrightarrow> v < 1 \<or> v > 7)
    \<and> column_type_from_influx (influx_from_column_type t) = t
    \<and> influx_from_column_type (column_type_from_influx i) = i
    \<and> (column_type_eq_influx t i \<longleftrightarrow> t = column_type_from_influx i)"
proof -
  have f: "influx_from_column_type (column_type_from_influx i) = i"
    by (auto simp: influx_from_column_type_def column_type_from_influx_def
      split: InfluxColumnType.split InfluxFieldType.split)
  have "column_type_eq_influx t i \<longleftrightarrow> i = influx_from_column_type t"
    by (cases t) (simp_all add: column_type_eq_influx_def influx_from_column_type_def)
  moreover have "column_type_from_influx (influx_from_column_type t) = t" for t
    by (cases t) (simp_all add: influx_from_column_type_def column_type_from_influx_def)
  moreover have "column_type_try_from (column_type_code t) = Some t"
    by (cases t) (simp_all add: column_type_try_from_def column_type_code_def)
  moreover have "column_type_try_from v = None \<longleftrightarrow> v < 1 \<or> v > 7"
    by (auto simp: column_type_try_from_def column_type_code_def)
  ultimately show ?thesis using f by metis
qed

end
