(* ===== verification/Sort_Key.thy ===== *)
theory Sort_Key
  imports Columns "HOL-Library.Product_Lexorder" "HOL-Library.AList"
begin

text \<open>
  Sort keys of \<^verbatim>\<open>schema/src/sort.rs\<close>: an insertion-ordered map from column names to sort options.
  The map type is \<^verbatim>\<open>indexmap::IndexMap\<close>, of which the model uses the sequence of entries; its
  \<^verbatim>\<open>insert\<close> is a parameter \<open>ins\<close> with the documented behaviour \<open>index_map_insert\<close>, and the
  default of arrow's \<^verbatim>\<open>SortOptions\<close> is a parameter \<open>dflt\<close>.
\<close>

record SortOptions =
  descending :: bool
  nulls_first :: bool

type_synonym SortKey = "(string \<times> SortOptions) list"
type_synonym index_insert = "string \<Rightarrow> SortOptions \<Rightarrow> SortKey \<Rightarrow> SortKey"

text \<open>Inserting an existing key keeps its position and replaces the value; a new key goes last.\<close>

definition index_map_insert :: "index_insert \<Rightarrow> bool" where
  "index_map_insert ins \<longleftrightarrow> (\<forall>k v m. distinct (map fst m) \<longrightarrow> ins k v m =
     (if k \<in> fst ` set m then map (\<lambda>(k', v'). if k' = k then (k, v) else (k', v')) m else m @ [(k, v)]))"

definition with_col_sort_opts :: "index_insert \<Rightarrow> SortKey \<Rightarrow> string \<Rightarrow> SortOptions \<Rightarrow> SortKey" where
  "with_col_sort_opts ins self col options = ins col options self"

definition with_col :: "index_insert \<Rightarrow> SortOptions \<Rightarrow> SortKey \<Rightarrow> string \<Rightarrow> SortKey" where
  "with_col ins dflt self column = with_col_sort_opts ins self column dflt"

definition with_col_opts :: "index_insert \<Rightarrow> SortKey \<Rightarrow> string \<Rightarrow> bool \<Rightarrow> bool \<Rightarrow> SortKey" where
  "with_col_opts ins self col desc nf =
     with_col_sort_opts ins self col \<lparr>descending = desc, nulls_first = nf\<rparr>"

definition from_columns :: "index_insert \<Rightarrow> SortOptions \<Rightarrow> string list \<Rightarrow> SortKey" where
  "from_columns ins dflt columns = foldl (with_col ins dflt) [] columns"

definition to_columns :: "SortKey \<Rightarrow> string list" where
  "to_columns self = map fst self"

definition sort_key_get_index :: "SortKey \<Rightarrow> nat \<Rightarrow> (string \<times> SortOptions) option" where
  "sort_key_get_index self idx = nth_opt self idx"

text \<open>\<^verbatim>\<open>get_full\<close>: position and value of a key.\<close>

fun get_full :: "string \<Rightarrow> SortKey \<Rightarrow> (nat \<times> SortOptions) option" where
  "get_full c [] = None"
| "get_full c ((k, v) # m) = (if k = c then Some (0, v) else map_option (\<lambda>(i, v). (Suc i, v)) (get_full c m))"

definition sort_key_find_index :: "SortKey \<Rightarrow> string \<Rightarrow> SortOptions \<Rightarrow> nat option" where
  "sort_key_find_index self column sort_options = do {
     (sort_ordinal, options) \<leftarrow> get_full column self;
     if options = sort_options then Some sort_ordinal else None
   }"

definition sort_key_contains :: "SortKey \<Rightarrow> string \<Rightarrow> bool" where
  "sort_key_contains self column \<longleftrightarrow> column \<in> fst ` set self"

definition sort_key_filter_to :: "index_insert \<Rightarrow> SortOptions \<Rightarrow> SortKey \<Rightarrow> string list \<Rightarrow> SortKey option" where
  "sort_key_filter_to ins dflt self primary_key =
     (let missing_from_catalog_key = filter (\<lambda>col. \<not> sort_key_contains self col) primary_key
      in if missing_from_catalog_key \<noteq> [] then None
         else Some (from_columns ins dflt (filter (\<lambda>col. col \<in> set primary_key) (map fst self))))"

text \<open>The loop of \<^verbatim>\<open>try_merge_key\<close> over the short key.\<close>

fun merge_key_loop :: "SortKey \<Rightarrow> nat option \<Rightarrow> SortKey \<Rightarrow> SortKey option" where
  "merge_key_loop long_key prev_long_idx [] = Some long_key"
| "merge_key_loop long_key prev_long_idx ((col, sort_options) # rest) =
     (case sort_key_find_index long_key col sort_options of
        Some long_idx \<Rightarrow>
          (case prev_long_idx of
             None \<Rightarrow> merge_key_loop long_key (Some long_idx) rest
           | Some prev_idx \<Rightarrow>
               if long_idx > prev_idx then merge_key_loop long_key (Some long_idx) rest else None)
      | None \<Rightarrow> None)"

definition try_merge_key :: "SortKey \<Rightarrow> SortKey \<Rightarrow> SortKey option option" where
  "try_merge_key key1 key2 = do {
     assert_that (\<not> (key1 = [] \<or> key2 = []));
     let (long_key, short_key) = (if length key1 > length key2 then (key1, key2) else (key2, key1));
     Some (merge_key_loop long_key None short_key)
   }"

definition sort_key_fmt :: "SortKey \<Rightarrow> string" where
  "sort_key_fmt self = concat (map (\<lambda>(i, name, options).
     name @ (if descending options then '' DESC'' else [])
          @ (if \<not> nulls_first options then '' NULLS LAST'' else [])
          @ '','' @ (if i < length self - 1 then '' '' else []))
     (enumerate 0 self))"

text \<open>The hash map of cardinalities is a list of its entries in iteration order.\<close>

definition sort_key_from_cardinalities ::
  "index_insert \<Rightarrow> SortOptions \<Rightarrow> (string \<times> nat) list \<Rightarrow> SortKey" where
  "sort_key_from_cardinalities ins dflt cardinalities =
     (let cardinalities = sort_key (\<lambda>x. (snd x, fst x)) cardinalities;
          builder = foldl (\<lambda>b (col, _). with_col ins dflt b col) [] cardinalities
      in with_col ins dflt builder TIME_COLUMN_NAME)"

definition adjust_sort_key_columns ::
  "index_insert \<Rightarrow> SortOptions \<Rightarrow> SortKey \<Rightarrow> string list \<Rightarrow> SortKey \<times> SortKey option" where
  "adjust_sort_key_columns ins dflt catalog_sort_key primary_key =
     (let existing_columns_without_time = filter (\<lambda>col. TIME_COLUMN_NAME \<noteq> col) (map fst catalog_sort_key);
          new_columns = filter (\<lambda>col. \<not> sort_key_contains catalog_sort_key col) primary_key;
          metadata_sort_key = from_columns ins dflt
            (filter (\<lambda>col. col \<in> set primary_key) existing_columns_without_time @ new_columns @ [TIME_COLUMN_NAME]);
          catalog_update = (if new_columns = [] then None
            else Some (from_columns ins dflt (existing_columns_without_time @ new_columns @ [TIME_COLUMN_NAME])))
      in (metadata_sort_key, catalog_update))"

subsection \<open>Lemmas\<close>

lemma index_map_insert_new:
  "index_map_insert ins \<Longrightarrow> distinct (map fst m) \<Longrightarrow> k \<notin> fst ` set m \<Longrightarrow> ins k v m = m @ [(k, v)]"
  by (simp add: index_map_insert_def)

text \<open>The library's association-list update has the documented behaviour.\<close>

lemma index_map_insert_update: "index_map_insert AList.update"
proof -
  have "AList.update k v m = (if k \<in> fst ` set m then map (\<lambda>(k', v'). if k' = k then (k, v) else (k', v')) m else m @ [(k, v)])"
    if "distinct (map fst m)" for k :: string and v :: SortOptions and m
    using that
  proof (induction m)
    case (Cons x m)
    obtain a b where x: "x = (a, b)" by (cases x)
    show ?case
    proof (cases "a = k")
      case True
      then have "map (\<lambda>(k', v'). if k' = k then (k, v) else (k', v')) m = m"
        using Cons.prems x by (intro map_idI) (auto simp: image_iff)
      then show ?thesis using True x by simp
    next
      case False
      then show ?thesis using Cons x by auto
    qed
  qed simp
  then show ?thesis by (simp add: index_map_insert_def)
qed

lemma from_columns_distinct:
  assumes "index_map_insert ins" "distinct cs"
  shows "from_columns ins dflt cs = map (\<lambda>c. (c, dflt)) cs"
proof -
  have "foldl (with_col ins dflt) m cs = m @ map (\<lambda>c. (c, dflt)) cs" if "distinct cs" "distinct (map fst m)" "fst ` set m \<inter> set cs = {}" for m
    using that
  proof (induction cs arbitrary: m)
    case (Cons c cs)
    then have "ins c dflt m = m @ [(c, dflt)]" using index_map_insert_new [OF assms(1)] by auto
    with Cons show ?case by (auto simp: with_col_def with_col_sort_opts_def)
  qed simp
  then show ?thesis using assms(2) by (simp add: from_columns_def)
qed

lemma get_full_Some:
  "get_full c m = Some (i, v) \<Longrightarrow> i < length m \<and> m ! i = (c, v)"
  by (induction m arbitrary: i rule: get_full.induct) (auto split: if_splits)

lemma get_full_nth:
  assumes "distinct (map fst m)" "i < length m"
  shows "get_full (fst (m ! i)) m = Some (i, snd (m ! i))"
  using assms
proof (induction m arbitrary: i)
  case (Cons x m)
  show ?case
  proof (cases i)
    case (Suc j)
    then have "fst (m ! j) \<in> fst ` set m" using Cons.prems by simp
    then show ?thesis using Cons Suc by (cases x) auto
  qed (cases x, simp)
qed simp

lemma find_index_iff:
  assumes "distinct (map fst m)"
  shows "sort_key_find_index m c v = Some i \<longleftrightarrow> i < length m \<and> m ! i = (c, v)"
proof
  assume "sort_key_find_index m c v = Some i"
  then show "i < length m \<and> m ! i = (c, v)"
    using get_full_Some by (auto simp: sort_key_find_index_def split: if_splits Option.bind_splits)
next
  assume "i < length m \<and> m ! i = (c, v)"
  then show "sort_key_find_index m c v = Some i"
    using get_full_nth [OF assms, of i] by (simp add: sort_key_find_index_def)
qed

text \<open>A subsequence starts with an occurrence of its head, and goes on after it.\<close>

lemma subseq_Cons_nth:
  "subseq (x # xs) ys \<longleftrightarrow> (\<exists>i < length ys. ys ! i = x \<and> subseq xs (drop (Suc i) ys))"
proof (induction ys)
  case (Cons y ys)
  show ?case
  proof
    assume "subseq (x # xs) (y # ys)"
    then consider "x = y" "subseq xs ys" | "subseq (x # xs) ys" by (auto split: if_splits)
    then show "\<exists>i < length (y # ys). (y # ys) ! i = x \<and> subseq xs (drop (Suc i) (y # ys))"
    proof cases
      case 2
      then obtain i where "i < length ys" "ys ! i = x" "subseq xs (drop (Suc i) ys)" using Cons by blast
      then show ?thesis by (intro exI [of _ "Suc i"]) simp
    qed (rule exI [of _ 0], simp)
  next
    assume "\<exists>i < length (y # ys). (y # ys) ! i = x \<and> subseq xs (drop (Suc i) (y # ys))"
    then obtain i where i: "i < length (y # ys)" "(y # ys) ! i = x" "subseq xs (drop (Suc i) (y # ys))" by blast
    show "subseq (x # xs) (y # ys)"
    proof (cases i)
      case (Suc j)
      then have "subseq (x # xs) ys" using i Cons by auto
      then show ?thesis by (rule list_emb_Cons)
    qed (use i in simp)
  qed
qed simp

lemma merge_key_loop_subseq:
  assumes "distinct (map fst long)"
  shows "merge_key_loop long prev short =
    (if subseq short (drop (case prev of None \<Rightarrow> 0 | Some p \<Rightarrow> Suc p) long) then Some long else None)"
proof (induction short arbitrary: prev)
  case (Cons x short)
  obtain c v where x: "x = (c, v)" by (cases x)
  obtain k where k: "(case prev of None \<Rightarrow> 0 | Some p \<Rightarrow> Suc p) = k" by blast
  show ?case
  proof (cases "sort_key_find_index long c v")
    case None
    then have "\<not> subseq (x # short) (drop k long)"
      using find_index_iff [OF assms, of c v] by (auto simp: subseq_Cons_nth x less_diff_conv)
    then show ?thesis using None x k by simp
  next
    case (Some i)
    then have i: "i < length long" "long ! i = (c, v)" using find_index_iff [OF assms] by auto
    have uniq: "j = i" if "j < length long" "long ! j = (c, v)" for j
      using find_index_iff [OF assms, of c v j] Some that by simp
    have "subseq (x # short) (drop k long) \<longleftrightarrow> k \<le> i \<and> subseq short (drop (Suc i) long)"
    proof
      assume "subseq (x # short) (drop k long)"
      then obtain j where "j < length long - k" "long ! (k + j) = (c, v)" "subseq short (drop (Suc (k + j)) long)"
        by (auto simp: subseq_Cons_nth x add.commute)
      then show "k \<le> i \<and> subseq short (drop (Suc i) long)" using uniq [of "k + j"] by (simp add: less_diff_conv add.commute)
    next
      assume "k \<le> i \<and> subseq short (drop (Suc i) long)"
      then show "subseq (x # short) (drop k long)"
        using i unfolding subseq_Cons_nth x by (intro exI [of _ "i - k"]) auto
    qed
    then show ?thesis using Some x k Cons [of "Some i"] by (auto split: option.splits)
  qed
qed simp

subsection \<open>Properties\<close>

text \<open>
  \<^verbatim>\<open>try_merge_key\<close> on two non-empty sort keys returns the longer key (the second on a tie) exactly when
  the shorter one is a subsequence of it, options included, and nothing otherwise.
\<close>

theorem try_merge_key_is_subsequence:
  assumes "key1 \<noteq> []" "key2 \<noteq> []" "distinct (map fst key1)" "distinct (map fst key2)"
  shows "try_merge_key key1 key2 = Some (
    if length key1 > length key2 then (if subseq key2 key1 then Some key1 else None)
    else (if subseq key1 key2 then Some key2 else None))"
  using assms by (simp add: try_merge_key_def merge_key_loop_subseq)

theorem try_merge_key_is_subsequence_witness:
  "let k = \<lambda>c. (c, \<lparr>descending = False, nulls_first = True\<rparr>)
   in try_merge_key [k ''a'', k ''b'', k ''time''] [k ''b'', k ''time''] = Some (Some [k ''a'', k ''b'', k ''time''])
     \<and> try_merge_key [k ''a'', k ''b''] [k ''b'', k ''a''] = Some None"
  using try_merge_key_is_subsequence [of
      "[(''a'', \<lparr>descending = False, nulls_first = True\<rparr>), (''b'', \<lparr>descending = False, nulls_first = True\<rparr>),
        (''time'', \<lparr>descending = False, nulls_first = True\<rparr>)]"
      "[(''b'', \<lparr>descending = False, nulls_first = True\<rparr>), (''time'', \<lparr>descending = False, nulls_first = True\<rparr>)]"]
    try_merge_key_is_subsequence [of
      "[(''a'', \<lparr>descending = False, nulls_first = True\<rparr>), (''b'', \<lparr>descending = False, nulls_first = True\<rparr>)]"
      "[(''b'', \<lparr>descending = False, nulls_first = True\<rparr>), (''a'', \<lparr>descending = False, nulls_first = True\<rparr>)]"]
  by simp

text \<open>
  C31. Adjusting a catalog sort key to the primary key of new data: for duplicate-free names, a catalog key that ends in
  the time column and a primary key that has it, the key for the data has exactly the primary key's columns, those
  of the catalog key first and in the catalog's order, then the new ones, then time; catalog columns that the
  primary key does not have are left out of it. The catalog is updated exactly when there are new columns; the
  updated key has the catalog's and the new columns, keeps the old key as a subsequence, as time moves behind the
  new columns, and ends in time.
\<close>

theorem adjust_sort_key_columns_correct:
  assumes "index_map_insert ins" "distinct (map fst key)" "distinct pk"
    and "key = old @ [(TIME_COLUMN_NAME, opts)]" "TIME_COLUMN_NAME \<in> set pk"
  shows "\<exists>meta upd. adjust_sort_key_columns ins dflt key pk = (meta, upd)
    \<and> to_columns meta = filter (\<lambda>c. c \<in> set pk) (map fst old) @ filter (\<lambda>c. c \<notin> fst ` set key) pk @ [TIME_COLUMN_NAME]
    \<and> set (to_columns meta) = set pk \<and> distinct (to_columns meta)
    \<and> (upd = None \<longleftrightarrow> set pk \<subseteq> fst ` set key)
    \<and> (\<forall>u. upd = Some u \<longrightarrow> subseq (map fst key) (to_columns u) \<and> last (to_columns u) = TIME_COLUMN_NAME
        \<and> set (to_columns u) = fst ` set key \<union> set pk)"
proof -
  let ?new = "filter (\<lambda>c. c \<notin> fst ` set key) pk" and ?keep = "filter (\<lambda>c. c \<in> set pk) (map fst old)"
  have ex: "filter (\<lambda>col. TIME_COLUMN_NAME \<noteq> col) (map fst key) = map fst old"
    using assms(2) unfolding assms(4) by (auto simp: filter_id_conv)
  have d: "distinct (?keep @ ?new @ [TIME_COLUMN_NAME])" "distinct (map fst old @ ?new @ [TIME_COLUMN_NAME])"
    using assms(2,3) unfolding assms(4) by auto
  have meta: "from_columns ins dflt (?keep @ ?new @ [TIME_COLUMN_NAME]) = map (\<lambda>c. (c, dflt)) (?keep @ ?new @ [TIME_COLUMN_NAME])"
    and upd: "from_columns ins dflt (map fst old @ ?new @ [TIME_COLUMN_NAME]) = map (\<lambda>c. (c, dflt)) (map fst old @ ?new @ [TIME_COLUMN_NAME])"
    by (rule from_columns_distinct [OF assms(1)], rule d)+
  have res: "adjust_sort_key_columns ins dflt key pk = (map (\<lambda>c. (c, dflt)) (?keep @ ?new @ [TIME_COLUMN_NAME]),
      if ?new = [] then None else Some (map (\<lambda>c. (c, dflt)) (map fst old @ ?new @ [TIME_COLUMN_NAME])))"
    by (simp only: adjust_sort_key_columns_def Let_def sort_key_contains_def ex meta upd)
  have sub: "subseq (map fst key) (map fst old @ ?new @ [TIME_COLUMN_NAME])"
    unfolding assms(4) map_append
    by (intro list_emb_append_mono subseq_order.refl) (simp add: list_emb_append2)
  have cols: "to_columns (map (\<lambda>c. (c, dflt)) xs) = xs" for xs by (simp add: to_columns_def comp_def)
  have setpk: "set (?keep @ ?new @ [TIME_COLUMN_NAME]) = set pk" using assms(4,5) by auto
  have setu: "set (map fst old @ ?new @ [TIME_COLUMN_NAME]) = fst ` set key \<union> set pk" using assms(4,5) by auto
  have new: "?new = [] \<longleftrightarrow> set pk \<subseteq> fst ` set key" by (auto simp: filter_empty_conv)
  define A U where "A = ?keep @ ?new @ [TIME_COLUMN_NAME]" and "U = map fst old @ ?new @ [TIME_COLUMN_NAME]"
  then have A: "A = ?keep @ ?new @ [TIME_COLUMN_NAME]" "set A = set pk" "distinct A"
    and U: "set U = fst ` set key \<union> set pk" "subseq (map fst key) U" "last U = TIME_COLUMN_NAME"
    using d(1) setpk setu sub by (simp_all only: last_appendR list.distinct append_is_Nil_conv last.simps) auto
  have r: "adjust_sort_key_columns ins dflt key pk = (map (\<lambda>c. (c, dflt)) A, if ?new = [] then None else Some (map (\<lambda>c. (c, dflt)) U))"
    unfolding res A_def U_def ..
  show ?thesis
    by (rule exI, rule exI, intro conjI, rule r) (use A U new in \<open>simp_all only: cols option.distinct option.inject
      if_True if_False simp_thms split: if_splits\<close>)
qed

theorem adjust_sort_key_columns_correct_witness:
  "let d = \<lparr>descending = False, nulls_first = True\<rparr>
   in \<exists>meta u. adjust_sort_key_columns AList.update d [(''b'', d), (''a'', d), (''time'', d)] [''a'', ''c'', ''time''] = (meta, Some u)
     \<and> to_columns meta = [''a'', ''c'', ''time''] \<and> last (to_columns u) = ''time''"
proof -
  let ?d = "\<lparr>descending = False, nulls_first = True\<rparr>"
  let ?key = "[(''b'', ?d), (''a'', ?d), (''time'', ?d)]" and ?pk = "[''a'', ''c'', ''time'']"
  have pre: "distinct (map fst ?key)" "distinct ?pk" "?key = [(''b'', ?d), (''a'', ?d)] @ [(TIME_COLUMN_NAME, ?d)]"
    "TIME_COLUMN_NAME \<in> set ?pk"
    by (simp_all add: TIME_COLUMN_NAME_def)
  obtain meta upd where r: "adjust_sort_key_columns AList.update ?d ?key ?pk = (meta, upd)"
    and m: "to_columns meta = filter (\<lambda>c. c \<in> set ?pk) (map fst [(''b'', ?d), (''a'', ?d)])
      @ filter (\<lambda>c. c \<notin> fst ` set ?key) ?pk @ [TIME_COLUMN_NAME]"
    and u: "upd = None \<longleftrightarrow> set ?pk \<subseteq> fst ` set ?key" "\<forall>u. upd = Some u \<longrightarrow> last (to_columns u) = TIME_COLUMN_NAME"
    using adjust_sort_key_columns_correct [OF index_map_insert_update pre, of ?d] by (elim exE conjE) blast
  have "to_columns meta = [''a'', ''c'', ''time'']" unfolding m TIME_COLUMN_NAME_def by simp
  moreover from u(1) obtain v where v: "upd = Some v" by auto
  moreover have "last (to_columns v) = ''time''" using u(2) v by (simp add: TIME_COLUMN_NAME_def)
  ultimately show ?thesis using r unfolding Let_def by blast
qed

end
