(* ===== verification/Partition_Template.thy ===== *)
theory Partition_Template
  imports Statistics "HOL-Library.Sublist"
begin

text \<open>
  Partition templates of \<^verbatim>\<open>data_types/src/partition_template.rs\<close>: the parts of a template, their
  validation, which template a table gets, hash buckets, and the reversal of a partition key into column
  values. The murmur3 hash, chrono's format check and the percent decoder are third-party
  code and stay parameters (\<open>murmur\<close>, \<open>strftime_ok\<close>, \<open>dec\<close>); so do the operations of chrono used to
  read a time part (\<open>Chrono\<close>).
\<close>

subsection \<open>Templates\<close>

datatype TemplatePart = TagValue string | TimeFormat string | Bucket string nat

text \<open>A protobuf template is a list of parts, each of which may be unset.\<close>

type_synonym proto_template = "TemplatePart option list"

datatype ValidationError = NoParts | TooManyParts nat | InvalidStrftime string
  | InvalidTagValue string | InvalidNumberOfBuckets nat | RepeatedTagValue string

definition MAXIMUM_NUMBER_OF_TEMPLATE_PARTS :: nat where
  "MAXIMUM_NUMBER_OF_TEMPLATE_PARTS = 8"

definition TAG_VALUE_KEY_TIME :: string where
  "TAG_VALUE_KEY_TIME = ''time''"

definition ALLOWED_BUCKET_QUANTITIES :: "nat \<times> nat" where
  "ALLOWED_BUCKET_QUANTITIES = (1, 100000)"

definition PARTITION_BY_DAY_PROTO :: proto_template where
  "PARTITION_BY_DAY_PROTO = [Some (TimeFormat ''%Y-%m-%d'')]"

text \<open>\<^verbatim>\<open>str::contains\<close> with a string pattern.\<close>

fun str_contains :: "string \<Rightarrow> string \<Rightarrow> bool" where
  "str_contains [] sub = (sub = [])"
| "str_contains (c # s) sub = (prefix sub (c # s) \<or> str_contains s sub)"

text \<open>The loop of \<^verbatim>\<open>Wrapper::try_from\<close>, with the set of tag names seen so far.\<close>

fun validate_parts :: "(string \<Rightarrow> bool) \<Rightarrow> string list \<Rightarrow> proto_template \<Rightarrow> ValidationError + unit" where
  "validate_parts strftime_ok seen_tags [] = Inr ()"
| "validate_parts strftime_ok seen_tags (part # parts) =
     (case part of
        Some (TimeFormat fmt) \<Rightarrow>
          if fmt = [] then Inl (InvalidStrftime fmt)
          else if str_contains fmt ''%#z'' then Inl (InvalidStrftime ''%#z cannot be used'')
          else if \<not> strftime_ok fmt then Inl (InvalidStrftime fmt)
          else validate_parts strftime_ok seen_tags parts
      | Some (TagValue value) \<Rightarrow>
          if value = [] then Inl (InvalidTagValue value)
          else if str_contains value TAG_VALUE_KEY_TIME then Inl (InvalidTagValue ''time cannot be used'')
          else if value \<in> set seen_tags then Inl (RepeatedTagValue value)
          else validate_parts strftime_ok (value # seen_tags) parts
      | Some (Bucket tag_name num_buckets) \<Rightarrow>
          if tag_name = [] then Inl (InvalidTagValue tag_name)
          else if str_contains tag_name TAG_VALUE_KEY_TIME then Inl (InvalidTagValue ''time cannot be used'')
          else if tag_name \<in> set seen_tags then Inl (RepeatedTagValue tag_name)
          else if \<not> (fst ALLOWED_BUCKET_QUANTITIES \<le> num_buckets \<and> num_buckets < snd ALLOWED_BUCKET_QUANTITIES)
          then Inl (InvalidNumberOfBuckets num_buckets)
          else validate_parts strftime_ok (tag_name # seen_tags) parts
      | None \<Rightarrow> validate_parts strftime_ok seen_tags parts)"

definition wrapper_try_from :: "(string \<Rightarrow> bool) \<Rightarrow> proto_template \<Rightarrow> ValidationError + proto_template" where
  "wrapper_try_from strftime_ok partition_template =
     (if partition_template = [] then Inl NoParts
      else let specified = length partition_template
        in if specified > MAXIMUM_NUMBER_OF_TEMPLATE_PARTS then Inl (TooManyParts specified)
           else case validate_parts strftime_ok [] partition_template of
                  Inl e \<Rightarrow> Inl e
                | Inr _ \<Rightarrow> Inr partition_template)"

type_synonym NamespacePartitionTemplateOverride = "proto_template option"
type_synonym TablePartitionTemplateOverride = "proto_template option"

definition namespace_template_try_from ::
  "(string \<Rightarrow> bool) \<Rightarrow> proto_template \<Rightarrow> ValidationError + NamespacePartitionTemplateOverride" where
  "namespace_template_try_from strftime_ok partition_template =
     map_sum id Some (wrapper_try_from strftime_ok partition_template)"

definition table_template_try_new :: "(string \<Rightarrow> bool) \<Rightarrow> proto_template option \<Rightarrow>
    NamespacePartitionTemplateOverride \<Rightarrow> ValidationError + TablePartitionTemplateOverride" where
  "table_template_try_new strftime_ok custom_table_template namespace_template =
     (case (custom_table_template, namespace_template) of
        (Some table_proto, _) \<Rightarrow> map_sum id Some (wrapper_try_from strftime_ok table_proto)
      | (None, Some namespace_serialization_wrapper) \<Rightarrow> Inr (Some namespace_serialization_wrapper)
      | (None, None) \<Rightarrow> Inr None)"

definition template_parts :: "TablePartitionTemplateOverride \<Rightarrow> TemplatePart list" where
  "template_parts self =
     concat (map (\<lambda>part. case part of None \<Rightarrow> [] | Some p \<Rightarrow> [p])
       (case self of None \<Rightarrow> PARTITION_BY_DAY_PROTO | Some proto \<Rightarrow> proto))"

definition template_len :: "TablePartitionTemplateOverride \<Rightarrow> nat" where
  "template_len self = length (template_parts self)"

subsection \<open>Buckets\<close>

text \<open>The hash with its sign bit cleared, modulo the number of buckets; \<^verbatim>\<open>%\<close> panics on zero.\<close>

definition bucket_for_tag_value :: "(string \<Rightarrow> 32 word) \<Rightarrow> string \<Rightarrow> nat \<Rightarrow> nat option" where
  "bucket_for_tag_value murmur tag_value num_buckets = do {
     let hash = murmur tag_value;
     assert_that (num_buckets \<noteq> 0);
     Some (unat (hash AND 0x7FFFFFFF) mod num_buckets)
   }"

subsection \<open>Reversing a partition key\<close>

definition PARTITION_KEY_DELIMITER :: char where
  "PARTITION_KEY_DELIMITER = CHR ''|''"

definition PARTITION_KEY_VALUE_EMPTY_STR :: string where
  "PARTITION_KEY_VALUE_EMPTY_STR = ''^''"

definition PARTITION_KEY_VALUE_NULL_STR :: string where
  "PARTITION_KEY_VALUE_NULL_STR = ''!''"

definition PARTITION_KEY_MAX_PART_LEN :: nat where
  "PARTITION_KEY_MAX_PART_LEN = 200"

definition PARTITION_KEY_PART_TRUNCATED :: char where
  "PARTITION_KEY_PART_TRUNCATED = CHR ''#''"

datatype ColumnValue = Identity string | Prefix string | Datetime int int | Bucket_Id nat

definition is_prefix_match_of :: "ColumnValue \<Rightarrow> string \<Rightarrow> bool" where
  "is_prefix_match_of self other = (case self of
     Identity v \<Rightarrow> prefix v other | Prefix v \<Rightarrow> prefix v other | Datetime _ _ \<Rightarrow> False | Bucket_Id _ \<Rightarrow> False)"

definition column_value_eq :: "ColumnValue \<Rightarrow> string \<Rightarrow> bool" where
  "column_value_eq self other = (case self of
     Identity v \<Rightarrow> other = v | Prefix _ \<Rightarrow> False | Datetime _ _ \<Rightarrow> False | Bucket_Id _ \<Rightarrow> False)"

text \<open>\<^verbatim>\<open>str::split\<close> on a character: always at least one piece.\<close>

fun split_on :: "char \<Rightarrow> string \<Rightarrow> string list" where
  "split_on d [] = [[]]"
| "split_on d (c # s) =
     (if c = d then [] # split_on d s
      else case split_on d s of [] \<Rightarrow> [[c]] | p # ps \<Rightarrow> (c # p) # ps)"

text \<open>\<^verbatim>\<open>dec\<close> is \<^verbatim>\<open>percent_decode_str(..).decode_utf8()\<close>; invalid UTF-8 is a panic.\<close>

definition parse_part_tag_value :: "(string \<Rightarrow> string option) \<Rightarrow> string \<Rightarrow> ColumnValue option" where
  "parse_part_tag_value dec value = do {
     let value = (if value = PARTITION_KEY_VALUE_EMPTY_STR then [] else value);
     decoded \<leftarrow> dec value;
     if value \<noteq> [] \<and> last value = PARTITION_KEY_PART_TRUNCATED then do {
       len \<leftarrow> checked_sub (length decoded) 1;
       Some (Prefix (take len decoded))
     } else Some (Identity decoded)
   }"

text \<open>\<^verbatim>\<open>str::parse::<u32>\<close>: an optional plus sign and at least one digit, in range.\<close>

fun parse_digits :: "nat \<Rightarrow> string \<Rightarrow> nat option" where
  "parse_digits acc [] = Some acc"
| "parse_digits acc (c # cs) =
     (if 48 \<le> (of_char c :: nat) \<and> (of_char c :: nat) \<le> 57 \<and> acc * 10 + (of_char c - 48) < 2 ^ 32
      then parse_digits (acc * 10 + (of_char c - 48)) cs else None)"

definition parse_u32 :: "string \<Rightarrow> nat option" where
  "parse_u32 s = (case s of
     [] \<Rightarrow> None
   | c # cs \<Rightarrow> if c = CHR ''+'' then (if cs = [] then None else parse_digits 0 cs) else parse_digits 0 s)"

definition parse_part_bucket :: "string \<Rightarrow> nat \<Rightarrow> ColumnValue option" where
  "parse_part_bucket value num_buckets = do {
     bucket_id \<leftarrow> parse_u32 value;
     assert_that (bucket_id < num_buckets);
     Some (Bucket_Id bucket_id)
   }"

text \<open>
  Time parts are read with chrono. What the source uses of it is a record of operations: the items of a
  format, the parser, the setters of \<^verbatim>\<open>Parsed\<close>, the conversion to a UTC time (in nanoseconds) and calendar
  addition, which panics (\<open>None\<close>) when the result is out of range.
\<close>

datatype Numeric = Year | Month | Day | Other_Numeric

datatype Item = Literal | Space | Item_Error | Item_Numeric Numeric | Item_Fixed

record Parsed =
  p_year :: "int option"
  p_month :: "int option"
  p_day :: "int option"
  p_hour_div_12 :: "int option"
  p_hour_mod_12 :: "int option"
  p_minute :: "int option"
  p_second :: "int option"
  p_nanosecond :: "int option"

record Chrono =
  strftime_items :: "string \<Rightarrow> Item list"
  chrono_parse :: "string \<Rightarrow> string \<Rightarrow> Parsed option"
  set_month :: "int \<Rightarrow> Parsed \<Rightarrow> Parsed option"
  set_day :: "int \<Rightarrow> Parsed \<Rightarrow> Parsed option"
  set_hour :: "int \<Rightarrow> Parsed \<Rightarrow> Parsed option"
  set_minute :: "int \<Rightarrow> Parsed \<Rightarrow> Parsed option"
  to_datetime :: "Parsed \<Rightarrow> int option"
  add_months :: "int \<Rightarrow> nat \<Rightarrow> int option"
  add_days :: "int \<Rightarrow> nat \<Rightarrow> int option"

definition parsed_implicit_defaults :: "Chrono \<Rightarrow> Parsed \<Rightarrow> Parsed option" where
  "parsed_implicit_defaults chrono parsed = do {
     _ \<leftarrow> p_year parsed;
     parsed \<leftarrow> (if p_month parsed = None
       then if p_day parsed \<noteq> None then None else set_month chrono 1 parsed
       else Some parsed);
     parsed \<leftarrow> (if p_day parsed = None
       then if p_hour_div_12 parsed \<noteq> None \<or> p_hour_mod_12 parsed \<noteq> None then None else set_day chrono 1 parsed
       else Some parsed);
     parsed \<leftarrow> (if p_hour_div_12 parsed = None \<or> p_hour_mod_12 parsed = None
       then if p_hour_div_12 parsed \<noteq> None then None
         else if p_hour_mod_12 parsed \<noteq> None then None
         else if p_minute parsed \<noteq> None then None
         else set_hour chrono 0 parsed
       else Some parsed);
     (if p_minute parsed = None
       then if p_second parsed \<noteq> None then None
         else if p_nanosecond parsed \<noteq> None then None
         else set_minute chrono 0 parsed
       else Some parsed)
   }"

text \<open>
  The loop over the items, with the end found so far. The outer option is a panic of the calendar addition;
  the inner one is the early \<^verbatim>\<open>return None\<close>.
\<close>

fun time_end_loop :: "Chrono \<Rightarrow> int \<Rightarrow> Item list \<Rightarrow> int option \<Rightarrow> int option option option" where
  "time_end_loop chrono begin_dt [] e = Some (Some e)"
| "time_end_loop chrono begin_dt (item # items) e =
     (case item of
        Literal \<Rightarrow> time_end_loop chrono begin_dt items e
      | Space \<Rightarrow> time_end_loop chrono begin_dt items e
      | Item_Error \<Rightarrow> Some None
      | Item_Fixed \<Rightarrow> Some None
      | Item_Numeric Other_Numeric \<Rightarrow> Some None
      | Item_Numeric numeric \<Rightarrow> do {
          item_end \<leftarrow> (case numeric of
             Year \<Rightarrow> add_months chrono begin_dt 12
           | Month \<Rightarrow> add_months chrono begin_dt 1
           | _ \<Rightarrow> add_days chrono begin_dt 1);
          time_end_loop chrono begin_dt items
            (case e of
               Some a \<Rightarrow> if a - begin_dt < item_end - begin_dt then Some a else Some item_end
             | None \<Rightarrow> Some item_end)
        })"

definition parse_part_time_format :: "Chrono \<Rightarrow> string \<Rightarrow> string \<Rightarrow> ColumnValue option option" where
  "parse_part_time_format chrono value fmt =
     (case chrono_parse chrono value fmt of None \<Rightarrow> Some None | Some parsed \<Rightarrow>
      (case parsed_implicit_defaults chrono parsed of None \<Rightarrow> Some None | Some parsed \<Rightarrow>
      (case to_datetime chrono parsed of None \<Rightarrow> Some None | Some begin_dt \<Rightarrow> do {
         r \<leftarrow> time_end_loop chrono begin_dt (strftime_items chrono fmt) None;
         Some (case r of Some (Some e) \<Rightarrow> Some (Datetime begin_dt e) | _ \<Rightarrow> None)
       })))"

text \<open>All pairs yielded by \<^verbatim>\<open>build_column_values\<close>; the option is a panic.\<close>

fun build_values :: "(string \<Rightarrow> string option) \<Rightarrow> Chrono \<Rightarrow>
    (TemplatePart \<times> string) list \<Rightarrow> (string \<times> ColumnValue) list option" where
  "build_values dec chrono [] = Some []"
| "build_values dec chrono ((template, value) # rest) =
     (if value = PARTITION_KEY_VALUE_NULL_STR then build_values dec chrono rest
      else case template of
        TagValue col_name \<Rightarrow> do {
          v \<leftarrow> parse_part_tag_value dec value;
          vs \<leftarrow> build_values dec chrono rest;
          Some ((col_name, v) # vs)
        }
      | TimeFormat fmt \<Rightarrow> do {
          v \<leftarrow> parse_part_time_format chrono value fmt;
          vs \<leftarrow> build_values dec chrono rest;
          Some (case v of None \<Rightarrow> vs | Some v \<Rightarrow> (TIME_COLUMN_NAME, v) # vs)
        }
      | Bucket col_name num_buckets \<Rightarrow> do {
          v \<leftarrow> parse_part_bucket value num_buckets;
          vs \<leftarrow> build_values dec chrono rest;
          Some ((col_name, v) # vs)
        })"

definition build_column_values :: "(string \<Rightarrow> string option) \<Rightarrow> Chrono \<Rightarrow> TablePartitionTemplateOverride \<Rightarrow>
    string \<Rightarrow> (string \<times> ColumnValue) list option" where
  "build_column_values dec chrono template partition_key =
     build_values dec chrono (zip (template_parts template) (split_on PARTITION_KEY_DELIMITER partition_key))"

subsection \<open>Lemmas\<close>

text \<open>The specification of a valid part, and the tag names a template uses.\<close>

definition valid_tag_name :: "string \<Rightarrow> bool" where
  "valid_tag_name t \<longleftrightarrow> t \<noteq> [] \<and> \<not> str_contains t TAG_VALUE_KEY_TIME"

fun valid_part :: "(string \<Rightarrow> bool) \<Rightarrow> TemplatePart \<Rightarrow> bool" where
  "valid_part strftime_ok (TimeFormat fmt) = (fmt \<noteq> [] \<and> \<not> str_contains fmt ''%#z'' \<and> strftime_ok fmt)"
| "valid_part strftime_ok (TagValue t) = valid_tag_name t"
| "valid_part strftime_ok (Bucket t n) = (valid_tag_name t \<and> 1 \<le> n \<and> n < 100000)"

fun tag_names :: "TemplatePart list \<Rightarrow> string list" where
  "tag_names [] = []"
| "tag_names (TagValue t # ps) = t # tag_names ps"
| "tag_names (Bucket t n # ps) = t # tag_names ps"
| "tag_names (TimeFormat f # ps) = tag_names ps"

definition set_parts :: "proto_template \<Rightarrow> TemplatePart list" where
  "set_parts t = concat (map (\<lambda>part. case part of None \<Rightarrow> [] | Some p \<Rightarrow> [p]) t)"

lemma set_parts_simps [simp]:
  "set_parts [] = []" "set_parts (None # t) = set_parts t" "set_parts (Some p # t) = p # set_parts t"
  by (simp_all add: set_parts_def)

lemma template_parts_Some [simp]: "template_parts (Some t) = set_parts t"
  by (simp add: template_parts_def set_parts_def)

lemma validate_parts_iff:
  "validate_parts ok seen t = Inr u \<longleftrightarrow> list_all (valid_part ok) (set_parts t)
    \<and> distinct (tag_names (set_parts t)) \<and> set (tag_names (set_parts t)) \<inter> set seen = {}"
proof (induction t arbitrary: seen)
  case (Cons part t)
  show ?case
  proof (cases part)
    case (Some p)
    then show ?thesis
      using Cons by (cases p) (auto simp: valid_tag_name_def ALLOWED_BUCKET_QUANTITIES_def)
  qed (use Cons in simp)
qed simp

lemma wrapper_try_from_valid: "wrapper_try_from ok t = Inr w \<Longrightarrow> list_all (valid_part ok) (set_parts t)"
proof -
  assume "wrapper_try_from ok t = Inr w"
  then have "validate_parts ok [] t = Inr ()"
    by (auto simp: wrapper_try_from_def Let_def split: if_splits sum.splits)
  then show ?thesis by (simp add: validate_parts_iff)
qed

lemma set_parts_length: "length (set_parts t) \<le> length t"
  by (induction t) (auto simp: set_parts_def split: option.splits)

lemma wrapper_try_from_len: "wrapper_try_from ok t = Inr w \<Longrightarrow> template_len (Some t) \<le> 8"
proof -
  assume "wrapper_try_from ok t = Inr w"
  then have "length t \<le> 8"
    by (auto simp: wrapper_try_from_def MAXIMUM_NUMBER_OF_TEMPLATE_PARTS_def Let_def split: if_splits)
  then show ?thesis using set_parts_length [of t] by (simp add: template_len_def)
qed

lemma parse_digits_append:
  "parse_digits acc (xs @ ys) = do { a \<leftarrow> parse_digits acc xs; parse_digits a ys }"
  by (induction xs arbitrary: acc) auto

lemma of_char_digit [simp]: "d < 10 \<Longrightarrow> of_char (char_of (48 + d :: nat)) = (48 + d :: nat)"
  by simp

lemma parse_digits_nat_fmt: "n < 2 ^ 32 \<Longrightarrow> parse_digits 0 (nat_fmt n) = Some n"
proof (induction n rule: nat_fmt.induct)
  case (1 n)
  show ?case
  proof (cases "n < 10")
    case True
    then show ?thesis by (subst nat_fmt.simps) simp
  next
    case False
    have "n div 10 < 2 ^ 32" using 1(2) by (meson div_le_dividend le_less_trans)
    then have "parse_digits 0 (nat_fmt (n div 10)) = Some (n div 10)" using 1(1) False by simp
    moreover have "n mod 10 < 10" by simp
    ultimately show ?thesis
      using False 1(2) by (subst nat_fmt.simps) (simp add: parse_digits_append)
  qed
qed

lemma nat_fmt_digits: "c \<in> set (nat_fmt n) \<Longrightarrow> 48 \<le> (of_char c :: nat) \<and> (of_char c :: nat) \<le> 57"
proof (induction n rule: nat_fmt.induct)
  case (1 n)
  have "n mod 10 < 10" by simp
  with 1 show ?case by (subst (asm) nat_fmt.simps) (auto split: if_splits)
qed

lemma nat_fmt_not_Nil [simp]: "nat_fmt n \<noteq> []"
  by (subst nat_fmt.simps) simp

lemma nat_fmt_no_char: "(of_char c :: nat) < 48 \<or> 57 < (of_char c :: nat) \<Longrightarrow> c \<notin> set (nat_fmt n)"
  using nat_fmt_digits by fastforce

lemma parse_u32_nat_fmt:
  assumes "n < 2 ^ 32"
  shows "parse_u32 (nat_fmt n) = Some n"
proof -
  obtain c cs where c: "nat_fmt n = c # cs" by (cases "nat_fmt n") auto
  have "CHR ''+'' \<notin> set (nat_fmt n)" by (rule nat_fmt_no_char) simp
  then have "c \<noteq> CHR ''+''" using c by auto
  then show ?thesis using parse_digits_nat_fmt [OF assms] c by (simp add: parse_u32_def)
qed

lemma split_on_not_Nil [simp]: "split_on d s \<noteq> []"
  by (induction s) (auto split: list.split)

lemma split_on_no_delimiter: "d \<notin> set s \<Longrightarrow> split_on d s = [s]"
  by (induction s) auto

lemma split_on_delimiter: "d \<notin> set s \<Longrightarrow> split_on d (s @ d # t) = s # split_on d t"
  by (induction s) auto

subsection \<open>Properties\<close>

text \<open>
  C28. Template validation is exact: a template is accepted, unchanged, if and only if it has between one and
  eight parts, every part that is set is valid (a non-empty time format chrono accepts and without
  \<^verbatim>\<open>%#z\<close>; a non-empty tag name that nowhere contains \<^verbatim>\<open>time\<close>; a bucket count from 1 to 99999) and no tag
  name is used twice.
\<close>

theorem template_validation_exact:
  "wrapper_try_from strftime_ok t = Inr w \<longleftrightarrow>
    w = t \<and> t \<noteq> [] \<and> length t \<le> 8 \<and> list_all (valid_part strftime_ok) (set_parts t) \<and> distinct (tag_names (set_parts t))"
proof -
  have "validate_parts strftime_ok [] t = Inr () \<longleftrightarrow>
      list_all (valid_part strftime_ok) (set_parts t) \<and> distinct (tag_names (set_parts t))"
    by (simp add: validate_parts_iff)
  then show ?thesis
    by (cases "validate_parts strftime_ok [] t")
      (auto simp: wrapper_try_from_def MAXIMUM_NUMBER_OF_TEMPLATE_PARTS_def Let_def)
qed

text \<open>
  A tag part whose name merely contains the four letters of the time column (for instance \<^verbatim>\<open>uptime\<close>) is
  rejected with the error reserved for the time column itself.
\<close>

theorem template_tag_containing_time_rejected:
  assumes "str_contains name ''time''"
  shows "wrapper_try_from strftime_ok [Some (TagValue name)] = Inl (InvalidTagValue ''time cannot be used'')"
  using assms by (cases name) (auto simp: wrapper_try_from_def MAXIMUM_NUMBER_OF_TEMPLATE_PARTS_def TAG_VALUE_KEY_TIME_def)

theorem template_tag_containing_time_rejected_witness:
  "wrapper_try_from (\<lambda>_. True) [Some (TagValue ''uptime'')] = Inl (InvalidTagValue ''time cannot be used'')"
  by (rule template_tag_containing_time_rejected) simp

text \<open>
  Bucket parts of a partition key can be read back: for a bucket count of a validated template, the bucket
  of any tag value is below the count, and the decimal bucket id written into the key parses to that bucket.
\<close>

theorem bucket_part_roundtrip:
  assumes "wrapper_try_from strftime_ok t = Inr w" "Some (Bucket name n) \<in> set t"
  shows "\<exists>b. bucket_for_tag_value murmur v n = Some b \<and> b < n \<and> parse_part_bucket (nat_fmt b) n = Some (Bucket_Id b)"
proof -
  have "Bucket name n \<in> set (set_parts t)"
    using assms(2) by (auto simp: set_parts_def intro!: bexI [of _ "Some (Bucket name n)"])
  moreover have "list_all (valid_part strftime_ok) (set_parts t)" by (rule wrapper_try_from_valid [OF assms(1)])
  ultimately have n: "1 \<le> n" "n < 100000" by (auto simp: list_all_iff)
  define b where "b = unat (murmur v AND 0x7FFFFFFF) mod n"
  have b: "b < n" using n by (simp add: b_def)
  then have "parse_u32 (nat_fmt b) = Some b" using n by (intro parse_u32_nat_fmt) simp
  then show ?thesis
    using b n by (intro exI [of _ b]) (simp add: bucket_for_tag_value_def b_def parse_part_bucket_def)
qed

theorem bucket_part_roundtrip_witness:
  "\<exists>b. bucket_for_tag_value (\<lambda>s. of_nat (length s)) ''abc'' 2 = Some b \<and> b < 2
    \<and> parse_part_bucket (nat_fmt b) 2 = Some (Bucket_Id b)"
proof -
  have "wrapper_try_from (\<lambda>_. True) [Some (Bucket ''b'' 2)] = Inr [Some (Bucket ''b'' 2)]"
    by (simp add: wrapper_try_from_def MAXIMUM_NUMBER_OF_TEMPLATE_PARTS_def TAG_VALUE_KEY_TIME_def ALLOWED_BUCKET_QUANTITIES_def)
  from bucket_part_roundtrip [OF this, of "''b''" 2 "\<lambda>s. of_nat (length s)" "''abc''"] show ?thesis by simp
qed

text \<open>
  The ends the numeric items of a format contribute: one year, month or day after the begin.
\<close>

definition numeric_end :: "Chrono \<Rightarrow> int \<Rightarrow> Numeric \<Rightarrow> int option" where
  "numeric_end chrono begin_dt n = (case n of
     Year \<Rightarrow> add_months chrono begin_dt 12 | Month \<Rightarrow> add_months chrono begin_dt 1
   | Day \<Rightarrow> add_days chrono begin_dt 1 | Other_Numeric \<Rightarrow> None)"

lemma time_end_loop_least:
  assumes "time_end_loop chrono b items e0 = Some (Some (Some e))"
  shows "(e0 = Some e \<or> (\<exists>n. Item_Numeric n \<in> set items \<and> numeric_end chrono b n = Some e))
    \<and> (\<forall>a. e0 = Some a \<longrightarrow> e \<le> a)
    \<and> (\<forall>n. Item_Numeric n \<in> set items \<longrightarrow> (\<exists>x. numeric_end chrono b n = Some x \<and> e \<le> x))
    \<and> Item_Error \<notin> set items \<and> Item_Fixed \<notin> set items"
  using assms
proof (induction items arbitrary: e0)
  case (Cons item items)
  show ?case
  proof (cases item)
    case (Item_Numeric n)
    define nxt where "nxt x = (case e0 of Some a \<Rightarrow> if a - b < x - b then Some a else Some x | None \<Rightarrow> Some x)" for x
    from Cons.prems Item_Numeric obtain x where x: "numeric_end chrono b n = Some x"
      and l: "time_end_loop chrono b items (nxt x) = Some (Some (Some e))"
      by (cases n) (auto simp: numeric_end_def nxt_def split: bind_splits)
    define y where "y = (case e0 of Some a \<Rightarrow> min a x | None \<Rightarrow> x)"
    have y: "nxt x = Some y" "y \<le> x" "e0 = None \<and> y = x \<or> (\<exists>a. e0 = Some a \<and> y \<le> a \<and> (y = a \<or> y = x))"
      by (auto simp: nxt_def y_def split: option.splits)
    from Cons.IH [OF l] x y Item_Numeric show ?thesis by (auto 4 4)
  qed (use Cons in auto)
qed simp

text \<open>
  A time part of a partition key is read back as the interval of the finest unit of its format: the end
  is the end of one of the format's year, month or day items and no later than the end of any of them, and
  the format holds no other kind of field.
\<close>

theorem time_part_interval_is_finest:
  assumes "parse_part_time_format chrono value fmt = Some (Some (Datetime b e))"
  shows "(\<exists>n. Item_Numeric n \<in> set (strftime_items chrono fmt) \<and> numeric_end chrono b n = Some e)
    \<and> (\<forall>n. Item_Numeric n \<in> set (strftime_items chrono fmt) \<longrightarrow> (\<exists>x. numeric_end chrono b n = Some x \<and> e \<le> x))
    \<and> set (strftime_items chrono fmt) \<subseteq> {Literal, Space, Item_Numeric Year, Item_Numeric Month, Item_Numeric Day}"
proof -
  from assms have "time_end_loop chrono b (strftime_items chrono fmt) None = Some (Some (Some e))"
    by (auto simp: parse_part_time_format_def split: option.splits bind_splits)
  note l = time_end_loop_least [OF this]
  have "i \<in> {Literal, Space, Item_Numeric Year, Item_Numeric Month, Item_Numeric Day}"
    if i: "i \<in> set (strftime_items chrono fmt)" for i
  proof (cases i)
    case (Item_Numeric n)
    with i l have "numeric_end chrono b n \<noteq> None" by fastforce
    then show ?thesis using Item_Numeric by (cases n) (auto simp: numeric_end_def)
  qed (use i l in auto)
  with l show ?thesis by auto
qed

text \<open>A calendar of 30-day months and 360-day years with a day as its unit, for the witness.\<close>

definition toy_parsed :: Parsed where
  "toy_parsed = \<lparr>p_year = Some 2, p_month = Some 3, p_day = Some 4, p_hour_div_12 = Some 0,
     p_hour_mod_12 = Some 0, p_minute = Some 0, p_second = None, p_nanosecond = None\<rparr>"

definition toy_chrono :: Chrono where
  "toy_chrono = \<lparr>strftime_items = (\<lambda>_. [Item_Numeric Year, Literal, Item_Numeric Month, Literal, Item_Numeric Day]),
     chrono_parse = (\<lambda>_ _. Some toy_parsed),
     set_month = (\<lambda>_. Some), set_day = (\<lambda>_. Some), set_hour = (\<lambda>_. Some), set_minute = (\<lambda>_. Some),
     to_datetime = (\<lambda>_. Some 814), add_months = (\<lambda>b n. Some (b + 30 * int n)), add_days = (\<lambda>b n. Some (b + int n))\<rparr>"

theorem time_part_interval_is_finest_witness:
  "parse_part_time_format toy_chrono ''0002-03-04'' ''%Y-%m-%d'' = Some (Some (Datetime 814 815))
   \<and> numeric_end toy_chrono 814 Day = Some 815
   \<and> (\<exists>n. Item_Numeric n \<in> set (strftime_items toy_chrono ''%Y-%m-%d'') \<and> numeric_end toy_chrono 814 n = Some 815)"
proof -
  have p: "parse_part_time_format toy_chrono ''0002-03-04'' ''%Y-%m-%d'' = Some (Some (Datetime 814 815))"
    by (simp add: parse_part_time_format_def toy_chrono_def toy_parsed_def parsed_implicit_defaults_def)
  from time_part_interval_is_finest [OF p] p show ?thesis
    by (simp add: numeric_end_def toy_chrono_def)
qed

end
