(* ===== verification/Partitioner.thy ===== *)
theory Partitioner
  imports Partition_Template
begin

text \<open>
  The \<^verbatim>\<open>partition\<close> crate: partition keys of the rows of a batch (\<^verbatim>\<open>partition/src/lib.rs\<close>), the caching time
  formatter (\<^verbatim>\<open>strftime.rs\<close>), the bucket hasher (\<^verbatim>\<open>bucket.rs\<close>), row filters (\<^verbatim>\<open>filter.rs\<close>) and the
  partitioned writes. The traits \<^verbatim>\<open>PartitioningColumn\<close> and \<^verbatim>\<open>Batch\<close> are records of their methods. Lazy
  iterators are lists whose elements are options: \<open>None\<close> is a panic raised when that element is pulled, and
  is always the last element. The main results: the deduplicating, caching pipeline computes exactly the
  run-length encoding of the per-row keys, and partitioning splits the rows exactly by key.
\<close>

subsection \<open>Interfaces\<close>

text \<open>The third-party functions the crate calls.\<close>

record Partition_Ext =
  utf8_percent_encode :: "string \<Rightarrow> string"
  graphemes :: "string \<Rightarrow> string list"
  format_with_items :: "string \<Rightarrow> int \<Rightarrow> string option"
  murmur3_32 :: "string \<Rightarrow> 32 word"

datatype TimeColumnError = TimeColumnNotFound

datatype PartitionKeyError = PK_InvalidStrftime | TagValueNotTag string | FmtError

datatype PartitionWriteError = PW_PartitionKey PartitionKeyError | PW_TimeColumn TimeColumnError

record 'k PartitioningColumn =
  is_valid :: "nat \<Rightarrow> bool"
  get_tag_identity_key :: "nat \<Rightarrow> 'k option"
  get_tag_value :: "'k \<Rightarrow> string option"
  type_description :: string

record 'k Batch =
  num_rows :: nat
  batch_column :: "string \<Rightarrow> 'k PartitioningColumn option"
  time_column :: "TimeColumnError + int list"

subsection \<open>Encoding a key part\<close>

text \<open>The \<^verbatim>\<open>take_while\<close> with its running byte count.\<close>

fun take_bytes :: "nat \<Rightarrow> string list \<Rightarrow> string list" where
  "take_bytes bytes [] = []"
| "take_bytes bytes (v # vs) =
     (if bytes + length v < PARTITION_KEY_MAX_PART_LEN then v # take_bytes (bytes + length v) vs else [])"

definition encode_key_part :: "Partition_Ext \<Rightarrow> string \<Rightarrow> string option" where
  "encode_key_part ext s =
     (let as_str = utf8_percent_encode ext s
      in if length as_str = 0 then Some PARTITION_KEY_VALUE_EMPTY_STR
         else if length as_str \<le> PARTITION_KEY_MAX_PART_LEN then Some as_str
         else let buf = concat (take_bytes 0 (map (utf8_percent_encode ext) (graphemes ext s))) @ [PARTITION_KEY_PART_TRUNCATED]
           in do { assert_that (length buf \<le> PARTITION_KEY_MAX_PART_LEN); Some buf })"

subsection \<open>Time formatter\<close>

definition DAY_NANOSECONDS :: int where
  "DAY_NANOSECONDS = 86400000000000"

definition YMD_SPEC :: string where
  "YMD_SPEC = ''%Y-%m-%d''"

record 'a RingBuffer =
  rb_buf :: "'a option list"
  rb_last_idx :: nat

definition ring_buffer_default :: "nat \<Rightarrow> 'a RingBuffer" where
  "ring_buffer_default n = \<lparr>rb_buf = replicate n None, rb_last_idx = n - 1\<rparr>"

text \<open>
  \<^verbatim>\<open>next_slot\<close> returns a mutable reference to the slot: the value found there is overwritten by
  \<open>write_slot\<close>.
\<close>

definition next_slot :: "'a \<Rightarrow> 'a RingBuffer \<Rightarrow> 'a RingBuffer" where
  "next_slot dflt self =
     (let last_idx = (rb_last_idx self + 1) mod length (rb_buf self)
      in self\<lparr>rb_last_idx := last_idx,
              rb_buf := (rb_buf self)[last_idx := Some (case rb_buf self ! last_idx of None \<Rightarrow> dflt | Some v \<Rightarrow> v)]\<rparr>)"

definition write_slot :: "'a \<Rightarrow> 'a RingBuffer \<Rightarrow> 'a RingBuffer" where
  "write_slot v self = self\<lparr>rb_buf := (rb_buf self)[rb_last_idx self := Some v]\<rparr>"

definition drop_last :: "'a RingBuffer \<Rightarrow> 'a RingBuffer" where
  "drop_last self = self\<lparr>rb_buf := (rb_buf self)[rb_last_idx self := None]\<rparr>"

fun ring_find :: "('a \<Rightarrow> bool) \<Rightarrow> 'a option list \<Rightarrow> 'a option" where
  "ring_find f [] = None"
| "ring_find f (None # vs) = None"
| "ring_find f (Some v # vs) = (if f v then Some v else ring_find f vs)"

record StrftimeFormatter =
  sf_format :: string
  is_ymd_format :: bool
  sf_values :: "(int \<times> string) RingBuffer"
  last_ts :: "int option"

definition strftime_formatter_new :: "string \<Rightarrow> StrftimeFormatter" where
  "strftime_formatter_new fmt =
     \<lparr>sf_format = fmt, is_ymd_format = (fmt = YMD_SPEC), sf_values = ring_buffer_default 5, last_ts = None\<rparr>"

definition maybe_reduce :: "StrftimeFormatter \<Rightarrow> int \<Rightarrow> int" where
  "maybe_reduce self timestamp =
     (if \<not> is_ymd_format self then timestamp
      else if timestamp < DAY_NANOSECONDS then timestamp
      else timestamp - timestamp mod DAY_NANOSECONDS)"

text \<open>\<^verbatim>\<open>render\<close> appends to \<open>out\<close>; the option is a panic of \<^verbatim>\<open>encode_key_part\<close>.\<close>

definition render :: "Partition_Ext \<Rightarrow> StrftimeFormatter \<Rightarrow> int \<Rightarrow> string \<Rightarrow>
    (StrftimeFormatter \<times> (PartitionKeyError + string)) option" where
  "render ext self timestamp out =
     (let timestamp = maybe_reduce self timestamp;
          self = self\<lparr>last_ts := Some timestamp\<rparr>
      in case ring_find (\<lambda>(t, v). t = timestamp) (rb_buf (sf_values self)) of
           Some v \<Rightarrow> Some (self, Inr (out @ snd v))
         | None \<Rightarrow>
             (let values = next_slot (0, []) (sf_values self)
              in case format_with_items ext (sf_format self) timestamp of
                   None \<Rightarrow> Some (self\<lparr>sf_values := drop_last values\<rparr>, Inl PK_InvalidStrftime)
                 | Some rendered \<Rightarrow> do {
                     v \<leftarrow> encode_key_part ext rendered;
                     Some (self\<lparr>sf_values := write_slot (timestamp, v) values\<rparr>, Inr (out @ v))
                   }))"

definition equals_last :: "StrftimeFormatter \<Rightarrow> int \<Rightarrow> bool" where
  "equals_last self timestamp =
     (let timestamp = maybe_reduce self timestamp
      in case last_ts self of None \<Rightarrow> False | Some v \<Rightarrow> v = timestamp)"

subsection \<open>Bucket hasher\<close>

record BucketHasher =
  bh_num_buckets :: nat
  last_assigned_bucket :: "nat option"

definition bucket_hasher_new :: "nat \<Rightarrow> BucketHasher" where
  "bucket_hasher_new num_buckets = \<lparr>bh_num_buckets = num_buckets, last_assigned_bucket = None\<rparr>"

definition assign_bucket :: "Partition_Ext \<Rightarrow> BucketHasher \<Rightarrow> string \<Rightarrow> (BucketHasher \<times> nat) option" where
  "assign_bucket ext self tag_value = do {
     bucket \<leftarrow> bucket_for_tag_value (murmur3_32 ext) tag_value (bh_num_buckets self);
     Some (self\<lparr>last_assigned_bucket := Some bucket\<rparr>, bucket)
   }"

subsection \<open>Templates\<close>

datatype 'k Template =
    T_TagValue "'k PartitioningColumn" "'k option"
  | T_TimeFormat "int list" StrftimeFormatter
  | T_Bucket "'k PartitioningColumn" BucketHasher "'k option"
  | T_MissingTag

fun fmt_row :: "Partition_Ext \<Rightarrow> 'k Template \<Rightarrow> nat \<Rightarrow> string \<Rightarrow>
    ('k Template \<times> (PartitionKeyError + string)) option" where
  "fmt_row ext (T_TagValue col last_key) idx out =
     (if is_valid col idx
      then case get_tag_identity_key col idx of
             None \<Rightarrow> Some (T_TagValue col last_key, Inl (TagValueNotTag (type_description col)))
           | Some this_key \<Rightarrow> do {
               v \<leftarrow> get_tag_value col this_key;
               part \<leftarrow> encode_key_part ext v;
               Some (T_TagValue col (Some this_key), Inr (out @ part))
             }
      else Some (T_TagValue col None, Inr (out @ PARTITION_KEY_VALUE_NULL_STR)))"
| "fmt_row ext (T_TimeFormat t fmt) idx out = do {
     ts \<leftarrow> nth_opt t idx;
     (fmt, r) \<leftarrow> render ext fmt ts out;
     Some (T_TimeFormat t fmt, r)
   }"
| "fmt_row ext (T_Bucket col bucketer last_key) idx out =
     (if is_valid col idx
      then case get_tag_identity_key col idx of
             None \<Rightarrow> Some (T_Bucket col bucketer last_key, Inl (TagValueNotTag (type_description col)))
           | Some this_key \<Rightarrow> do {
               this_value \<leftarrow> get_tag_value col this_key;
               (bucketer, bucket) \<leftarrow> assign_bucket ext bucketer this_value;
               Some (T_Bucket col bucketer (Some this_key), Inr (out @ nat_fmt bucket))
             }
      else Some (T_Bucket col bucketer None, Inr (out @ PARTITION_KEY_VALUE_NULL_STR)))"
| "fmt_row ext T_MissingTag idx out = Some (T_MissingTag, Inr (out @ PARTITION_KEY_VALUE_NULL_STR))"

fun is_identical :: "Partition_Ext \<Rightarrow> 'k Template \<Rightarrow> nat \<Rightarrow> ('k Template \<times> bool) option" where
  "is_identical ext (T_TagValue col last_key) idx =
     Some (T_TagValue col last_key,
       if is_valid col idx
       then (case get_tag_identity_key col idx of
               None \<Rightarrow> False
             | Some this_key \<Rightarrow> (case last_key of None \<Rightarrow> False | Some v \<Rightarrow> v = this_key))
       else last_key = None)"
| "is_identical ext (T_TimeFormat t fmt) idx = do {
     ts \<leftarrow> nth_opt t idx;
     Some (T_TimeFormat t fmt, equals_last fmt ts)
   }"
| "is_identical ext (T_Bucket col fmt last_key) idx =
     (if is_valid col idx
      then case get_tag_identity_key col idx of
             None \<Rightarrow> Some (T_Bucket col fmt last_key, False)
           | Some this_key \<Rightarrow>
               (case last_key of
                  None \<Rightarrow> Some (T_Bucket col fmt last_key, False)
                | Some v \<Rightarrow>
                    if this_key = v then Some (T_Bucket col fmt last_key, True)
                    else case get_tag_value col this_key of
                           None \<Rightarrow> Some (T_Bucket col fmt last_key, False)
                         | Some this_value \<Rightarrow>
                             (case last_assigned_bucket fmt of
                                None \<Rightarrow> Some (T_Bucket col fmt last_key, False)
                              | Some last_bucket \<Rightarrow> do {
                                  (fmt, bucket) \<leftarrow> assign_bucket ext fmt this_value;
                                  Some (T_Bucket col fmt last_key, last_bucket = bucket)
                                }))
      else Some (T_Bucket col fmt last_key, last_key = None))"
| "is_identical ext T_MissingTag idx = Some (T_MissingTag, True)"

text \<open>\<^verbatim>\<open>template.iter_mut().all(..)\<close>, which stops at the first part that differs.\<close>

fun all_identical :: "Partition_Ext \<Rightarrow> 'k Template list \<Rightarrow> nat \<Rightarrow> ('k Template list \<times> bool) option" where
  "all_identical ext [] idx = Some ([], True)"
| "all_identical ext (t # ts) idx = do {
     (t, same) \<leftarrow> is_identical ext t idx;
     if same then do { (ts, r) \<leftarrow> all_identical ext ts idx; Some (t # ts, r) }
     else Some (t # ts, False)
   }"

fun evaluate_template :: "Partition_Ext \<Rightarrow> 'k Template list \<Rightarrow> nat \<Rightarrow> string \<Rightarrow>
    ('k Template list \<times> (PartitionKeyError + string)) option" where
  "evaluate_template ext [] idx buf = Some ([], Inr buf)"
| "evaluate_template ext (col # cols) idx buf = do {
     (col, r) \<leftarrow> fmt_row ext col idx buf;
     (case r of
        Inl e \<Rightarrow> Some (col # cols, Inl e)
      | Inr buf \<Rightarrow> do {
          (cols, r) \<leftarrow> evaluate_template ext cols idx (if cols \<noteq> [] then buf @ [PARTITION_KEY_DELIMITER] else buf);
          Some (col # cols, r)
        })
   }"

subsection \<open>Partition keys of a batch\<close>

definition make_template :: "'k Batch \<Rightarrow> int list \<Rightarrow> TemplatePart \<Rightarrow> 'k Template" where
  "make_template batch time part = (case part of
     TagValue col_name \<Rightarrow> (case batch_column batch col_name of
       None \<Rightarrow> T_MissingTag | Some v \<Rightarrow> T_TagValue v None)
   | TimeFormat fmt \<Rightarrow> T_TimeFormat time (strftime_formatter_new fmt)
   | Bucket col_name num_buckets \<Rightarrow> (case batch_column batch col_name of
       None \<Rightarrow> T_MissingTag | Some v \<Rightarrow> T_Bucket v (bucket_hasher_new num_buckets) None))"

type_synonym key_item = "(PartitionKeyError + string) option"

fun rest_keys :: "Partition_Ext \<Rightarrow> 'k Template list \<Rightarrow> nat list \<Rightarrow> key_item option list" where
  "rest_keys ext template [] = []"
| "rest_keys ext template (idx # idxs) =
     (case all_identical ext template idx of
        None \<Rightarrow> [None]
      | Some (template, True) \<Rightarrow> Some None # rest_keys ext template idxs
      | Some (template, False) \<Rightarrow>
          (case evaluate_template ext template idx [] of
             None \<Rightarrow> [None]
           | Some (template, r) \<Rightarrow> Some (Some r) # rest_keys ext template idxs))"

definition partition_keys :: "Partition_Ext \<Rightarrow> 'k Batch \<Rightarrow> TemplatePart list \<Rightarrow> key_item option list option" where
  "partition_keys ext batch parts = do {
     time \<leftarrow> (case time_column batch of Inl e \<Rightarrow> None | Inr t \<Rightarrow> Some t);
     (template, first) \<leftarrow> evaluate_template ext (map (make_template batch time) parts) 0 [];
     Some (Some (Some first) # rest_keys ext template [1..<num_rows batch])
   }"

text \<open>
  \<^verbatim>\<open>range_encode\<close>: the list of everything the iterator yields, with the last value seen and the current range.
\<close>

fun range_encode :: "'t option option list \<Rightarrow> 't option option \<Rightarrow> nat \<Rightarrow> nat \<Rightarrow> ('t \<times> nat \<times> nat) option list" where
  "range_encode [] None s e = []"
| "range_encode [] (Some next_v) s e = [map_option (\<lambda>v. (v, s, e)) next_v]"
| "range_encode (None # items) last_v s e = [None]"
| "range_encode (Some cur # items) None s e = range_encode items (Some cur) s (e + 1)"
| "range_encode (Some cur # items) (Some next_v) s e =
     (if cur = None then range_encode items (Some next_v) s (e + 1)
      else if cur = next_v then range_encode items (Some next_v) s (e + 1)
      else (case next_v of
              None \<Rightarrow> [None]
            | Some v \<Rightarrow> Some (v, s, e) # range_encode items (Some cur) e (e + 1)))"

definition partition_batch :: "Partition_Ext \<Rightarrow> 'k Batch \<Rightarrow> TablePartitionTemplateOverride \<Rightarrow>
    ((PartitionKeyError + string) \<times> nat \<times> nat) option list option" where
  "partition_batch ext batch template = do {
     assert_that (template_len template \<le> MAXIMUM_NUMBER_OF_TEMPLATE_PARTS);
     items \<leftarrow> partition_keys ext batch (template_parts template);
     Some (range_encode items None 0 0)
   }"

subsection \<open>Partitioned writes\<close>

record 'k PartitionWrite =
  pw_batch :: "'k Batch"
  pw_ranges :: "(nat \<times> nat) list"
  pw_min_timestamp :: int
  pw_max_timestamp :: int
  pw_row_count :: nat

definition min_max_time :: "int list \<Rightarrow> int \<times> int" where
  "min_max_time col = foldl (\<lambda>(mn, mx) t. (min mn t, max mx t)) (i64_max, i64_min) col"

definition partition_write_new :: "'k Batch \<Rightarrow> (PartitionWriteError + 'k PartitionWrite) option" where
  "partition_write_new batch = do {
     assert_that (num_rows batch \<noteq> 0);
     (case time_column batch of
        Inl e \<Rightarrow> Some (Inl (PW_TimeColumn e))
      | Inr time \<Rightarrow>
          (let (mn, mx) = min_max_time time
           in Some (Inr \<lparr>pw_batch = batch, pw_ranges = [(0, num_rows batch)], pw_min_timestamp = mn,
                pw_max_timestamp = mx, pw_row_count = num_rows batch\<rparr>)))
   }"

text \<open>\<^verbatim>\<open>filter_slice\<close> with the state of its \<^verbatim>\<open>FnMut\<close> predicate, and the current range.\<close>

fun filter_slice :: "('s \<Rightarrow> 'a \<Rightarrow> 's \<times> bool) \<Rightarrow> 's \<Rightarrow> 'a list \<Rightarrow> nat \<Rightarrow> nat \<Rightarrow> 's \<times> (nat \<times> nat) list" where
  "filter_slice predicate st [] s e = (st, if s \<noteq> e then [(s, e)] else [])"
| "filter_slice predicate st (value # values) s e =
     (let (st, ok) = predicate st value
      in if ok then filter_slice predicate st values s (e + 1)
         else if s \<noteq> e
         then (let (st, rs) = filter_slice predicate st values (e + 1) (e + 1) in (st, (s, e) # rs))
         else filter_slice predicate st values (s + 1) (e + 1))"

definition slice_range :: "'a list \<Rightarrow> nat \<Rightarrow> nat \<Rightarrow> 'a list option" where
  "slice_range xs s e = do { assert_that (s \<le> e \<and> e \<le> length xs); Some (take (e - s) (drop s xs)) }"

fun filter_ranges :: "('s \<Rightarrow> 'a \<Rightarrow> 's \<times> bool) \<Rightarrow> 's \<Rightarrow> 'a list \<Rightarrow> (nat \<times> nat) list \<Rightarrow> ('s \<times> (nat \<times> nat) list) option" where
  "filter_ranges predicate st col_data [] = Some (st, [])"
| "filter_ranges predicate st col_data ((start, stop) # ranges) = do {
     sl \<leftarrow> slice_range col_data start stop;
     let (st, rs) = filter_slice predicate st sl 0 0;
     (st, rest) \<leftarrow> filter_ranges predicate st col_data ranges;
     Some (st, map (\<lambda>(s, e). (s + start, e + start)) rs @ rest)
   }"

definition filter_time where
  "filter_time batch ranges predicate st = do {
     col_data \<leftarrow> (case time_column batch of Inl e \<Rightarrow> None | Inr t \<Rightarrow> Some t);
     filter_ranges predicate st col_data ranges
   }"

definition partition_write_filter :: "'k PartitionWrite \<Rightarrow> (int \<Rightarrow> bool) \<Rightarrow> 'k PartitionWrite option option" where
  "partition_write_filter self predicate = do {
     let inspect = (\<lambda>(mn, mx, n) t. if predicate t then ((min mn t, max mx t, n + 1), True) else ((mn, mx, n), False));
     ((mn, mx, n), ranges) \<leftarrow> filter_time (pw_batch self) (pw_ranges self) inspect (i64_max, i64_min, 0::nat);
     Some (if n = 0 then None
       else Some \<lparr>pw_batch = pw_batch self, pw_ranges = ranges, pw_min_timestamp = mn, pw_max_timestamp = mx, pw_row_count = n\<rparr>)
   }"

text \<open>A \<^verbatim>\<open>PartitionKey\<close> is a string that is asserted not to be empty.\<close>

type_synonym PartitionKey = string

definition partition_key_from :: "string \<Rightarrow> PartitionKey option" where
  "partition_key_from s = do { assert_that (s \<noteq> []); Some s }"

text \<open>The loop of \<^verbatim>\<open>PartitionWrite::partition\<close> over the items of \<^verbatim>\<open>partition_batch\<close>.\<close>

fun partition_loop :: "'k Batch \<Rightarrow> int list \<Rightarrow> ((PartitionKeyError + string) \<times> nat \<times> nat) option list \<Rightarrow>
    (PartitionKey \<rightharpoonup> 'k PartitionWrite) \<Rightarrow> (PartitionWriteError + (PartitionKey \<rightharpoonup> 'k PartitionWrite)) option" where
  "partition_loop batch time [] m = Some (Inr m)"
| "partition_loop batch time (None # items) m = None"
| "partition_loop batch time (Some (key, s, e) # items) m = do {
     row_count \<leftarrow> checked_sub e s;
     assert_that (row_count \<noteq> 0);
     sl \<leftarrow> slice_range time s e;
     let (mn, mx) = min_max_time sl;
     (case key of
        Inl err \<Rightarrow> Some (Inl (PW_PartitionKey err))
      | Inr k \<Rightarrow> do {
          k \<leftarrow> partition_key_from k;
          partition_loop batch time items (m(k \<mapsto>
            (case m k of
               None \<Rightarrow> \<lparr>pw_batch = batch, pw_ranges = [(s, e)], pw_min_timestamp = mn, pw_max_timestamp = mx, pw_row_count = row_count\<rparr>
             | Some pw \<Rightarrow> pw\<lparr>pw_min_timestamp := min (pw_min_timestamp pw) mn,
                            pw_max_timestamp := max (pw_max_timestamp pw) mx,
                            pw_row_count := pw_row_count pw + row_count,
                            pw_ranges := pw_ranges pw @ [(s, e)]\<rparr>)))
        })
   }"

definition partition_write_partition :: "Partition_Ext \<Rightarrow> 'k Batch \<Rightarrow> TablePartitionTemplateOverride \<Rightarrow>
    (PartitionWriteError + (string \<rightharpoonup> 'k PartitionWrite)) option" where
  "partition_write_partition ext batch partition_template =
     (case time_column batch of
        Inl e \<Rightarrow> Some (Inl (PW_TimeColumn e))
      | Inr time \<Rightarrow> do {
          items \<leftarrow> partition_batch ext batch partition_template;
          partition_loop batch time items Map.empty
        })"

end
