(* ===== verification/Partition_Time.thy ===== *)
theory Partition_Time
  imports Partition_Template
begin

text \<open>
  What reading back the time part of a partition key means (\<^verbatim>\<open>parse_part_time_format\<close> and
  \<^verbatim>\<open>parsed_implicit_defaults\<close> of \<^verbatim>\<open>data_types/src/partition_template.rs\<close>), stated without the parser: a format of year, month and
  day fields stands for its finest unit, and the part is read as the interval of exactly the times that agree with
  the row's time down to that unit. The calendar is a parameter, and \<open>utc_calendar\<close> is what is relied on of
  chrono: setting absent fields, conversion of a date to a time, and addition of days and months.
\<close>

record Calendar =
  year_of :: "int \<Rightarrow> int"
  month_of :: "int \<Rightarrow> int"
  day_of :: "int \<Rightarrow> int"

text \<open>Two times in the same year, month or day.\<close>

fun same_unit :: "Calendar \<Rightarrow> Numeric \<Rightarrow> int \<Rightarrow> int \<Rightarrow> bool" where
  "same_unit cal Year t ts \<longleftrightarrow> year_of cal t = year_of cal ts"
| "same_unit cal Month t ts \<longleftrightarrow> year_of cal t = year_of cal ts \<and> month_of cal t = month_of cal ts"
| "same_unit cal _ t ts \<longleftrightarrow> year_of cal t = year_of cal ts \<and> month_of cal t = month_of cal ts \<and> day_of cal t = day_of cal ts"

definition finest :: "Item list \<Rightarrow> Numeric" where
  "finest items = (if Item_Numeric Day \<in> set items then Day else if Item_Numeric Month \<in> set items then Month else Year)"

text \<open>A format of a year, of a year and a month, or of a full date.\<close>

definition date_format :: "Item list \<Rightarrow> bool" where
  "date_format items \<longleftrightarrow> set items \<subseteq> {Literal, Space, Item_Numeric Year, Item_Numeric Month, Item_Numeric Day}
     \<and> Item_Numeric Year \<in> set items \<and> (Item_Numeric Day \<in> set items \<longrightarrow> Item_Numeric Month \<in> set items)"

text \<open>The fields a rendered time has, the first day of the unit a time is in, and a date with its hour and minute set.\<close>

definition rendered_fields :: "Calendar \<Rightarrow> Item list \<Rightarrow> int \<Rightarrow> Parsed" where
  "rendered_fields cal items ts = \<lparr>p_year = Some (year_of cal ts),
     p_month = (if Item_Numeric Month \<in> set items then Some (month_of cal ts) else None),
     p_day = (if Item_Numeric Day \<in> set items then Some (day_of cal ts) else None),
     p_hour_div_12 = None, p_hour_mod_12 = None, p_minute = None, p_second = None, p_nanosecond = None\<rparr>"

fun first_day :: "Calendar \<Rightarrow> Numeric \<Rightarrow> int \<Rightarrow> int \<times> int \<times> int" where
  "first_day cal Year ts = (year_of cal ts, 1, 1)"
| "first_day cal Month ts = (year_of cal ts, month_of cal ts, 1)"
| "first_day cal _ ts = (year_of cal ts, month_of cal ts, day_of cal ts)"

definition full_date :: "int \<times> int \<times> int \<Rightarrow> Parsed" where
  "full_date = (\<lambda>(y, m, d). \<lparr>p_year = Some y, p_month = Some m, p_day = Some d,
     p_hour_div_12 = Some 0, p_hour_mod_12 = Some 0, p_minute = Some 0, p_second = None, p_nanosecond = None\<rparr>)"

text \<open>
  Documented behaviour of chrono: a setter fills an absent field; the first day of a year, month or day that has a
  64-bit time in it stands for the first time of that unit; a day, a month and twelve months can be added to that time, each gives
  a time no earlier than the one before, and the one that belongs to the unit leads to its end.
\<close>

definition utc_calendar :: "Chrono \<Rightarrow> Calendar \<Rightarrow> bool" where
  "utc_calendar chrono cal \<longleftrightarrow>
     (\<forall>p. p_month p = None \<longrightarrow> set_month chrono 1 p = Some (p\<lparr>p_month := Some 1\<rparr>))
   \<and> (\<forall>p. p_day p = None \<longrightarrow> set_day chrono 1 p = Some (p\<lparr>p_day := Some 1\<rparr>))
   \<and> (\<forall>p. p_hour_div_12 p = None \<and> p_hour_mod_12 p = None \<longrightarrow>
        set_hour chrono 0 p = Some (p\<lparr>p_hour_div_12 := Some 0, p_hour_mod_12 := Some 0\<rparr>))
   \<and> (\<forall>p. p_minute p = None \<longrightarrow> set_minute chrono 0 p = Some (p\<lparr>p_minute := Some 0\<rparr>))
   \<and> (\<forall>ts n. in_i64 ts \<and> n \<noteq> Other_Numeric \<longrightarrow>
        (\<exists>b d m y. to_datetime chrono (full_date (first_day cal n ts)) = Some b
          \<and> add_days chrono b 1 = Some d \<and> add_months chrono b 1 = Some m \<and> add_months chrono b 12 = Some y \<and> d \<le> m \<and> m \<le> y
          \<and> (\<forall>t. b \<le> t \<and> t < (case n of Year \<Rightarrow> y | Month \<Rightarrow> m | _ \<Rightarrow> d) \<longleftrightarrow> same_unit cal n t ts)))"

lemma defaults_fill:
  assumes "utc_calendar chrono cal" "date_format items"
  shows "parsed_implicit_defaults chrono (rendered_fields cal items ts) = Some (full_date (first_day cal (finest items) ts))"
  using assms by (auto simp: utc_calendar_def date_format_def parsed_implicit_defaults_def rendered_fields_def finest_def full_date_def)

lemma time_end_loop_defined:
  assumes "set items \<subseteq> {Literal, Space, Item_Numeric Year, Item_Numeric Month, Item_Numeric Day}"
    and "add_days chrono b 1 = Some d" "add_months chrono b 1 = Some m" "add_months chrono b 12 = Some y"
  shows "\<exists>e. time_end_loop chrono b items e0 = Some (Some e) \<and> (e0 \<noteq> None \<or> Item_Numeric Year \<in> set items \<longrightarrow> e \<noteq> None)"
  using assms(1)
proof (induction items arbitrary: e0)
  case (Cons item items)
  then have IH: "\<And>e0. \<exists>e. time_end_loop chrono b items e0 = Some (Some e) \<and> (e0 \<noteq> None \<or> Item_Numeric Year \<in> set items \<longrightarrow> e \<noteq> None)" by simp
  consider "item = Literal \<or> item = Space" | n where "item = Item_Numeric n" "n \<noteq> Other_Numeric" using Cons.prems by fastforce
  then show ?case
  proof cases
    case 1
    then show ?thesis using IH [of e0] by auto
  next
    case (2 n)
    obtain x where x: "(case n of Year \<Rightarrow> add_months chrono b 12 | Month \<Rightarrow> add_months chrono b 1 | _ \<Rightarrow> add_days chrono b 1) = Some x"
      using assms(2-4) by (cases n) auto
    let ?e = "case e0 of Some a \<Rightarrow> if a - b < x - b then Some a else Some x | None \<Rightarrow> Some x"
    have "time_end_loop chrono b (item # items) e0 = time_end_loop chrono b items ?e" using 2 x by (cases n) simp_all
    then show ?thesis using IH [of ?e] by (auto split: option.splits if_splits)
  qed
qed simp

text \<open>The interval read from a rendered time is its finest unit.\<close>

lemma time_part_back:
  assumes cal: "utc_calendar chrono cal" and fmt: "date_format (strftime_items chrono f)" and ts: "in_i64 ts"
    and parse: "chrono_parse chrono r f = Some (rendered_fields cal (strftime_items chrono f) ts)"
  shows "\<exists>b e. parse_part_time_format chrono r f = Some (Some (Datetime b e))
    \<and> (\<forall>t. b \<le> t \<and> t < e \<longleftrightarrow> same_unit cal (finest (strftime_items chrono f)) t ts)"
proof -
  let ?items = "strftime_items chrono f"
  let ?n = "finest ?items"
  have n: "?n \<noteq> Other_Numeric" "Item_Numeric ?n \<in> set ?items" using fmt by (auto simp: finest_def date_format_def)
  obtain b d m y where u: "to_datetime chrono (full_date (first_day cal ?n ts)) = Some b"
      "add_days chrono b 1 = Some d" "add_months chrono b 1 = Some m" "add_months chrono b 12 = Some y" "d \<le> m" "m \<le> y"
      "\<And>t. b \<le> t \<and> t < (case ?n of Year \<Rightarrow> y | Month \<Rightarrow> m | _ \<Rightarrow> d) \<longleftrightarrow> same_unit cal ?n t ts"
    using cal ts n(1) unfolding utc_calendar_def by metis
  have sub: "set ?items \<subseteq> {Literal, Space, Item_Numeric Year, Item_Numeric Month, Item_Numeric Day}" "Item_Numeric Year \<in> set ?items"
    using fmt by (simp_all add: date_format_def)
  obtain e where e: "time_end_loop chrono b ?items None = Some (Some (Some e))"
    using time_end_loop_defined [OF sub(1) u(2-4), of None] sub(2) by auto
  note least = time_end_loop_least [OF e]
  have finest_end: "numeric_end chrono b ?n = Some (case ?n of Year \<Rightarrow> y | Month \<Rightarrow> m | _ \<Rightarrow> d)"
    using u(2-4) n(1) by (cases ?n) (simp_all add: numeric_end_def)
  then have "e \<le> (case ?n of Year \<Rightarrow> y | Month \<Rightarrow> m | _ \<Rightarrow> d)" using least n(2) by auto
  moreover obtain k where k: "Item_Numeric k \<in> set ?items" "numeric_end chrono b k = Some e" using least by auto
  then have "(case ?n of Year \<Rightarrow> y | Month \<Rightarrow> m | _ \<Rightarrow> d) \<le> e"
    using u(2-6) by (cases k) (auto simp: numeric_end_def finest_def)
  ultimately have "e = (case ?n of Year \<Rightarrow> y | Month \<Rightarrow> m | _ \<Rightarrow> d)" by simp
  moreover have "parse_part_time_format chrono r f = Some (Some (Datetime b e))"
    using parse defaults_fill [OF cal fmt] u(1) e by (simp add: parse_part_time_format_def)
  ultimately show ?thesis using u(7) by blast
qed

end
