(* ===== verification/Partition_Facts.thy ===== *)
theory Partition_Facts
  imports Partitioner Partition_Time
begin

text \<open>
  Correctness of the partitioner: the text of each key part, the invariants of the caching formatter and of
  the templates that remember the last rendered row, and the resulting keys, ranges and partitioned writes.
\<close>

subsection \<open>The text of a key part\<close>

definition encoded :: "Partition_Ext \<Rightarrow> string \<Rightarrow> string" where
  "encoded ext s =
     (if utf8_percent_encode ext s = [] then PARTITION_KEY_VALUE_EMPTY_STR
      else if length (utf8_percent_encode ext s) \<le> PARTITION_KEY_MAX_PART_LEN then utf8_percent_encode ext s
      else concat (take_bytes 0 (map (utf8_percent_encode ext) (graphemes ext s))) @ [PARTITION_KEY_PART_TRUNCATED])"

lemma take_bytes_length:
  "bytes < PARTITION_KEY_MAX_PART_LEN \<Longrightarrow> bytes + length (concat (take_bytes bytes vs)) < PARTITION_KEY_MAX_PART_LEN"
proof (induction vs arbitrary: bytes)
  case (Cons v vs)
  then show ?case using Cons.IH [of "bytes + length v"] by (auto simp: add.assoc)
qed simp

lemma encode_key_part_total [simp]: "encode_key_part ext s = Some (encoded ext s)"
  using take_bytes_length [of 0 "map (utf8_percent_encode ext) (graphemes ext s)"]
  by (auto simp: encode_key_part_def encoded_def Let_def PARTITION_KEY_MAX_PART_LEN_def)

lemma encoded_bounds: "encoded ext s \<noteq> []" "length (encoded ext s) \<le> PARTITION_KEY_MAX_PART_LEN"
  using take_bytes_length [of 0 "map (utf8_percent_encode ext) (graphemes ext s)"]
  by (auto simp: encoded_def PARTITION_KEY_VALUE_EMPTY_STR_def PARTITION_KEY_MAX_PART_LEN_def)

text \<open>
  The reference: the text of one template part for one row, computed from scratch. \<open>None\<close> where the code
  reports an error or panics.
\<close>

definition part_text :: "Partition_Ext \<Rightarrow> 'k Batch \<Rightarrow> int list \<Rightarrow> nat \<Rightarrow> TemplatePart \<Rightarrow> string option" where
  "part_text ext batch time i part = (case part of
     TagValue col \<Rightarrow> (case batch_column batch col of
       None \<Rightarrow> Some PARTITION_KEY_VALUE_NULL_STR
     | Some c \<Rightarrow> if is_valid c i then do {
           k \<leftarrow> get_tag_identity_key c i; v \<leftarrow> get_tag_value c k; Some (encoded ext v) }
         else Some PARTITION_KEY_VALUE_NULL_STR)
   | TimeFormat fmt \<Rightarrow> do { ts \<leftarrow> nth_opt time i; r \<leftarrow> format_with_items ext fmt ts; Some (encoded ext r) }
   | Bucket col n \<Rightarrow> (case batch_column batch col of
       None \<Rightarrow> Some PARTITION_KEY_VALUE_NULL_STR
     | Some c \<Rightarrow> if is_valid c i then do {
           k \<leftarrow> get_tag_identity_key c i; v \<leftarrow> get_tag_value c k;
           b \<leftarrow> bucket_for_tag_value (murmur3_32 ext) v n; Some (nat_fmt b) }
         else Some PARTITION_KEY_VALUE_NULL_STR))"

fun join_parts :: "string list \<Rightarrow> string" where
  "join_parts [] = []"
| "join_parts [p] = p"
| "join_parts (p # q # ps) = p @ PARTITION_KEY_DELIMITER # join_parts (q # ps)"

definition row_key :: "Partition_Ext \<Rightarrow> 'k Batch \<Rightarrow> int list \<Rightarrow> TemplatePart list \<Rightarrow> nat \<Rightarrow> string option" where
  "row_key ext batch time parts i = map_option join_parts (those (map (part_text ext batch time i) parts))"

lemma those_Some_iff: "those xs = Some ys \<longleftrightarrow> xs = map Some ys"
  by (induction xs arbitrary: ys) (auto split: option.splits simp: Cons_eq_map_conv)

subsection \<open>The caching formatter\<close>

text \<open>Documented behaviour of chrono: a date printed without a time of day depends on the day only.\<close>

definition ymd_by_day :: "Partition_Ext \<Rightarrow> bool" where
  "ymd_by_day ext \<longleftrightarrow> (\<forall>t \<ge> 0. format_with_items ext YMD_SPEC (t - t mod DAY_NANOSECONDS) = format_with_items ext YMD_SPEC t)"

definition formatter_inv :: "Partition_Ext \<Rightarrow> string \<Rightarrow> StrftimeFormatter \<Rightarrow> bool" where
  "formatter_inv ext f sf \<longleftrightarrow> sf_format sf = f \<and> is_ymd_format sf = (f = YMD_SPEC)
     \<and> length (rb_buf (sf_values sf)) = 5 \<and> rb_last_idx (sf_values sf) < 5
     \<and> (\<forall>t s. Some (t, s) \<in> set (rb_buf (sf_values sf)) \<longrightarrow> (\<exists>r. format_with_items ext f t = Some r \<and> s = encoded ext r))"

lemma formatter_inv_new: "formatter_inv ext f (strftime_formatter_new f)"
  by (auto simp: formatter_inv_def strftime_formatter_new_def ring_buffer_default_def)

lemma ring_find_Some: "ring_find f vs = Some v \<Longrightarrow> Some v \<in> set vs \<and> f v"
  by (induction f vs rule: ring_find.induct) (auto split: if_splits)

lemma maybe_reduce_format:
  assumes "formatter_inv ext f sf" "ymd_by_day ext"
  shows "format_with_items ext f (maybe_reduce sf t) = format_with_items ext f t"
  using assms by (auto simp: formatter_inv_def maybe_reduce_def ymd_by_day_def DAY_NANOSECONDS_def)

lemma render_ok:
  assumes inv: "formatter_inv ext f sf" and day: "ymd_by_day ext" and r: "format_with_items ext f ts = Some r"
  shows "\<exists>sf'. render ext sf ts out = Some (sf', Inr (out @ encoded ext r)) \<and> formatter_inv ext f sf'
    \<and> last_ts sf' = Some (maybe_reduce sf' ts)"
proof -
  define t where "t = maybe_reduce sf ts"
  have red: "maybe_reduce (sf\<lparr>last_ts := a, sf_values := b\<rparr>) ts = t" "maybe_reduce (sf\<lparr>last_ts := a\<rparr>) ts = t" for a b
    by (simp_all add: t_def maybe_reduce_def)
  have ft: "format_with_items ext f t = Some r" unfolding t_def using maybe_reduce_format [OF inv day] r by simp
  show ?thesis
  proof (cases "ring_find (\<lambda>(t', v). t' = t) (rb_buf (sf_values sf))")
    case (Some v)
    then have "Some v \<in> set (rb_buf (sf_values sf))" "fst v = t" by (auto dest: ring_find_Some)
    moreover from this obtain b where "v = (t, b)" by (cases v) auto
    ultimately have "\<exists>r'. format_with_items ext f t = Some r' \<and> snd v = encoded ext r'"
      using inv by (simp add: formatter_inv_def)
    then have "snd v = encoded ext r" using ft by auto
    with Some inv show ?thesis
      by (intro exI [of _ "sf\<lparr>last_ts := Some t\<rparr>"])
        (simp add: render_def Let_def t_def [symmetric] red formatter_inv_def)
  next
    case None
    define vals where "vals = next_slot (0, []) (sf_values sf)"
    define sf' where "sf' = sf\<lparr>last_ts := Some t, sf_values := write_slot (t, encoded ext r) vals\<rparr>"
    have v: "length (rb_buf vals) = 5" "rb_last_idx vals < 5"
      using inv by (auto simp: vals_def next_slot_def Let_def formatter_inv_def)
    have sub: "set (rb_buf (write_slot x vals)) \<subseteq> insert (Some x) (set (rb_buf (sf_values sf)))" for x
    proof -
      define l where "l = (rb_last_idx (sf_values sf) + 1) mod length (rb_buf (sf_values sf))"
      have "rb_buf (write_slot x vals) = (rb_buf (sf_values sf))[l := Some x]"
        by (simp add: write_slot_def vals_def next_slot_def Let_def l_def)
      then show ?thesis by (simp add: set_update_subset_insert)
    qed
    have "formatter_inv ext f sf'"
      using inv v sub [of "(t, encoded ext r)"] ft
      by (auto simp: formatter_inv_def sf'_def write_slot_def)
    moreover have "render ext sf ts out = Some (sf', Inr (out @ encoded ext r))"
      using None inv ft
      by (simp add: render_def Let_def t_def [symmetric] vals_def [symmetric] sf'_def formatter_inv_def)
    ultimately show ?thesis by (auto simp: sf'_def red)
  qed
qed

subsection \<open>Templates\<close>

text \<open>A template state that belongs to a part of the batch's template.\<close>

fun template_for :: "Partition_Ext \<Rightarrow> 'k Batch \<Rightarrow> int list \<Rightarrow> TemplatePart \<Rightarrow> 'k Template \<Rightarrow> bool" where
  "template_for ext batch time (TagValue col) t = (case batch_column batch col of
     None \<Rightarrow> t = T_MissingTag | Some c \<Rightarrow> (\<exists>lk. t = T_TagValue c lk))"
| "template_for ext batch time (Bucket col n) t = (case batch_column batch col of
     None \<Rightarrow> t = T_MissingTag | Some c \<Rightarrow> (\<exists>h lk. t = T_Bucket c h lk \<and> bh_num_buckets h = n))"
| "template_for ext batch time (TimeFormat f) t = (\<exists>sf. t = T_TimeFormat time sf \<and> formatter_inv ext f sf)"

definition column_bucket :: "Partition_Ext \<Rightarrow> 'k PartitioningColumn \<Rightarrow> nat \<Rightarrow> 'k \<Rightarrow> nat option" where
  "column_bucket ext c n k = do { v \<leftarrow> get_tag_value c k; bucket_for_tag_value (murmur3_32 ext) v n }"

text \<open>A template state that, in addition, remembers the text of row \<open>j\<close>.\<close>

fun remembers :: "Partition_Ext \<Rightarrow> 'k Batch \<Rightarrow> int list \<Rightarrow> nat \<Rightarrow> TemplatePart \<Rightarrow> 'k Template \<Rightarrow> bool" where
  "remembers ext batch time j (TagValue col) t = (case batch_column batch col of
     None \<Rightarrow> t = T_MissingTag
   | Some c \<Rightarrow> t = T_TagValue c (if is_valid c j then get_tag_identity_key c j else None)
       \<and> (is_valid c j \<longrightarrow> get_tag_identity_key c j \<noteq> None))"
| "remembers ext batch time j (Bucket col n) t = (case batch_column batch col of
     None \<Rightarrow> t = T_MissingTag
   | Some c \<Rightarrow>
       if is_valid c j
       then \<exists>h k k' b. get_tag_identity_key c j = Some k \<and> column_bucket ext c n k = Some b
         \<and> t = T_Bucket c h (Some k') \<and> column_bucket ext c n k' = Some b
         \<and> last_assigned_bucket h = Some b \<and> bh_num_buckets h = n
       else \<exists>h. t = T_Bucket c h None \<and> bh_num_buckets h = n)"
| "remembers ext batch time j (TimeFormat f) t = (\<exists>sf. t = T_TimeFormat time sf \<and> formatter_inv ext f sf
     \<and> j < length time \<and> last_ts sf = Some (maybe_reduce sf (time ! j)))"

lemma remembers_template_for: "remembers ext batch time j part t \<Longrightarrow> template_for ext batch time part t"
  by (cases part) (auto split: option.splits if_splits)

lemma make_template_for: "template_for ext batch time part (make_template batch time part)"
  by (cases part) (auto simp: make_template_def formatter_inv_new bucket_hasher_new_def split: option.splits)

lemma fmt_row_ok:
  assumes t: "template_for ext batch time part t" and day: "ymd_by_day ext"
    and s: "part_text ext batch time i part = Some s"
  shows "\<exists>t'. fmt_row ext t i out = Some (t', Inr (out @ s)) \<and> remembers ext batch time i part t'"
proof (cases part)
  case (TagValue col)
  with t s show ?thesis
    by (auto simp: part_text_def split: option.splits if_splits bind_splits)
next
  case (Bucket col n)
  show ?thesis
  proof (cases "batch_column batch col")
    case None
    with Bucket t s show ?thesis by (auto simp: part_text_def)
  next
    case (Some c)
    with Bucket t obtain h lk where h: "t = T_Bucket c h lk" "bh_num_buckets h = n" by auto
    show ?thesis
    proof (cases "is_valid c i")
      case True
      with Bucket s Some obtain k v b where k: "get_tag_identity_key c i = Some k" "get_tag_value c k = Some v"
          "bucket_for_tag_value (murmur3_32 ext) v n = Some b" "s = nat_fmt b"
        by (auto simp: part_text_def split: bind_splits)
      then have "column_bucket ext c n k = Some b" by (simp add: column_bucket_def)
      then show ?thesis using Bucket Some h True k by (simp add: assign_bucket_def)
    qed (use Bucket s Some h in \<open>simp add: part_text_def\<close>)
  qed
next
  case (TimeFormat f)
  with t obtain sf where sf: "t = T_TimeFormat time sf" "formatter_inv ext f sf" by auto
  from TimeFormat s obtain r where i: "i < length time" and r: "format_with_items ext f (time ! i) = Some r" "s = encoded ext r"
    by (auto simp: part_text_def nth_opt_def split: if_splits bind_splits)
  from render_ok [OF sf(2) day r(1), of out] show ?thesis
    using TimeFormat sf i r by (auto simp: nth_opt_def)
qed

lemma part_text_TimeFormat:
  "part_text ext batch time i (TimeFormat f) = Some s \<longleftrightarrow>
    i < length time \<and> (\<exists>r. format_with_items ext f (time ! i) = Some r \<and> s = encoded ext r)"
  by (auto simp: part_text_def nth_opt_def split: bind_splits)

lemma part_text_Bucket_valid:
  assumes "batch_column batch col = Some c" "is_valid c i"
  shows "part_text ext batch time i (Bucket col n) = Some s \<longleftrightarrow>
    (\<exists>k b. get_tag_identity_key c i = Some k \<and> column_bucket ext c n k = Some b \<and> s = nat_fmt b)"
  using assms by (auto simp: part_text_def column_bucket_def split: bind_splits)

text \<open>
  The identity check never panics on a row that has a text; a positive answer means the same text, and the
  state then remembers the new row as well.
\<close>

definition identity_verdict where
  "identity_verdict ext batch time i j part t t' same \<longleftrightarrow> template_for ext batch time part t' \<and>
     (same \<longrightarrow> remembers ext batch time i part t' \<and> part_text ext batch time i part = part_text ext batch time j part)"

lemma is_identical_bucket:
  assumes t: "remembers ext batch time j (Bucket col n) t"
    and s: "part_text ext batch time i (Bucket col n) = Some s"
    and c: "batch_column batch col = Some c" and v: "is_valid c i"
  shows "\<exists>t' same. is_identical ext t i = Some (t', same) \<and> identity_verdict ext batch time i j (Bucket col n) t t' same"
proof -
  from s c v obtain k b where k: "get_tag_identity_key c i = Some k" "column_bucket ext c n k = Some b" "s = nat_fmt b"
    by (auto simp: part_text_Bucket_valid)
  show ?thesis
  proof (cases "is_valid c j")
    case False
    with t c obtain h where "t = T_Bucket c h None" "bh_num_buckets h = n" by auto
    then show ?thesis using c v k by (auto simp: identity_verdict_def)
  next
    case True
    with t c obtain h kj k' b' where h: "get_tag_identity_key c j = Some kj" "column_bucket ext c n kj = Some b'"
        "t = T_Bucket c h (Some k')" "column_bucket ext c n k' = Some b'" "last_assigned_bucket h = Some b'" "bh_num_buckets h = n"
      by auto
    have tj: "part_text ext batch time j (Bucket col n) = Some (nat_fmt b')"
      using part_text_Bucket_valid [OF c True] h by blast
    show ?thesis
    proof (cases "k = k'")
      case True
      with k h have "b = b'" by simp
      then show ?thesis using c v k h tj s True by (auto simp: identity_verdict_def)
    next
      case False
      from k obtain x where x: "get_tag_value c k = Some x" "bucket_for_tag_value (murmur3_32 ext) x n = Some b"
        by (auto simp: column_bucket_def split: bind_splits)
      show ?thesis
      proof (cases "b = b'")
        case True
        then show ?thesis using c v k h tj s x False by (auto simp: identity_verdict_def assign_bucket_def)
      next
        case ne: False
        then show ?thesis using c v k h x False by (auto simp: identity_verdict_def assign_bucket_def)
      qed
    qed
  qed
qed

lemma is_identical_ok:
  assumes t: "remembers ext batch time j part t" and day: "ymd_by_day ext"
    and s: "part_text ext batch time i part = Some s"
  shows "\<exists>t' same. is_identical ext t i = Some (t', same) \<and> identity_verdict ext batch time i j part t t' same"
proof (cases part)
  case (TagValue col)
  with t s show ?thesis
    by (auto simp: identity_verdict_def part_text_def split: option.splits if_splits bind_splits)
next
  case (Bucket col n)
  show ?thesis
  proof (cases "batch_column batch col")
    case (Some c)
    show ?thesis
    proof (cases "is_valid c i")
      case True
      then show ?thesis using is_identical_bucket t s Bucket Some by blast
    next
      case False
      then show ?thesis using t s Bucket Some
        by (auto simp: identity_verdict_def part_text_def split: if_splits)
    qed
  qed (use Bucket t s in \<open>auto simp: identity_verdict_def part_text_def\<close>)
next
  case (TimeFormat f)
  with t obtain sf where sf: "t = T_TimeFormat time sf" "formatter_inv ext f sf" "j < length time"
      "last_ts sf = Some (maybe_reduce sf (time ! j))" by auto
  have i: "i < length time" using s TimeFormat by (simp add: part_text_TimeFormat)
  have "part_text ext batch time i part = part_text ext batch time j part"
    if "maybe_reduce sf (time ! i) = maybe_reduce sf (time ! j)"
  proof -
    have "format_with_items ext f (time ! i) = format_with_items ext f (time ! j)"
      using maybe_reduce_format [OF sf(2) day] that by metis
    then show ?thesis using TimeFormat i sf(3) by (simp add: part_text_def nth_opt_def)
  qed
  then show ?thesis
    using TimeFormat sf i by (auto simp: identity_verdict_def nth_opt_def equals_last_def Let_def)
qed

text \<open>The whole template.\<close>

abbreviation templates_for where
  "templates_for ext batch time \<equiv> list_all2 (template_for ext batch time)"

abbreviation all_remember where
  "all_remember ext batch time j \<equiv> list_all2 (remembers ext batch time j)"

lemma all_remember_templates_for: "all_remember ext batch time j ps ts \<Longrightarrow> templates_for ext batch time ps ts"
  by (erule list_all2_mono) (rule remembers_template_for)

lemma all_identical_ok:
  assumes "all_remember ext batch time j ps ts" "ymd_by_day ext"
    "map (part_text ext batch time i) ps = map Some ss"
  shows "\<exists>ts' same. all_identical ext ts i = Some (ts', same) \<and> templates_for ext batch time ps ts'
    \<and> (same \<longrightarrow> all_remember ext batch time i ps ts' \<and> map (part_text ext batch time i) ps = map (part_text ext batch time j) ps)"
  using assms
proof (induction ps ts arbitrary: ss rule: list_all2_induct)
  case (Cons p ps t ts)
  then obtain s ss' where ss: "part_text ext batch time i p = Some s" "map (part_text ext batch time i) ps = map Some ss'"
    by (auto simp: Cons_eq_map_conv)
  from is_identical_ok [OF Cons(1) Cons.prems(1) ss(1)] obtain t' same
    where t': "is_identical ext t i = Some (t', same)" "identity_verdict ext batch time i j p t t' same" by blast
  from Cons.IH [OF Cons.prems(1) ss(2)] obtain ts' same'
    where ts': "all_identical ext ts i = Some (ts', same')" "templates_for ext batch time ps ts'"
      "same' \<longrightarrow> all_remember ext batch time i ps ts' \<and> map (part_text ext batch time i) ps = map (part_text ext batch time j) ps"
    by blast
  show ?case
  proof (cases same)
    case True
    then show ?thesis using t' ts' by (simp add: identity_verdict_def)
  next
    case False
    then show ?thesis using t' all_remember_templates_for [OF Cons(2)] by (auto simp: identity_verdict_def)
  qed
qed auto

lemma evaluate_template_ok:
  assumes "templates_for ext batch time ps ts" "ymd_by_day ext"
    "map (part_text ext batch time i) ps = map Some ss"
  shows "\<exists>ts'. evaluate_template ext ts i buf = Some (ts', Inr (buf @ join_parts ss)) \<and> all_remember ext batch time i ps ts'"
  using assms
proof (induction ps ts arbitrary: ss buf rule: list_all2_induct)
  case (Cons p ps t ts)
  then obtain s ss' where ss: "ss = s # ss'" "part_text ext batch time i p = Some s" "map (part_text ext batch time i) ps = map Some ss'"
    by (auto simp: Cons_eq_map_conv)
  from fmt_row_ok [OF Cons(1) Cons.prems(1) ss(2)] obtain t'
    where t': "fmt_row ext t i buf = Some (t', Inr (buf @ s))" "remembers ext batch time i p t'" by blast
  define buf' where "buf' = (if ts \<noteq> [] then (buf @ s) @ [PARTITION_KEY_DELIMITER] else buf @ s)"
  from Cons.IH [OF Cons.prems(1) ss(3), of buf'] obtain ts'
    where ts': "evaluate_template ext ts i buf' = Some (ts', Inr (buf' @ join_parts ss'))" "all_remember ext batch time i ps ts'"
    by blast
  have "ts = [] \<longleftrightarrow> ss' = []" using Cons(2) ss(3) by (auto dest: list_all2_lengthD)
  then have "buf' @ join_parts ss' = buf @ join_parts ss"
    by (cases ss') (auto simp: buf'_def ss(1))
  then show ?case using t' ts' by (simp add: buf'_def [symmetric])
qed simp

subsection \<open>Keys of all rows\<close>

text \<open>\<open>items\<close> is a deduplicated form of \<open>keys\<close>, following the key \<open>p\<close>.\<close>

fun dedups :: "'a \<Rightarrow> 'a option list \<Rightarrow> 'a list \<Rightarrow> bool" where
  "dedups p [] [] = True"
| "dedups p (None # items) (k # ks) = (k = p \<and> dedups p items ks)"
| "dedups p (Some x # items) (k # ks) = (x = k \<and> dedups k items ks)"
| "dedups p _ _ = False"

lemma row_key_Some:
  "row_key ext batch time ps i = Some k \<longleftrightarrow> (\<exists>ss. map (part_text ext batch time i) ps = map Some ss \<and> k = join_parts ss)"
  by (auto simp: row_key_def those_Some_iff)

lemma rest_keys_ok:
  assumes "all_remember ext batch time j ps ts" "ymd_by_day ext" "row_key ext batch time ps j = Some kj"
    "\<And>i. i \<in> set idxs \<Longrightarrow> row_key ext batch time ps i = Some (key i)"
  shows "\<exists>items. rest_keys ext ts idxs = map Some items \<and> dedups (Inr kj) items (map (\<lambda>i. Inr (key i)) idxs)"
  using assms
proof (induction idxs arbitrary: ts j kj)
  case (Cons i idxs)
  from Cons.prems(4) [of i] obtain ss where ss: "map (part_text ext batch time i) ps = map Some ss" "key i = join_parts ss"
    by (auto simp: row_key_Some)
  from all_identical_ok [OF Cons.prems(1,2) ss(1)] obtain ts' same
    where ts': "all_identical ext ts i = Some (ts', same)" "templates_for ext batch time ps ts'"
      "same \<longrightarrow> all_remember ext batch time i ps ts' \<and> map (part_text ext batch time i) ps = map (part_text ext batch time j) ps"
    by blast
  have ki: "row_key ext batch time ps i = Some (key i)" using Cons.prems(4) by simp
  show ?case
  proof (cases same)
    case True
    with ts' have "map (part_text ext batch time i) ps = map (part_text ext batch time j) ps" by blast
    then have "row_key ext batch time ps i = row_key ext batch time ps j" by (simp only: row_key_def)
    with ki Cons.prems(3) have "key i = kj" by simp
    moreover from Cons.IH [of i ts', OF _ Cons.prems(2) ki] True ts' Cons.prems(4)
    obtain items where "rest_keys ext ts' idxs = map Some items" "dedups (Inr (key i)) items (map (\<lambda>i. Inr (key i)) idxs)"
      by auto
    ultimately show ?thesis using True ts'(1) by (intro exI [of _ "None # items"]) simp
  next
    case False
    from evaluate_template_ok [OF ts'(2) Cons.prems(2) ss(1), of "[]"] obtain ts''
      where ts'': "evaluate_template ext ts' i [] = Some (ts'', Inr (key i))" "all_remember ext batch time i ps ts''"
      by (auto simp: ss(2))
    from Cons.IH [OF ts''(2) Cons.prems(2) ki] Cons.prems(4)
    obtain items where "rest_keys ext ts'' idxs = map Some items" "dedups (Inr (key i)) items (map (\<lambda>i. Inr (key i)) idxs)"
      by auto
    then show ?thesis using False ts'(1) ts''(1) by (intro exI [of _ "Some (Inr (key i)) # items"]) simp
  qed
qed simp

text \<open>Reference run-length encoding.\<close>

fun runs :: "'a \<Rightarrow> nat \<Rightarrow> nat \<Rightarrow> 'a list \<Rightarrow> ('a \<times> nat \<times> nat) list" where
  "runs p s e [] = [(p, s, e)]"
| "runs p s e (k # ks) = (if k = p then runs p s (e + 1) ks else (p, s, e) # runs k e (e + 1) ks)"

lemma range_encode_runs:
  "dedups p items ks \<Longrightarrow> range_encode (map Some items) (Some (Some p)) s e = map Some (runs p s e ks)"
  by (induction p items ks arbitrary: s e rule: dedups.induct) auto

fun contiguous :: "nat \<Rightarrow> nat \<Rightarrow> ('a \<times> nat \<times> nat) list \<Rightarrow> bool" where
  "contiguous s n [] = (s = n)"
| "contiguous s n ((k, a, b) # rs) = (a = s \<and> a < b \<and> contiguous b n rs)"

lemma contiguous_le: "contiguous s n rs \<Longrightarrow> s \<le> n"
  by (induction rs arbitrary: s) fastforce+

lemma runs_contiguous: "s < e \<Longrightarrow> contiguous s (e + length ks) (runs p s e ks)"
proof (induction ks arbitrary: p s e)
  case (Cons k ks)
  then show ?case using Cons.IH [of s "e + 1" p] Cons.IH [of e "e + 1" k] by simp
qed simp

lemma runs_expand:
  "s \<le> e \<Longrightarrow> concat (map (\<lambda>(k, a, b). replicate (b - a) k) (runs p s e ks)) = replicate (e - s) p @ ks"
proof (induction ks arbitrary: p s e)
  case (Cons k ks)
  have "replicate (Suc e - s) p = replicate (e - s) p @ [p]"
    using Cons.prems by (simp add: Suc_diff_le replicate_append_same)
  then show ?case using Cons.prems Cons.IH [of s "e + 1" p] Cons.IH [of e "e + 1" k] by simp
qed simp

lemma contiguous_key:
  assumes "contiguous s n rs" "(k, a, b) \<in> set rs" "a \<le> i" "i < b"
  shows "s \<le> i \<and> i < n \<and> concat (map (\<lambda>(k, a, b). replicate (b - a) k) rs) ! (i - s) = k"
  using assms
proof (induction rs arbitrary: s)
  case (Cons r rs)
  obtain k' c where r: "r = (k', s, c)" "s < c" "contiguous c n rs" using Cons.prems(1) by (cases r) auto
  have "c \<le> n" using r(3) by (rule contiguous_le)
  show ?case
  proof (cases "(k, a, b) = r")
    case True
    then have "i - s < c - s" using r Cons.prems by auto
    then show ?thesis using True r Cons.prems \<open>c \<le> n\<close> by (simp add: nth_append)
  next
    case False
    with Cons.prems have "(k, a, b) \<in> set rs" by auto
    from Cons.IH [OF r(3) this] Cons.prems(3,4)
    have i: "c \<le> i" "i < n" "concat (map (\<lambda>(k, a, b). replicate (b - a) k) rs) ! (i - c) = k" by auto
    then have "\<not> i - s < c - s" "i - s - (c - s) = i - c" using r(2) by simp_all
    then show ?thesis using i r by (simp add: nth_append)
  qed
qed simp

lemma runs_head: "\<exists>e' rs. runs p s e ks = (p, s, e') # rs"
  by (induction ks arbitrary: e) auto

lemma runs_distinct_adj: "distinct_adj (map fst (runs p s e ks))"
proof (induction ks arbitrary: p s e)
  case (Cons k ks)
  obtain e' rs where "runs k e (e + 1) ks = (k, e, e') # rs" using runs_head by metis
  then show ?case using Cons.IH [of p s "e + 1"] Cons.IH [of k e "e + 1"] by (auto simp: distinct_adj_Cons)
qed simp

lemma map_runs: "inj f \<Longrightarrow> runs (f p) s e (map f ks) = map (\<lambda>(k, a, b). (f k, a, b)) (runs p s e ks)"
  by (induction ks arbitrary: p s e) (auto simp: inj_eq)

lemma partition_batch_runs:
  assumes time: "time_column batch = Inr time" and n: "num_rows batch \<noteq> 0"
    and len: "template_len template \<le> 8" and day: "ymd_by_day ext"
    and keys: "\<And>i. i < num_rows batch \<Longrightarrow> row_key ext batch time (template_parts template) i = Some (key i)"
  shows "partition_batch ext batch template =
    Some (map (\<lambda>(k, a, b). Some (Inr k, a, b)) (runs (key 0) 0 1 (map key [1..<num_rows batch])))"
proof -
  let ?ps = "template_parts template"
  have "templates_for ext batch time ?ps (map (make_template batch time) ?ps)"
    by (simp add: list_all2_conv_all_nth make_template_for)
  moreover obtain ss where ss: "map (part_text ext batch time 0) ?ps = map Some ss" "key 0 = join_parts ss"
    using keys [of 0] n by (auto simp: row_key_Some)
  ultimately obtain ts where ts: "evaluate_template ext (map (make_template batch time) ?ps) 0 [] = Some (ts, Inr (key 0))"
      "all_remember ext batch time 0 ?ps ts"
    using evaluate_template_ok [OF _ day, of batch time ?ps _ 0 ss "[]"] by auto
  have "row_key ext batch time ?ps 0 = Some (key 0)" using keys n by simp
  from rest_keys_ok [OF ts(2) day this, of "[1..<num_rows batch]" key] keys obtain items
    where items: "rest_keys ext ts [1..<num_rows batch] = map Some items"
      "dedups (Inr (key 0)) items (map (\<lambda>i. Inr (key i) :: PartitionKeyError + string) [1..<num_rows batch])" by auto
  have inj: "inj (Inr :: string \<Rightarrow> PartitionKeyError + string)" by (simp add: inj_def)
  have "range_encode (Some (Some (Inr (key 0))) # map Some items) None 0 0
      = map Some (runs (Inr (key 0)) 0 1 (map Inr (map key [1..<num_rows batch])))"
    using range_encode_runs [OF items(2), of 0 1] by (simp add: comp_def)
  also have "\<dots> = map (\<lambda>(k, a, b). Some (Inr k, a, b)) (runs (key 0) 0 1 (map key [1..<num_rows batch]))"
    unfolding map_runs [OF inj] by (simp add: case_prod_beta)
  finally show ?thesis
    using ts(1) items(1) time len
    by (simp add: partition_batch_def partition_keys_def MAXIMUM_NUMBER_OF_TEMPLATE_PARTS_def)
qed

text \<open>Every key yielded for a range is the key of all its rows.\<close>

lemma partition_batch_row:
  assumes "time_column batch = Inr time" "num_rows batch \<noteq> 0" "template_len template \<le> 8" "ymd_by_day ext"
    and rows: "\<And>i. i < num_rows batch \<Longrightarrow> row_key ext batch time (template_parts template) i \<noteq> None"
    and items: "partition_batch ext batch template = Some items" "Some (Inr k, a, b) \<in> set items" "a \<le> i" "i < b"
  shows "row_key ext batch time (template_parts template) i = Some k"
proof -
  define key where "key i = the (row_key ext batch time (template_parts template) i)" for i
  let ?rs = "runs (key 0) 0 1 (map key [1..<num_rows batch])"
  have keys: "row_key ext batch time (template_parts template) i = Some (key i)" if "i < num_rows batch" for i
    using rows [OF that] by (auto simp: key_def)
  have "items = map (\<lambda>(k, a, b). Some (Inr k, a, b)) ?rs"
    using partition_batch_runs [OF assms(1-4) keys] items(1) by simp
  then have k: "(k, a, b) \<in> set ?rs" using items(2) by auto
  have "contiguous 0 (num_rows batch) ?rs"
    using runs_contiguous [of 0 1 "map key [1..<num_rows batch]" "key 0"] assms(2) by simp
  from contiguous_key [OF this k items(3,4)]
  have i: "i < num_rows batch" "concat (map (\<lambda>(k, a, b). replicate (b - a) k) ?rs) ! i = k" by auto
  moreover have "concat (map (\<lambda>(k, a, b). replicate (b - a) k) ?rs) = map key [0..<num_rows batch]"
    using assms(2) by (simp add: runs_expand upt_conv_Cons)
  ultimately have "key i = k" by simp
  then show ?thesis using keys i(1) by simp
qed

text \<open>
  C1. The batch partitioner, with its formatted-timestamp cache, its identity checks and its lazy range
  encoding, computes exactly the run-length encoding of the partition keys computed row by row: the ranges
  are non-empty and tile the rows in order, each is labelled with the key of all its rows, and
  neighbouring ranges have different keys. It assumes that every row has a key and that the date format
  depends on the day only.
\<close>

theorem partition_batch_exact:
  assumes "time_column batch = Inr time" "num_rows batch \<noteq> 0" "template_len template \<le> 8" "ymd_by_day ext"
    and "\<And>i. i < num_rows batch \<Longrightarrow> row_key ext batch time (template_parts template) i = Some (key i)"
  shows "\<exists>rs. partition_batch ext batch template = Some (map (\<lambda>(k, a, b). Some (Inr k, a, b)) rs)
    \<and> contiguous 0 (num_rows batch) rs
    \<and> concat (map (\<lambda>(k, a, b). replicate (b - a) k) rs) = map key [0..<num_rows batch]
    \<and> distinct_adj (map fst rs)"
proof (intro exI conjI)
  show "partition_batch ext batch template =
      Some (map (\<lambda>(k, a, b). Some (Inr k, a, b)) (runs (key 0) 0 1 (map key [1..<num_rows batch])))"
    by (rule partition_batch_runs [OF assms])
  show "contiguous 0 (num_rows batch) (runs (key 0) 0 1 (map key [1..<num_rows batch]))"
    using runs_contiguous [of 0 1 "map key [1..<num_rows batch]" "key 0"] assms(2) by simp
  show "concat (map (\<lambda>(k, a, b). replicate (b - a) k) (runs (key 0) 0 1 (map key [1..<num_rows batch]))) = map key [0..<num_rows batch]"
    using assms(2) by (simp add: runs_expand upt_conv_Cons)
  show "distinct_adj (map fst (runs (key 0) 0 1 (map key [1..<num_rows batch])))" by (rule runs_distinct_adj)
qed

subsection \<open>Partitioned writes\<close>

lemma part_text_not_Nil: "part_text ext batch time i part = Some s \<Longrightarrow> s \<noteq> []"
  using encoded_bounds(1) [of ext]
  by (cases part) (auto simp: part_text_def PARTITION_KEY_VALUE_NULL_STR_def split: option.splits if_splits bind_splits)

lemma row_key_not_Nil:
  assumes "row_key ext batch time ps i = Some k" "ps \<noteq> []"
  shows "k \<noteq> []"
proof -
  from assms(1) obtain ss where ss: "map (part_text ext batch time i) ps = map Some ss" "k = join_parts ss"
    by (auto simp: row_key_Some)
  with assms(2) obtain p ps' s ss' where "ps = p # ps'" "ss = s # ss'" "part_text ext batch time i p = Some s"
    by (cases ps; cases ss) auto
  with part_text_not_Nil [of ext batch time i p s] show ?thesis using ss(2) by (cases ss') auto
qed

definition rows_of :: "(nat \<times> nat) list \<Rightarrow> nat list" where
  "rows_of rs = concat (map (\<lambda>(a, b). [a..<b]) rs)"

lemma rows_of_simps [simp]:
  "rows_of [] = []" "rows_of ((a, b) # rs) = [a..<b] @ rows_of rs" "rows_of (rs @ rs') = rows_of rs @ rows_of rs'"
  by (simp_all add: rows_of_def)

text \<open>A write that holds exactly the given rows of the batch, in this order, with their extreme times.\<close>

definition write_of :: "'k Batch \<Rightarrow> int list \<Rightarrow> nat list \<Rightarrow> 'k PartitionWrite \<Rightarrow> bool" where
  "write_of batch time rows pw \<longleftrightarrow> pw_batch pw = batch \<and> rows \<noteq> [] \<and> rows_of (pw_ranges pw) = rows
     \<and> (\<forall>(a, b) \<in> set (pw_ranges pw). a \<le> b \<and> b \<le> length time)
     \<and> pw_row_count pw = length rows
     \<and> pw_min_timestamp pw = Min ((\<lambda>i. time ! i) ` set rows) \<and> pw_max_timestamp pw = Max ((\<lambda>i. time ! i) ` set rows)"

lemma min_max_time_foldl:
  "foldl (\<lambda>(mn, mx) t. (min mn t, max mx t)) (a, b) xs = (foldl min a xs, foldl max b xs)"
  by (induction xs arbitrary: a b) auto

lemma foldl_min_Min: "xs \<noteq> [] \<Longrightarrow> (\<And>x. x \<in> set xs \<Longrightarrow> x \<le> (a::'a::linorder)) \<Longrightarrow> foldl min a xs = Min (set xs)"
proof (induction xs rule: rev_induct)
  case (snoc x xs)
  then show ?case by (cases "xs = []") (auto simp: min.absorb2 min.commute)
qed simp

lemma foldl_max_Max: "xs \<noteq> [] \<Longrightarrow> (\<And>x. x \<in> set xs \<Longrightarrow> (a::'a::linorder) \<le> x) \<Longrightarrow> foldl max a xs = Max (set xs)"
proof (induction xs rule: rev_induct)
  case (snoc x xs)
  then show ?case by (cases "xs = []") (auto simp: max.absorb2 max.commute)
qed simp

lemma min_max_time_exact:
  "xs \<noteq> [] \<Longrightarrow> (\<And>x. x \<in> set xs \<Longrightarrow> in_i64 x) \<Longrightarrow> min_max_time xs = (Min (set xs), Max (set xs))"
  by (simp add: min_max_time_def min_max_time_foldl foldl_min_Min foldl_max_Max in_i64_def)

lemma slice_range_ok:
  assumes "a \<le> b" "b \<le> length xs"
  shows "slice_range xs a b = Some (map (\<lambda>i. xs ! i) [a..<b])"
  using assms by (auto simp: slice_range_def intro!: nth_equalityI)

text \<open>The map built from the rows below \<open>n\<close>.\<close>

definition partitioned :: "'k Batch \<Rightarrow> int list \<Rightarrow> (nat \<Rightarrow> string) \<Rightarrow> nat \<Rightarrow> (string \<rightharpoonup> 'k PartitionWrite) \<Rightarrow> bool" where
  "partitioned batch time key n m \<longleftrightarrow> (\<forall>k. case m k of
     None \<Rightarrow> k \<notin> key ` {..<n}
   | Some pw \<Rightarrow> write_of batch time (filter (\<lambda>i. key i = k) [0..<n]) pw)"

lemma filter_upt_extend:
  assumes "a \<le> b" "\<And>i. a \<le> i \<Longrightarrow> i < b \<Longrightarrow> key i = k"
  shows "filter (\<lambda>i. key i = k') [0..<b] = filter (\<lambda>i. key i = k') [0..<a] @ (if k = k' then [a..<b] else [])"
proof -
  have "[0..<b] = [0..<a] @ [a..<b]" using upt_add_eq_append [of 0 a "b - a"] assms(1) by simp
  moreover have "filter (\<lambda>i. key i = k') [a..<b] = (if k = k' then [a..<b] else [])"
    using assms(2) by (auto simp: filter_id_conv filter_empty_conv)
  ultimately show ?thesis by simp
qed

text \<open>The write stored for the key of a new range.\<close>

definition extend_write :: "'k Batch \<Rightarrow> 'k PartitionWrite option \<Rightarrow> nat \<Rightarrow> nat \<Rightarrow> int \<Rightarrow> int \<Rightarrow> 'k PartitionWrite" where
  "extend_write batch old a b mn mx = (case old of
     None \<Rightarrow> \<lparr>pw_batch = batch, pw_ranges = [(a, b)], pw_min_timestamp = mn, pw_max_timestamp = mx, pw_row_count = b - a\<rparr>
   | Some pw \<Rightarrow> pw\<lparr>pw_min_timestamp := min (pw_min_timestamp pw) mn, pw_max_timestamp := max (pw_max_timestamp pw) mx,
       pw_row_count := pw_row_count pw + (b - a), pw_ranges := pw_ranges pw @ [(a, b)]\<rparr>)"

lemma extend_write_of:
  fixes time :: "int list"
  assumes "a < b" "b \<le> length time" "old = None \<and> rows = [] \<or> (\<exists>pw. old = Some pw \<and> write_of batch time rows pw)"
  shows "write_of batch time (rows @ [a..<b])
    (extend_write batch old a b (Min ((\<lambda>i. time ! i) ` {a..<b})) (Max ((\<lambda>i. time ! i) ` {a..<b})))"
proof (cases old)
  case None
  then show ?thesis using assms by (simp add: write_of_def extend_write_def)
next
  case (Some pw)
  with assms have w: "write_of batch time rows pw" by simp
  have ne: "set rows \<noteq> {}" "{a..<b} \<noteq> {}" using w assms(1) by (auto simp: write_of_def)
  have "(\<lambda>i. time ! i) ` (set rows \<union> {a..<b}) = (\<lambda>i. time ! i) ` set rows \<union> (\<lambda>i. time ! i) ` {a..<b}" by (rule image_Un)
  then show ?thesis
    using w assms(1,2) ne Some by (simp add: write_of_def extend_write_def Min_Un Max_Un)
qed

lemma partitioned_extend:
  assumes m: "partitioned batch time key a m" and ab: "a < b" "b \<le> length time"
    and keys: "\<And>i. a \<le> i \<Longrightarrow> i < b \<Longrightarrow> key i = k"
  shows "partitioned batch time key b
    (m(k \<mapsto> extend_write batch (m k) a b (Min ((\<lambda>i. time ! i) ` {a..<b})) (Max ((\<lambda>i. time ! i) ` {a..<b}))))"
  unfolding partitioned_def
proof (rule allI)
  fix k'
  let ?rows = "filter (\<lambda>i. key i = k') [0..<a]"
  have rows: "filter (\<lambda>i. key i = k') [0..<b] = ?rows @ (if k = k' then [a..<b] else [])"
    by (rule filter_upt_extend) (use ab keys in auto)
  have img: "key ` {..<b} = insert k (key ` {..<a})"
  proof -
    have "{..<b} = {..<a} \<union> {a..<b}" using ab by auto
    moreover have "key ` {a..<b} = {k}" using keys ab by (auto simp: image_iff)
    ultimately show ?thesis by (simp add: image_Un)
  qed
  have mk: "case m k' of None \<Rightarrow> k' \<notin> key ` {..<a} | Some pw \<Rightarrow> write_of batch time ?rows pw"
    using m by (simp add: partitioned_def)
  show "case (m(k \<mapsto> extend_write batch (m k) a b (Min ((\<lambda>i. time ! i) ` {a..<b})) (Max ((\<lambda>i. time ! i) ` {a..<b})))) k' of
      None \<Rightarrow> k' \<notin> key ` {..<b} | Some pw \<Rightarrow> write_of batch time (filter (\<lambda>i. key i = k') [0..<b]) pw"
  proof (cases "k = k'")
    case True
    have "m k' = None \<and> ?rows = [] \<or> (\<exists>pw. m k' = Some pw \<and> write_of batch time ?rows pw)"
      using mk by (cases "m k'") (auto simp: filter_empty_conv)
    from extend_write_of [OF ab this] show ?thesis using True rows by simp
  next
    case False
    then show ?thesis using mk rows img by (auto split: option.splits)
  qed
qed

lemma partition_loop_step:
  assumes "a < b" "b \<le> length time" "min_max_time (map (\<lambda>i. time ! i) [a..<b]) = (mn, mx)" "k \<noteq> []"
  shows "partition_loop batch time (Some (Inr k, a, b) # items) m =
    partition_loop batch time items (m(k \<mapsto> extend_write batch (m k) a b mn mx))"
  using assms by (simp add: slice_range_ok checked_sub_def extend_write_def partition_key_from_def)

lemma partition_loop_ok:
  assumes "contiguous a n rs" "n \<le> length time" "\<And>t. t \<in> set time \<Longrightarrow> in_i64 t"
    "partitioned batch time key a m" "\<And>i. i < n \<Longrightarrow> key i \<noteq> []"
    "\<And>i. a \<le> i \<Longrightarrow> i < n \<Longrightarrow> key i = concat (map (\<lambda>(k, a, b). replicate (b - a) k) rs) ! (i - a)"
  shows "\<exists>m'. partition_loop batch time (map (\<lambda>(k, a, b). Some (Inr k, a, b)) rs) m = Some (Inr m') \<and> partitioned batch time key n m'"
  using assms
proof (induction rs arbitrary: a m)
  case (Cons r rs)
  obtain k b where r: "r = (k, a, b)" "a < b" "contiguous b n rs" using Cons.prems(1) by (cases r) auto
  have bn: "b \<le> n" using r(3) by (rule contiguous_le)
  have k: "key i = k" if "a \<le> i" "i < b" for i
  proof -
    have "i - a < b - a" using that by simp
    then show ?thesis using Cons.prems(6) [of i] that bn r by (simp add: nth_append)
  qed
  have kne: "k \<noteq> []" using k [of a] Cons.prems(5) [of a] r(2) bn by simp
  have rest: "key i = concat (map (\<lambda>(k, a, b). replicate (b - a) k) rs) ! (i - b)" if "b \<le> i" "i < n" for i
  proof -
    have "\<not> i - a < b - a" "i - a - (b - a) = i - b" using that r(2) by simp_all
    then show ?thesis using Cons.prems(6) [of i] that r by (simp add: nth_append)
  qed
  have mm: "min_max_time (map (\<lambda>i. time ! i) [a..<b]) = (Min ((\<lambda>i. time ! i) ` {a..<b}), Max ((\<lambda>i. time ! i) ` {a..<b}))"
  proof -
    have "in_i64 x" if "x \<in> set (map (\<lambda>i. time ! i) [a..<b])" for x
      using that bn Cons.prems(2,3) by auto
    from min_max_time_exact [of "map (\<lambda>i. time ! i) [a..<b]", OF _ this] r(2) show ?thesis by simp
  qed
  have bl: "b \<le> length time" using bn Cons.prems(2) by simp
  define m' where "m' = m(k \<mapsto> extend_write batch (m k) a b (Min ((\<lambda>i. time ! i) ` {a..<b})) (Max ((\<lambda>i. time ! i) ` {a..<b})))"
  have "partitioned batch time key b m'"
    unfolding m'_def by (rule partitioned_extend) (use Cons.prems r bl k in auto)
  moreover have "partition_loop batch time (map (\<lambda>(k, a, b). Some (Inr k, a, b)) ((k, a, b) # rs)) m
      = partition_loop batch time (map (\<lambda>(k, a, b). Some (Inr k, a, b)) rs) m'"
    by (simp only: list.map prod.case m'_def partition_loop_step [OF r(2) bl mm kne])
  ultimately show ?case
    using Cons.IH [OF r(3) Cons.prems(2,3) _ Cons.prems(5) rest] by (simp only: r(1))
qed simp

text \<open>
  C13. Partitioning a batch succeeds and splits its rows exactly by partition key: there is one write per key
  that occurs, it holds precisely the rows with that key in their original order, and its row count and its
  minimum and maximum timestamps are those of these rows.
\<close>

theorem partition_write_partition_exact:
  assumes "time_column batch = Inr time" "num_rows batch \<noteq> 0" "template_len template \<le> 8" "ymd_by_day ext"
    and "\<And>i. i < num_rows batch \<Longrightarrow> row_key ext batch time (template_parts template) i = Some (key i)"
    and "template_parts template \<noteq> []" "length time = num_rows batch" "\<And>t. t \<in> set time \<Longrightarrow> in_i64 t"
  shows "\<exists>m. partition_write_partition ext batch template = Some (Inr m)
    \<and> dom m = key ` {..<num_rows batch}
    \<and> (\<forall>k pw. m k = Some pw \<longrightarrow> write_of batch time (filter (\<lambda>i. key i = k) [0..<num_rows batch]) pw)"
proof -
  let ?rs = "runs (key 0) 0 1 (map key [1..<num_rows batch])"
  have c: "contiguous 0 (num_rows batch) ?rs"
    using runs_contiguous [of 0 1 "map key [1..<num_rows batch]" "key 0"] assms(2) by simp
  have e: "concat (map (\<lambda>(k, a, b). replicate (b - a) k) ?rs) = map key [0..<num_rows batch]"
    using assms(2) by (simp add: runs_expand upt_conv_Cons)
  have p: "partitioned batch time key 0 Map.empty" by (simp add: partitioned_def)
  have ne: "key i \<noteq> []" if "i < num_rows batch" for i by (rule row_key_not_Nil [OF assms(5) [OF that] assms(6)])
  have "\<exists>m. partition_loop batch time (map (\<lambda>(k, a, b). Some (Inr k, a, b)) ?rs) Map.empty = Some (Inr m)
      \<and> partitioned batch time key (num_rows batch) m"
    by (rule partition_loop_ok [OF c _ assms(8) p ne]) (simp_all only: e, simp_all add: assms(7))
  then obtain m where m: "partition_loop batch time (map (\<lambda>(k, a, b). Some (Inr k, a, b)) ?rs) Map.empty = Some (Inr m)"
      "partitioned batch time key (num_rows batch) m" by blast
  have w: "write_of batch time (filter (\<lambda>i. key i = k) [0..<num_rows batch]) pw" if "m k = Some pw" for k pw
    using m(2) that unfolding partitioned_def by (metis option.simps(5))
  have "k \<in> dom m \<longleftrightarrow> k \<in> key ` {..<num_rows batch}" for k
  proof (cases "m k")
    case (Some pw)
    have "filter (\<lambda>i. key i = k) [0..<num_rows batch] \<noteq> []" using w [OF Some] by (simp add: write_of_def)
    then show ?thesis using Some by (auto simp: filter_empty_conv)
  qed (use m(2) in \<open>auto simp: partitioned_def split: option.splits\<close>)
  then show ?thesis
    using m(1) w assms(1) partition_batch_runs [OF assms(1-5)] by (auto simp: partition_write_partition_def)
qed

subsection \<open>Filtering a write\<close>

lemma filter_slice_ok:
  fixes P :: "'a \<Rightarrow> bool"
  assumes "\<And>st x. snd (inspect st x) = P x" "s \<le> e"
  shows "\<exists>rs. filter_slice inspect st xs s e = (foldl (\<lambda>st x. fst (inspect st x)) st xs, rs)
    \<and> rows_of rs = [s..<e] @ filter (\<lambda>i. P (xs ! (i - e))) [e..<e + length xs]
    \<and> (\<forall>(a, b) \<in> set rs. a \<le> b \<and> b \<le> e + length xs)"
  using assms(2)
proof (induction xs arbitrary: st s e)
  case (Cons x xs)
  obtain st' where st': "inspect st x = (st', P x)" using assms(1) [of st x] by (cases "inspect st x") auto
  have "filter (\<lambda>i. P ((x # xs) ! (i - e))) [Suc e..<Suc e + length xs] = filter (\<lambda>i. P (xs ! (i - Suc e))) [Suc e..<Suc e + length xs]"
  proof (rule filter_cong)
    fix i assume "i \<in> set [Suc e..<Suc e + length xs]"
    then have "i - e = Suc (i - Suc e)" by auto
    then show "P ((x # xs) ! (i - e)) = P (xs ! (i - Suc e))" by simp
  qed simp
  then have f: "filter (\<lambda>i. P ((x # xs) ! (i - e))) [e..<e + length (x # xs)]
      = (if P x then [e] else []) @ filter (\<lambda>i. P (xs ! (i - Suc e))) [Suc e..<Suc e + length xs]"
  proof -
    have "[e..<e + length (x # xs)] = e # [Suc e..<Suc e + length xs]" by (simp add: upt_conv_Cons del: upt_Suc)
    with \<open>filter _ _ = _\<close> show ?thesis by (simp del: upt_Suc)
  qed
  show ?case
  proof (cases "P x")
    case True
    from Cons.IH [of s "Suc e" st'] Cons.prems st' f True show ?thesis by auto
  next
    case False
    from Cons.IH [of "Suc e" "Suc e" st'] obtain rs
      where rs: "filter_slice inspect st' xs (Suc e) (Suc e) = (foldl (\<lambda>st x. fst (inspect st x)) st' xs, rs)"
        "rows_of rs = filter (\<lambda>i. P (xs ! (i - Suc e))) [Suc e..<Suc e + length xs]"
        "\<forall>(a, b) \<in> set rs. a \<le> b \<and> b \<le> Suc e + length xs" by auto
    show ?thesis
    proof (cases "s = e")
      case True
      then show ?thesis using rs st' f False by auto
    next
      case ne: False
      then show ?thesis using rs st' f False Cons.prems by auto
    qed
  qed
qed auto

lemma upt_shift: "[a + k..<b + k] = map (\<lambda>i. i + k) [a..<b]"
  by (auto intro!: nth_equalityI)

lemma rows_of_shift: "rows_of (map (\<lambda>(s, e). (s + k, e + k)) rs) = map (\<lambda>i. i + k) (rows_of rs)"
  by (induction rs) (auto simp: upt_shift)

lemma filter_ranges_ok:
  assumes P: "\<And>st x. snd (inspect st x) = P x" and "\<forall>(a, b) \<in> set ranges. a \<le> b \<and> b \<le> length col"
  shows "\<exists>rs. filter_ranges inspect st col ranges =
      Some (foldl (\<lambda>st x. fst (inspect st x)) st (map (\<lambda>i. col ! i) (rows_of ranges)), rs)
    \<and> rows_of rs = filter (\<lambda>i. P (col ! i)) (rows_of ranges)
    \<and> (\<forall>(a, b) \<in> set rs. a \<le> b \<and> b \<le> length col)"
  using assms(2)
proof (induction ranges arbitrary: st)
  case (Cons r ranges)
  obtain a b where r: "r = (a, b)" by (cases r)
  with Cons.prems have ab: "a \<le> b" "b \<le> length col" by auto
  define sl where "sl = map (\<lambda>i. col ! i) [a..<b]"
  from filter_slice_ok [of inspect P 0 0 st sl, OF P] obtain rs
    where rs: "filter_slice inspect st sl 0 0 = (foldl (\<lambda>st x. fst (inspect st x)) st sl, rs)"
      "rows_of rs = filter (\<lambda>i. P (sl ! i)) [0..<b - a]" "\<forall>(x, y) \<in> set rs. x \<le> y \<and> y \<le> b - a"
    by (auto simp: sl_def)
  define st' where "st' = foldl (\<lambda>st x. fst (inspect st x)) st sl"
  from Cons.IH [of st'] Cons.prems obtain rs'
    where rs': "filter_ranges inspect st' col ranges =
        Some (foldl (\<lambda>st x. fst (inspect st x)) st' (map (\<lambda>i. col ! i) (rows_of ranges)), rs')"
      "rows_of rs' = filter (\<lambda>i. P (col ! i)) (rows_of ranges)" "\<forall>(x, y) \<in> set rs'. x \<le> y \<and> y \<le> length col" by auto
  have "map (\<lambda>i. i + a) (filter (\<lambda>i. P (sl ! i)) [0..<b - a]) = filter (\<lambda>i. P (col ! i)) (map (\<lambda>i. i + a) [0..<b - a])"
  proof -
    have "filter (\<lambda>i. P (sl ! i)) [0..<b - a] = filter ((\<lambda>i. P (col ! i)) \<circ> (\<lambda>i. i + a)) [0..<b - a]"
      by (rule filter_cong) (auto simp: sl_def add.commute)
    then show ?thesis by (simp add: filter_map)
  qed
  also have "map (\<lambda>i. i + a) [0..<b - a] = [a..<b]" using ab by (simp add: map_add_upt)
  finally have rows: "rows_of (map (\<lambda>(s, e). (s + a, e + a)) rs) = filter (\<lambda>i. P (col ! i)) [a..<b]"
    by (simp add: rows_of_shift rs(2))
  show ?case
    using rs(1,3) rs' rows ab r slice_range_ok [of a b col]
    by (fastforce simp: sl_def [symmetric] st'_def)
qed simp

lemma foldl_inspect:
  "foldl (\<lambda>st t. fst ((\<lambda>(mn, mx, n) t. if P t then ((min mn t, max mx t, n + 1), True) else ((mn, mx, n), False)) st t)) (a, b, c::nat) xs
    = (foldl min a (filter P xs), foldl max b (filter P xs), c + length (filter P xs))"
  by (induction xs arbitrary: a b c) auto

text \<open>
  C32. Filtering a write by a predicate on the time keeps exactly the rows whose time satisfies it, in order,
  with their row count and extreme times; the result is absent precisely when no row is kept. It never
  panics on a write whose ranges lie inside the batch.
\<close>

theorem partition_write_filter_exact:
  assumes "write_of batch time rows pw" "time_column batch = Inr time" "\<And>t. t \<in> set time \<Longrightarrow> in_i64 t"
  shows "\<exists>r. partition_write_filter pw P = Some r
    \<and> (r = None \<longleftrightarrow> filter (\<lambda>i. P (time ! i)) rows = [])
    \<and> (\<forall>pw'. r = Some pw' \<longrightarrow> write_of batch time (filter (\<lambda>i. P (time ! i)) rows) pw')"
proof -
  define inspect where "inspect = (\<lambda>(mn, mx, n::nat) t. if P t then ((min mn t, max mx t, n + 1), True) else ((mn, mx, n), False))"
  define rows' where "rows' = filter (\<lambda>i. P (time ! i)) rows"
  define ts where "ts = map (\<lambda>i. time ! i) rows'"
  have snd: "snd (inspect st x) = P x" for st x by (auto simp: inspect_def split: prod.splits)
  from assms(1) have w: "pw_batch pw = batch" "rows_of (pw_ranges pw) = rows"
      "\<forall>(a, b) \<in> set (pw_ranges pw). a \<le> b \<and> b \<le> length time"
    by (auto simp: write_of_def)
  from filter_ranges_ok [of inspect P, OF snd w(3), of "(i64_max, i64_min, 0)"] obtain rs
    where rs: "filter_ranges inspect (i64_max, i64_min, 0) time (pw_ranges pw) =
        Some (foldl (\<lambda>st x. fst (inspect st x)) (i64_max, i64_min, 0) (map (\<lambda>i. time ! i) rows), rs)"
      "rows_of rs = rows'" "\<forall>(a, b) \<in> set rs. a \<le> b \<and> b \<le> length time" by (auto simp: w(2) rows'_def)
  have "filter P (map (\<lambda>i. time ! i) rows) = ts" by (simp add: ts_def rows'_def filter_map comp_def)
  then have st: "foldl (\<lambda>st x. fst (inspect st x)) (i64_max, i64_min, 0) (map (\<lambda>i. time ! i) rows)
      = (foldl min i64_max ts, foldl max i64_min ts, length ts)"
    unfolding inspect_def using foldl_inspect [of P i64_max i64_min 0 "map (\<lambda>i. time ! i) rows"] by simp
  have r: "partition_write_filter pw P = Some (if length ts = 0 then None
      else Some \<lparr>pw_batch = batch, pw_ranges = rs, pw_min_timestamp = foldl min i64_max ts,
        pw_max_timestamp = foldl max i64_min ts, pw_row_count = length ts\<rparr>)"
    using rs(1) assms(2) w(1) st by (simp add: partition_write_filter_def filter_time_def inspect_def [symmetric])
  have "set rows \<subseteq> {..<length time}" using w(2,3) by (fastforce simp: rows_of_def)
  then have in64: "in_i64 t" if "t \<in> set ts" for t using that assms(3) by (auto simp: ts_def rows'_def)
  have "ts = [] \<longleftrightarrow> rows' = []" by (simp add: ts_def)
  moreover have "write_of batch time rows' \<lparr>pw_batch = batch, pw_ranges = rs, pw_min_timestamp = foldl min i64_max ts,
        pw_max_timestamp = foldl max i64_min ts, pw_row_count = length ts\<rparr>" if "rows' \<noteq> []"
    using that rs(2,3) min_max_time_exact [of ts, OF _ in64]
    by (simp add: write_of_def ts_def min_max_time_def min_max_time_foldl)
  ultimately show ?thesis using r by (simp add: rows'_def [symmetric])
qed

subsection \<open>Reading a key back\<close>

text \<open>Well-formed UTF-8, the invariant of Rust's strings.\<close>

abbreviation byte :: "char \<Rightarrow> nat" where "byte c \<equiv> of_char c"

definition cont_byte :: "char \<Rightarrow> bool" where
  "cont_byte c \<longleftrightarrow> 0x80 \<le> byte c \<and> byte c \<le> 0xBF"

definition utf8_len :: "char \<Rightarrow> nat" where
  "utf8_len a = (if byte a < 0x80 then 1 else if 0xC2 \<le> byte a \<and> byte a \<le> 0xDF then 2
     else if 0xE0 \<le> byte a \<and> byte a \<le> 0xEF then 3 else if 0xF0 \<le> byte a \<and> byte a \<le> 0xF4 then 4 else 0)"

definition utf8_second :: "char \<Rightarrow> char \<Rightarrow> bool" where
  "utf8_second a b \<longleftrightarrow> cont_byte b \<and> (byte a = 0xE0 \<longrightarrow> 0xA0 \<le> byte b) \<and> (byte a = 0xED \<longrightarrow> byte b \<le> 0x9F)
     \<and> (byte a = 0xF0 \<longrightarrow> 0x90 \<le> byte b) \<and> (byte a = 0xF4 \<longrightarrow> byte b \<le> 0x8F)"

inductive utf8_valid :: "string \<Rightarrow> bool" where
  utf8_Nil: "utf8_valid []"
| utf8_1: "utf8_len a = 1 \<Longrightarrow> utf8_valid s \<Longrightarrow> utf8_valid (a # s)"
| utf8_2: "utf8_len a = 2 \<Longrightarrow> utf8_second a b \<Longrightarrow> utf8_valid s \<Longrightarrow> utf8_valid (a # b # s)"
| utf8_3: "utf8_len a = 3 \<Longrightarrow> utf8_second a b \<Longrightarrow> cont_byte c \<Longrightarrow> utf8_valid s \<Longrightarrow> utf8_valid (a # b # c # s)"
| utf8_4: "utf8_len a = 4 \<Longrightarrow> utf8_second a b \<Longrightarrow> cont_byte c \<Longrightarrow> cont_byte d \<Longrightarrow> utf8_valid s \<Longrightarrow> utf8_valid (a # b # c # d # s)"

lemma utf8_valid_append: "utf8_valid s \<Longrightarrow> utf8_valid t \<Longrightarrow> utf8_valid (s @ t)"
  by (induction rule: utf8_valid.induct) (auto intro: utf8_valid.intros)

lemma utf8_valid_concat: "(\<And>s. s \<in> set ss \<Longrightarrow> utf8_valid s) \<Longrightarrow> utf8_valid (concat ss)"
  by (induction ss) (auto intro: utf8_valid_append utf8_Nil)

text \<open>
  Documented behaviour of the percent encoding crate, for the encode set of partition keys: it works byte by
  byte, removes the reserved characters, and the decoder inverts it and leaves other ASCII text alone.
\<close>

definition percent_codec :: "Partition_Ext \<Rightarrow> (string \<Rightarrow> string option) \<Rightarrow> bool" where
  "percent_codec ext dec \<longleftrightarrow>
     (\<forall>s t. utf8_percent_encode ext (s @ t) = utf8_percent_encode ext s @ utf8_percent_encode ext t)
   \<and> (\<forall>s. utf8_percent_encode ext s = [] \<longleftrightarrow> s = [])
   \<and> (\<forall>s. set (utf8_percent_encode ext s) \<inter> set ''|!^#'' = {})
   \<and> (\<forall>s t. utf8_valid s \<and> (\<forall>c \<in> set t. byte c < 0x80 \<and> c \<noteq> CHR ''%'') \<longrightarrow> dec (utf8_percent_encode ext s @ t) = Some (s @ t))"

text \<open>Documented behaviour of the segmentation crate: the graphemes of a string are strings that concatenate to it.\<close>

definition grapheme_segmentation :: "Partition_Ext \<Rightarrow> bool" where
  "grapheme_segmentation ext \<longleftrightarrow> (\<forall>s. utf8_valid s \<longrightarrow> concat (graphemes ext s) = s \<and> (\<forall>g \<in> set (graphemes ext s). utf8_valid g))"

text \<open>The prefix of a long value that is kept in its key part.\<close>

definition kept_prefix :: "Partition_Ext \<Rightarrow> string \<Rightarrow> string" where
  "kept_prefix ext s = concat (take (length (take_bytes 0 (map (utf8_percent_encode ext) (graphemes ext s)))) (graphemes ext s))"

lemma take_bytes_take: "take_bytes b vs = take (length (take_bytes b vs)) vs"
  by (induction vs arbitrary: b) auto

lemma kept_prefix_facts:
  assumes c: "percent_codec ext dec" and g: "grapheme_segmentation ext" and s: "utf8_valid s"
  shows "concat (take_bytes 0 (map (utf8_percent_encode ext) (graphemes ext s))) = utf8_percent_encode ext (kept_prefix ext s)"
    "prefix (kept_prefix ext s) s" "utf8_valid (kept_prefix ext s)"
proof -
  let ?n = "length (take_bytes 0 (map (utf8_percent_encode ext) (graphemes ext s)))"
  have enc: "utf8_percent_encode ext (concat ss) = concat (map (utf8_percent_encode ext) ss)" for ss
    using c by (induction ss) (auto simp: percent_codec_def)
  show "concat (take_bytes 0 (map (utf8_percent_encode ext) (graphemes ext s))) = utf8_percent_encode ext (kept_prefix ext s)"
    unfolding kept_prefix_def enc using take_bytes_take [of 0 "map (utf8_percent_encode ext) (graphemes ext s)"]
    by (simp add: take_map)
  have "concat (take ?n (graphemes ext s)) @ concat (drop ?n (graphemes ext s)) = s"
    using g s by (simp add: grapheme_segmentation_def concat_append [symmetric] del: concat_append)
  then show "prefix (kept_prefix ext s) s" unfolding kept_prefix_def by (metis prefixI)
  show "utf8_valid (kept_prefix ext s)"
    unfolding kept_prefix_def by (rule utf8_valid_concat) (use g s in \<open>auto simp: grapheme_segmentation_def dest: in_set_takeD\<close>)
qed

text \<open>What a tag value is read back as.\<close>

definition tag_value_back :: "Partition_Ext \<Rightarrow> string \<Rightarrow> ColumnValue" where
  "tag_value_back ext s = (if length (utf8_percent_encode ext s) \<le> PARTITION_KEY_MAX_PART_LEN then Identity s
     else Prefix (kept_prefix ext s))"

lemma parse_encoded:
  assumes c: "percent_codec ext dec" and g: "grapheme_segmentation ext" and s: "utf8_valid s"
  shows "parse_part_tag_value dec (encoded ext s) = Some (tag_value_back ext s)"
proof -
  let ?e = "utf8_percent_encode ext s"
  have dec: "dec (utf8_percent_encode ext x @ t) = Some (x @ t)" if "utf8_valid x" "\<forall>c \<in> set t. byte c < 0x80 \<and> c \<noteq> CHR ''%''" for x t
    using c that by (simp add: percent_codec_def)
  have res: "set ?e \<inter> set ''|!^#'' = {}" and nil: "?e = [] \<longleftrightarrow> s = []" using c unfolding percent_codec_def by blast+
  consider "?e = []" | "?e \<noteq> []" "length ?e \<le> PARTITION_KEY_MAX_PART_LEN" | "length ?e > PARTITION_KEY_MAX_PART_LEN" by linarith
  then show ?thesis
  proof cases
    case 1
    then have "s = []" using nil by simp
    moreover from this 1 have "utf8_percent_encode ext [] = []" by simp
    ultimately show ?thesis using dec [of "[]" "[]"] utf8_Nil
      by (simp add: encoded_def parse_part_tag_value_def PARTITION_KEY_VALUE_EMPTY_STR_def tag_value_back_def)
  next
    case 2
    have "?e \<noteq> ''^''" using res by auto
    moreover have "last ?e \<noteq> CHR ''#''"
    proof
      assume "last ?e = CHR ''#''"
      then have "CHR ''#'' \<in> set ?e" using last_in_set [OF 2(1)] by simp
      then show False using res by auto
    qed
    ultimately show ?thesis using 2 dec [OF s, of "[]"]
      by (simp add: encoded_def parse_part_tag_value_def PARTITION_KEY_VALUE_EMPTY_STR_def PARTITION_KEY_PART_TRUNCATED_def tag_value_back_def)
  next
    case 3
    let ?k = "utf8_percent_encode ext (kept_prefix ext s)"
    have "?e \<noteq> []" using 3 by auto
    then have e: "encoded ext s = ?k @ ''#''"
      using 3 kept_prefix_facts(1) [OF c g s] by (simp add: encoded_def PARTITION_KEY_PART_TRUNCATED_def)
    have "?k @ ''#'' \<noteq> ''^''" by (cases ?k) auto
    then show ?thesis
      unfolding e using 3 dec [OF kept_prefix_facts(3) [OF c g s], of "''#''"]
      by (simp add: parse_part_tag_value_def PARTITION_KEY_VALUE_EMPTY_STR_def PARTITION_KEY_PART_TRUNCATED_def tag_value_back_def checked_sub_def)
  qed
qed

lemma set_take_bytes: "set (take_bytes b vs) \<subseteq> set vs"
  using take_bytes_take [of b vs] by (metis set_take_subset)

lemma encoded_reserved:
  assumes "percent_codec ext dec"
  shows "PARTITION_KEY_DELIMITER \<notin> set (encoded ext s)" "encoded ext s \<noteq> PARTITION_KEY_VALUE_NULL_STR"
proof -
  have res: "CHR ''|'' \<notin> set (utf8_percent_encode ext x)" "CHR ''!'' \<notin> set (utf8_percent_encode ext x)" for x
    using assms unfolding percent_codec_def by auto
  have "CHR ''|'' \<notin> set (encoded ext s) \<and> CHR ''!'' \<notin> set (encoded ext s)"
    using res set_take_bytes [of 0 "map (utf8_percent_encode ext) (graphemes ext s)"]
    by (auto simp: encoded_def PARTITION_KEY_VALUE_EMPTY_STR_def PARTITION_KEY_PART_TRUNCATED_def)
  then show "PARTITION_KEY_DELIMITER \<notin> set (encoded ext s)" "encoded ext s \<noteq> PARTITION_KEY_VALUE_NULL_STR"
    by (auto simp: PARTITION_KEY_DELIMITER_def PARTITION_KEY_VALUE_NULL_STR_def)
qed

text \<open>The tag value of a row, if it has one.\<close>

definition row_tag :: "'k Batch \<Rightarrow> string \<Rightarrow> nat \<Rightarrow> string option" where
  "row_tag batch col i = do {
     c \<leftarrow> batch_column batch col;
     if is_valid c i then do { k \<leftarrow> get_tag_identity_key c i; get_tag_value c k } else None
   }"

text \<open>
  The values a part of the key of row \<open>i\<close> should be read back as. A time part is the interval of the times that agree with the
  row's time down to the finest unit of the format.
\<close>

definition part_reads :: "Partition_Ext \<Rightarrow> Chrono \<Rightarrow> Calendar \<Rightarrow> 'k Batch \<Rightarrow> int list \<Rightarrow> nat \<Rightarrow> TemplatePart \<Rightarrow> (string \<times> ColumnValue) list \<Rightarrow> bool" where
  "part_reads ext chrono cal batch time i part vs \<longleftrightarrow> (case part of
     TagValue col \<Rightarrow> vs = (case row_tag batch col i of None \<Rightarrow> [] | Some v \<Rightarrow> [(col, tag_value_back ext v)])
   | Bucket col n \<Rightarrow> vs = (case row_tag batch col i of None \<Rightarrow> []
       | Some v \<Rightarrow> [(col, Bucket_Id (unat (murmur3_32 ext v AND 0x7FFFFFFF) mod n))])
   | TimeFormat f \<Rightarrow> \<exists>b e. vs = [(TIME_COLUMN_NAME, Datetime b e)]
       \<and> (\<forall>t. b \<le> t \<and> t < e \<longleftrightarrow> same_unit cal (finest (strftime_items chrono f)) t (time ! i)))"

text \<open>
  A format of dates whose rendered texts are short, need no percent encoding, and are parsed by chrono to the fields
  they were rendered from.
\<close>

definition readable_format :: "Partition_Ext \<Rightarrow> Chrono \<Rightarrow> Calendar \<Rightarrow> string \<Rightarrow> bool" where
  "readable_format ext chrono cal f \<longleftrightarrow> date_format (strftime_items chrono f)
     \<and> (\<forall>ts r. in_i64 ts \<and> format_with_items ext f ts = Some r \<longrightarrow> r \<noteq> [] \<and> length r \<le> 200 \<and> utf8_percent_encode ext r = r
          \<and> chrono_parse chrono r f = Some (rendered_fields cal (strftime_items chrono f) ts))"

lemma part_text_row_tag:
  "part_text ext batch time i (TagValue col) = Some s \<Longrightarrow>
    (case row_tag batch col i of None \<Rightarrow> s = PARTITION_KEY_VALUE_NULL_STR | Some v \<Rightarrow> s = encoded ext v)"
  "part_text ext batch time i (Bucket col n) = Some s \<Longrightarrow>
    (case row_tag batch col i of None \<Rightarrow> s = PARTITION_KEY_VALUE_NULL_STR
     | Some v \<Rightarrow> n \<noteq> 0 \<and> s = nat_fmt (unat (murmur3_32 ext v AND 0x7FFFFFFF) mod n))"
  by (auto simp: part_text_def row_tag_def bucket_for_tag_value_def split: option.splits if_splits bind_splits)

lemma nat_fmt_plain: "PARTITION_KEY_DELIMITER \<notin> set (nat_fmt n)" "nat_fmt n \<noteq> PARTITION_KEY_VALUE_NULL_STR"
proof -
  show "PARTITION_KEY_DELIMITER \<notin> set (nat_fmt n)"
    unfolding PARTITION_KEY_DELIMITER_def by (rule nat_fmt_no_char) simp
  have "CHR ''!'' \<notin> set (nat_fmt n)" by (rule nat_fmt_no_char) simp
  then show "nat_fmt n \<noteq> PARTITION_KEY_VALUE_NULL_STR" by (auto simp: PARTITION_KEY_VALUE_NULL_STR_def)
qed

lemma part_text_no_delimiter:
  assumes "percent_codec ext dec" "part_text ext batch time i part = Some s"
  shows "PARTITION_KEY_DELIMITER \<notin> set s"
proof -
  have "PARTITION_KEY_DELIMITER \<notin> set PARTITION_KEY_VALUE_NULL_STR"
    by (simp add: PARTITION_KEY_DELIMITER_def PARTITION_KEY_VALUE_NULL_STR_def)
  note plain = this encoded_reserved(1) [OF assms(1)] nat_fmt_plain(1)
  show ?thesis
  proof (cases part)
    case (TagValue col)
    then show ?thesis using assms(2) part_text_row_tag(1) [of ext batch time i col s] plain
      by (cases "row_tag batch col i") auto
  next
    case (Bucket col n)
    then show ?thesis using assms(2) part_text_row_tag(2) [of ext batch time i col n s] plain
      by (cases "row_tag batch col i") auto
  next
    case (TimeFormat f)
    then show ?thesis using assms(2) plain by (auto simp: part_text_TimeFormat)
  qed
qed

lemma part_back:
  assumes c: "percent_codec ext dec" and g: "grapheme_segmentation ext"
    and utf8: "\<And>col v. row_tag batch col i = Some v \<Longrightarrow> utf8_valid v"
    and cal: "utc_calendar chrono cal" and fmt: "\<And>f. part = TimeFormat f \<Longrightarrow> readable_format ext chrono cal f"
    and times: "\<And>t. t \<in> set time \<Longrightarrow> in_i64 t"
    and valid: "valid_part ok part"
    and s: "part_text ext batch time i part = Some s"
  shows "\<exists>vs. part_reads ext chrono cal batch time i part vs
    \<and> build_values dec chrono ((part, s) # rest) = map_option ((@) vs) (build_values dec chrono rest)"
proof (cases part)
  case (TagValue col)
  then show ?thesis
    using part_text_row_tag(1) [of ext batch time i col s] s parse_encoded [OF c g utf8] encoded_reserved(2) [OF c]
    by (cases "row_tag batch col i"; cases "build_values dec chrono rest") (auto simp: part_reads_def)
next
  case (Bucket col n)
  have "parse_part_bucket (nat_fmt (x mod n)) n = Some (Bucket_Id (x mod n))" if "n \<noteq> 0" for x
  proof -
    have "x mod n < n" "n < 100000" using that valid Bucket by auto
    then show ?thesis using parse_u32_nat_fmt [of "x mod n"] by (simp add: parse_part_bucket_def)
  qed
  then show ?thesis
    using part_text_row_tag(2) [of ext batch time i col n s] s Bucket nat_fmt_plain(2)
    by (cases "row_tag batch col i"; cases "build_values dec chrono rest") (auto simp: part_reads_def)
next
  case (TimeFormat f)
  then obtain r where r: "i < length time" "format_with_items ext f (time ! i) = Some r" "s = encoded ext r"
    using s by (auto simp: part_text_TimeFormat)
  have f: "readable_format ext chrono cal f" "in_i64 (time ! i)" using TimeFormat fmt times r(1) by simp_all
  then have e: "s = r" "chrono_parse chrono r f = Some (rendered_fields cal (strftime_items chrono f) (time ! i))"
    using r(2,3) by (auto simp: readable_format_def encoded_def PARTITION_KEY_MAX_PART_LEN_def)
  obtain b e where "parse_part_time_format chrono r f = Some (Some (Datetime b e))"
      "\<And>t. b \<le> t \<and> t < e \<longleftrightarrow> same_unit cal (finest (strftime_items chrono f)) t (time ! i)"
    using time_part_back [OF cal _ f(2) e(2)] f(1) by (auto simp: readable_format_def)
  then show ?thesis
    using r(3) e(1) TimeFormat encoded_reserved(2) [OF c, of r]
    by (intro exI [of _ "[(TIME_COLUMN_NAME, Datetime b e)]"]; cases "build_values dec chrono rest") (auto simp: part_reads_def)
qed

lemma split_join_parts:
  "ss \<noteq> [] \<Longrightarrow> (\<And>s. s \<in> set ss \<Longrightarrow> PARTITION_KEY_DELIMITER \<notin> set s) \<Longrightarrow> split_on PARTITION_KEY_DELIMITER (join_parts ss) = ss"
  by (induction ss rule: join_parts.induct) (auto simp: split_on_no_delimiter split_on_delimiter)

lemma build_values_back:
  assumes "percent_codec ext dec" "grapheme_segmentation ext"
    "\<And>col v. row_tag batch col i = Some v \<Longrightarrow> utf8_valid v" "utc_calendar chrono cal" "\<And>t. t \<in> set time \<Longrightarrow> in_i64 t"
    "list_all (valid_part ok) ps" "map (part_text ext batch time i) ps = map Some ss"
    "\<And>f. TimeFormat f \<in> set ps \<Longrightarrow> readable_format ext chrono cal f"
  shows "\<exists>vss. list_all2 (part_reads ext chrono cal batch time i) ps vss \<and> build_values dec chrono (zip ps ss) = Some (concat vss)"
  using assms(6-8)
proof (induction ps arbitrary: ss)
  case (Cons p ps)
  then obtain s ss' where ss: "ss = s # ss'" "part_text ext batch time i p = Some s" "map (part_text ext batch time i) ps = map Some ss'"
    by (auto simp: Cons_eq_map_conv)
  from Cons ss obtain vss where vss: "list_all2 (part_reads ext chrono cal batch time i) ps vss"
      "build_values dec chrono (zip ps ss') = Some (concat vss)" by auto
  have "valid_part ok p" using Cons.prems by simp
  then have "\<exists>vs. part_reads ext chrono cal batch time i p vs
      \<and> build_values dec chrono ((p, s) # zip ps ss') = map_option ((@) vs) (build_values dec chrono (zip ps ss'))"
    by (intro part_back [OF assms(1,2) _ assms(4) _ _ _ ss(2)]) (use assms(3,5) Cons.prems(3) in auto)
  then obtain vs where
    "part_reads ext chrono cal batch time i p vs"
    "build_values dec chrono ((p, s) # zip ps ss') = map_option ((@) vs) (build_values dec chrono (zip ps ss'))" by blast
  then show ?case using vss ss(1) by (intro exI [of _ "vs # vss"]) (simp del: build_values.simps)
qed simp

lemma row_key_reversible:
  assumes "wrapper_try_from ok t = Inr w" "percent_codec ext dec" "grapheme_segmentation ext"
    and "\<And>col v. row_tag batch col i = Some v \<Longrightarrow> utf8_valid v"
    and "utc_calendar chrono cal" "\<And>f. TimeFormat f \<in> set (template_parts (Some t)) \<Longrightarrow> readable_format ext chrono cal f"
    and "\<And>t. t \<in> set time \<Longrightarrow> in_i64 t"
    and "row_key ext batch time (template_parts (Some t)) i = Some key" "template_parts (Some t) \<noteq> []"
  shows "\<exists>vss. list_all2 (part_reads ext chrono cal batch time i) (template_parts (Some t)) vss
    \<and> build_column_values dec chrono (Some t) key = Some (concat vss)"
proof -
  have valid: "list_all (valid_part ok) (set_parts t)" using assms(1) by (rule wrapper_try_from_valid)
  from assms(8) obtain ss where ss: "map (part_text ext batch time i) (set_parts t) = map Some ss" "key = join_parts ss"
    by (auto simp: row_key_Some)
  have "PARTITION_KEY_DELIMITER \<notin> set s" if "s \<in> set ss" for s
  proof -
    from that obtain j where "j < length ss" "s = ss ! j" by (auto simp: in_set_conv_nth)
    moreover have "length (set_parts t) = length ss" using ss(1) by (metis length_map)
    ultimately have "part_text ext batch time i (set_parts t ! j) = Some s"
      using ss(1) by (metis nth_map)
    then show ?thesis by (rule part_text_no_delimiter [OF assms(2)])
  qed
  moreover have "ss \<noteq> []" using ss(1) assms(9) by auto
  ultimately have "split_on PARTITION_KEY_DELIMITER key = ss" using ss(2) split_join_parts by simp
  moreover have "\<exists>vss. list_all2 (part_reads ext chrono cal batch time i) (set_parts t) vss
      \<and> build_values dec chrono (zip (set_parts t) ss) = Some (concat vss)"
    by (rule build_values_back [OF assms(2,3) _ assms(5) _ valid ss(1)]) (use assms(4,6,7) in auto)
  ultimately show ?thesis by (simp add: build_column_values_def)
qed

text \<open>
  C16. Partition keys are reversible: for every key the batch partitioner yields under a validated template and
  every row of its range, reading the key back gives, part by part, the tag value of the row itself (or, for
  a value longer than 200 encoded bytes, a prefix of it marked as such), the bucket of the tag value, nothing
  for a missing tag, and for a time part the interval of exactly the times that agree with the row's time in
  its year, month or day, whichever is the finest the format has. Time formats are ones of a year, a month of a year or a date,
  whose texts are short, need no percent encoding and can be parsed. It relies on the documented behaviour of
  percent encoding, grapheme segmentation, date formatting and the calendar for 64-bit times.
\<close>

theorem partition_key_reversible:
  assumes "wrapper_try_from ok t = Inr w" "template_parts (Some t) \<noteq> []"
    and "percent_codec ext dec" "grapheme_segmentation ext" "ymd_by_day ext" "utc_calendar chrono cal"
    and "\<And>f. TimeFormat f \<in> set (template_parts (Some t)) \<Longrightarrow> readable_format ext chrono cal f"
    and "time_column batch = Inr time" "num_rows batch \<noteq> 0" "\<And>t. t \<in> set time \<Longrightarrow> in_i64 t"
    and "\<And>i. i < num_rows batch \<Longrightarrow> row_key ext batch time (template_parts (Some t)) i \<noteq> None"
    and "\<And>col i v. row_tag batch col i = Some v \<Longrightarrow> utf8_valid v"
    and "partition_batch ext batch (Some t) = Some items" "Some (Inr key, a, b) \<in> set items" "a \<le> i" "i < b"
  shows "\<exists>vss. list_all2 (part_reads ext chrono cal batch time i) (template_parts (Some t)) vss
    \<and> build_column_values dec chrono (Some t) key = Some (concat vss)"
proof -
  have "template_len (Some t) \<le> 8" using wrapper_try_from_len [OF assms(1)] by simp
  then have "row_key ext batch time (template_parts (Some t)) i = Some key"
    using assms(5,8,9,11,13-16) by (intro partition_batch_row) auto
  then show ?thesis
    using assms(1-4,6,7,10,12) by (intro row_key_reversible) auto
qed

subsection \<open>Length of a key\<close>

lemma length_nat_fmt: "n < 10 ^ Suc k \<Longrightarrow> length (nat_fmt n) \<le> Suc k"
proof (induction k arbitrary: n)
  case 0
  then show ?case by (subst nat_fmt.simps) simp
next
  case (Suc k)
  show ?case
  proof (cases "n < 10")
    case True
    then show ?thesis by (subst nat_fmt.simps) simp
  next
    case False
    have "n div 10 < 10 ^ Suc k" using Suc.prems by (simp add: less_mult_imp_div_less mult.commute)
    then have "length (nat_fmt (n div 10)) \<le> Suc k" by (rule Suc.IH)
    then show ?thesis using False by (subst nat_fmt.simps) simp
  qed
qed

lemma part_text_length:
  assumes "valid_part ok part" "part_text ext batch time i part = Some s"
  shows "length s \<le> 200"
proof (cases part)
  case (TagValue col)
  then show ?thesis
    using assms(2) part_text_row_tag(1) [of ext batch time i col s] encoded_bounds(2) [of ext]
    by (cases "row_tag batch col i") (auto simp: PARTITION_KEY_VALUE_NULL_STR_def PARTITION_KEY_MAX_PART_LEN_def)
next
  case (Bucket col n)
  have "length (nat_fmt (x mod n)) \<le> 200" if "n \<noteq> 0" for x
  proof -
    have "x mod n < n" "n < 100000" using that assms(1) Bucket by auto
    then have "x mod n < 10 ^ Suc 4" by simp
    from length_nat_fmt [OF this] show ?thesis by simp
  qed
  then show ?thesis
    using assms(2) part_text_row_tag(2) [of ext batch time i col n s] Bucket
    by (cases "row_tag batch col i") (auto simp: PARTITION_KEY_VALUE_NULL_STR_def intro: order_trans)
next
  case (TimeFormat f)
  then show ?thesis using assms(2) encoded_bounds(2) [of ext] by (auto simp: part_text_TimeFormat PARTITION_KEY_MAX_PART_LEN_def)
qed

lemma join_parts_length:
  "(\<And>s. s \<in> set ss \<Longrightarrow> length s \<le> 200) \<Longrightarrow> length (join_parts ss) \<le> 201 * length ss - 1"
proof (induction ss rule: join_parts.induct)
  case (3 p q ps)
  have "length (join_parts (q # ps)) \<le> 201 * length (q # ps) - 1" by (rule 3) (use 3 in auto)
  moreover have "length p \<le> 200" by (rule 3) simp
  ultimately show ?case by simp
qed auto

lemma row_key_length:
  assumes "wrapper_try_from ok t = Inr w" "row_key ext batch time (template_parts (Some t)) i = Some key"
  shows "length key \<le> 1607"
proof -
  have valid: "list_all (valid_part ok) (set_parts t)" using assms(1) by (rule wrapper_try_from_valid)
  from assms(2) obtain ss where ss: "map (part_text ext batch time i) (set_parts t) = map Some ss" "key = join_parts ss"
    by (auto simp: row_key_Some)
  have len: "length ss = length (set_parts t)" using ss(1) by (metis length_map)
  have "length s \<le> 200" if "s \<in> set ss" for s
  proof -
    from that obtain j where j: "j < length ss" "s = ss ! j" by (auto simp: in_set_conv_nth)
    then have "part_text ext batch time i (set_parts t ! j) = Some s" using ss(1) len by (metis nth_map)
    moreover have "valid_part ok (set_parts t ! j)" using valid j len by (simp add: list_all_length)
    ultimately show ?thesis using part_text_length by blast
  qed
  then have "length key \<le> 201 * length ss - 1" unfolding ss(2) by (rule join_parts_length)
  moreover have "length (set_parts t) \<le> 8" using wrapper_try_from_len [OF assms(1)] by (simp add: template_len_def)
  ultimately show ?thesis using len by linarith
qed

text \<open>
  C33. Every key the batch partitioner yields under a validated template is at most 1,607 bytes long, the
  bound stated for the catalog: eight parts of at most 200 bytes and seven delimiters.
\<close>

theorem partition_key_length_bound:
  assumes "wrapper_try_from ok t = Inr w" "ymd_by_day ext" "time_column batch = Inr time" "num_rows batch \<noteq> 0"
    and "\<And>i. i < num_rows batch \<Longrightarrow> row_key ext batch time (template_parts (Some t)) i \<noteq> None"
    and "partition_batch ext batch (Some t) = Some items" "Some (Inr key, a, b) \<in> set items" "a < b"
  shows "length key \<le> 1607"
proof -
  have "template_len (Some t) \<le> 8" using wrapper_try_from_len [OF assms(1)] by simp
  then have "row_key ext batch time (template_parts (Some t)) a = Some key"
    using assms(2-8) by (intro partition_batch_row) auto
  then show ?thesis using assms(1) row_key_length by blast
qed

subsection \<open>Instances\<close>

text \<open>
  A concrete codec, segmentation, formatter and hash with the documented behaviour, and a batch of three rows
  with one tag column.
\<close>

definition hex_digit :: "nat \<Rightarrow> char" where
  "hex_digit n = char_of (if n < 10 then 48 + n else 55 + n)"

definition unhex :: "char \<Rightarrow> nat" where
  "unhex c = (if byte c < 58 then byte c - 48 else byte c - 55)"

definition demo_enc_byte :: "char \<Rightarrow> string" where
  "demo_enc_byte c = (if c \<in> set ''|!^#%'' \<or> byte c < 32 \<or> 127 \<le> byte c
     then [CHR ''%'', hex_digit (byte c div 16), hex_digit (byte c mod 16)] else [c])"

fun demo_decode :: "string \<Rightarrow> string" where
  "demo_decode (c # a # b # s) =
     (if c = CHR ''%'' then char_of (16 * unhex a + unhex b) # demo_decode s else c # demo_decode (a # b # s))"
| "demo_decode s = s"

definition demo_ext :: Partition_Ext where
  "demo_ext = \<lparr>utf8_percent_encode = (\<lambda>s. concat (map demo_enc_byte s)), graphemes = (\<lambda>s. [s]),
     format_with_items = (\<lambda>f t. Some (nat_fmt (nat (t div DAY_NANOSECONDS + 200000)))), murmur3_32 = (\<lambda>s. of_nat (length s))\<rparr>"

lemma byte_hex_digit: "n < 16 \<Longrightarrow> byte (hex_digit n) = (if n < 10 then 48 + n else 55 + n)"
  by (simp add: hex_digit_def)

lemma nibbles: "byte c div 16 < 16" "byte c mod 16 < 16"
  using less_mult_imp_div_less [of "byte c" 16 16] by simp_all

lemma unhex_hex: "n < 16 \<Longrightarrow> unhex (hex_digit n) = n"
  by (simp add: unhex_def byte_hex_digit)

lemma demo_decode_plain: "c \<noteq> CHR ''%'' \<Longrightarrow> demo_decode (c # s) = c # demo_decode s"
  by (cases "c # s" rule: demo_decode.cases) auto

lemma demo_decode_enc_byte: "demo_decode (demo_enc_byte c @ s) = c # demo_decode s"
proof -
  have "char_of (16 * unhex (hex_digit (byte c div 16)) + unhex (hex_digit (byte c mod 16))) = c"
    using nibbles [of c] by (simp add: unhex_hex)
  then show ?thesis by (simp add: demo_enc_byte_def demo_decode_plain)
qed

lemma demo_codec: "percent_codec demo_ext (\<lambda>s. Some (demo_decode s))"
  unfolding percent_codec_def
proof (intro conjI allI impI)
  fix s t :: string
  assume "utf8_valid s \<and> (\<forall>c \<in> set t. byte c < 0x80 \<and> c \<noteq> CHR ''%'')"
  then have "\<forall>c \<in> set t. c \<noteq> CHR ''%''" by blast
  then have t: "demo_decode t = t" by (induction t) (simp_all add: demo_decode_plain)
  have "demo_decode (concat (map demo_enc_byte s) @ t) = s @ t"
    using t by (induction s) (simp_all add: demo_decode_enc_byte)
  then show "Some (demo_decode (utf8_percent_encode demo_ext s @ t)) = Some (s @ t)" by (simp add: demo_ext_def)
next
  fix s :: string
  have "set (demo_enc_byte c) \<inter> set ''|!^#'' = {}" for c
  proof -
    have "48 \<le> byte (hex_digit n)" if "n < 16" for n using that by (simp add: byte_hex_digit)
    moreover have "byte (hex_digit n) < 71" if "n < 16" for n using that by (simp add: byte_hex_digit)
    ultimately have "hex_digit n \<notin> set ''|!^#''" if "n < 16" for n using that by fastforce
    then have h: "hex_digit (byte c div 16) \<notin> set ''|!^#''" "hex_digit (byte c mod 16) \<notin> set ''|!^#''"
      using nibbles [of c] by blast+
    obtain h1 h2 where "h1 \<notin> set ''|!^#''" "h2 \<notin> set ''|!^#''"
        "demo_enc_byte c = (if c \<in> set ''|!^#%'' \<or> byte c < 32 \<or> 127 \<le> byte c then [CHR ''%'', h1, h2] else [c])"
      using h unfolding demo_enc_byte_def by blast
    then show ?thesis by auto
  qed
  then show "set (utf8_percent_encode demo_ext s) \<inter> set ''|!^#'' = {}" by (auto simp: demo_ext_def)
next
  fix s :: string
  have "demo_enc_byte c \<noteq> []" for c by (simp add: demo_enc_byte_def)
  then show "utf8_percent_encode demo_ext s = [] \<longleftrightarrow> s = []" by (cases s) (simp_all add: demo_ext_def)
qed (simp add: demo_ext_def)

lemma demo_graphemes: "grapheme_segmentation demo_ext"
  by (simp add: grapheme_segmentation_def demo_ext_def)

lemma demo_ymd: "ymd_by_day demo_ext"
  by (simp add: ymd_by_day_def demo_ext_def DAY_NANOSECONDS_def minus_mod_eq_mult_div)

definition demo_column :: "nat PartitioningColumn" where
  "demo_column = \<lparr>is_valid = (\<lambda>i. i < 2), get_tag_identity_key = Some,
     get_tag_value = (\<lambda>k. Some (if k = 0 then ''x|y'' else ''z'')), type_description = ''tag''\<rparr>"

definition demo_times :: "int list" where
  "demo_times = [7, 100000000000000, 100000000000001]"

definition demo_batch :: "nat Batch" where
  "demo_batch = \<lparr>num_rows = 3, batch_column = (\<lambda>c. if c \<in> {''a'', ''b''} then Some demo_column else None), time_column = Inr demo_times\<rparr>"

definition demo_template :: proto_template where
  "demo_template = [Some (TagValue ''a''), Some (TimeFormat ''%Y-%m-%d''), Some (Bucket ''b'' 7)]"

definition demo_key :: "nat \<Rightarrow> string" where
  "demo_key i = the (row_key demo_ext demo_batch demo_times (template_parts (Some demo_template)) i)"

lemma demo_parts: "set_parts demo_template = [TagValue ''a'', TimeFormat ''%Y-%m-%d'', Bucket ''b'' 7]"
  by (simp add: demo_template_def)

lemma demo_valid: "wrapper_try_from (\<lambda>_. True) demo_template = Inr demo_template"
  by (simp add: wrapper_try_from_def demo_template_def MAXIMUM_NUMBER_OF_TEMPLATE_PARTS_def TAG_VALUE_KEY_TIME_def ALLOWED_BUCKET_QUANTITIES_def)

lemma demo_keys: "i < 3 \<Longrightarrow> row_key demo_ext demo_batch demo_times (template_parts (Some demo_template)) i = Some (demo_key i)"
proof -
  assume i: "i < 3"
  have "part_text demo_ext demo_batch demo_times i (TagValue ''a'') \<noteq> None"
    by (simp add: part_text_def demo_batch_def demo_column_def)
  moreover have "part_text demo_ext demo_batch demo_times i (TimeFormat ''%Y-%m-%d'') \<noteq> None"
    using i by (simp add: part_text_def nth_opt_def demo_ext_def demo_times_def)
  moreover have "part_text demo_ext demo_batch demo_times i (Bucket ''b'' 7) \<noteq> None"
    by (simp add: part_text_def demo_batch_def demo_column_def bucket_for_tag_value_def)
  ultimately have "row_key demo_ext demo_batch demo_times (template_parts (Some demo_template)) i \<noteq> None"
    by (auto simp: row_key_def demo_parts)
  then show ?thesis by (simp add: demo_key_def)
qed

lemma demo_len: "template_len (Some demo_template) \<le> 8"
  by (simp add: template_len_def demo_parts)

lemma demo_batch_fields: "time_column demo_batch = Inr demo_times" "num_rows demo_batch = 3" "length demo_times = 3"
    "t \<in> set demo_times \<Longrightarrow> in_i64 t"
  by (auto simp: demo_batch_def demo_times_def in_i64_def i64_min_def i64_max_def)

theorem partition_batch_exact_witness:
  "\<exists>rs. partition_batch demo_ext demo_batch (Some demo_template) = Some (map (\<lambda>(k, a, b). Some (Inr k, a, b)) rs)
    \<and> contiguous 0 3 rs
    \<and> concat (map (\<lambda>(k, a, b). replicate (b - a) k) rs) = map demo_key [0..<3]
    \<and> distinct_adj (map fst rs)"
  using partition_batch_exact [of demo_batch demo_times "Some demo_template" demo_ext demo_key]
    demo_batch_fields demo_len demo_ymd demo_keys by simp

theorem partition_write_partition_exact_witness:
  "\<exists>m. partition_write_partition demo_ext demo_batch (Some demo_template) = Some (Inr m)
    \<and> dom m = demo_key ` {..<3}
    \<and> (\<forall>k pw. m k = Some pw \<longrightarrow> write_of demo_batch demo_times (filter (\<lambda>i. demo_key i = k) [0..<3]) pw)"
  using partition_write_partition_exact [of demo_batch demo_times "Some demo_template" demo_ext demo_key]
    demo_batch_fields demo_len demo_ymd demo_keys by (simp add: demo_parts)

definition demo_write :: "nat PartitionWrite" where
  "demo_write = \<lparr>pw_batch = demo_batch, pw_ranges = [(0, 3)], pw_min_timestamp = 7,
     pw_max_timestamp = 100000000000001, pw_row_count = 3\<rparr>"

lemma demo_write_of: "write_of demo_batch demo_times [0, 1, 2] demo_write"
  by (simp add: write_of_def demo_write_def demo_times_def upt_rec)

theorem partition_write_filter_exact_witness:
  "\<exists>r. partition_write_filter demo_write (\<lambda>t. t < 10) = Some r
    \<and> (r = None \<longleftrightarrow> filter (\<lambda>i. demo_times ! i < 10) [0, 1, 2] = [])
    \<and> (\<forall>pw'. r = Some pw' \<longrightarrow> write_of demo_batch demo_times (filter (\<lambda>i. demo_times ! i < 10) [0, 1, 2]) pw')"
  by (rule partition_write_filter_exact [OF demo_write_of]) (simp_all add: demo_batch_fields)

lemma demo_utf8: "row_tag demo_batch col i = Some v \<Longrightarrow> utf8_valid v"
proof -
  assume "row_tag demo_batch col i = Some v"
  then have "v = ''x|y'' \<or> v = ''z''" by (auto simp: row_tag_def demo_batch_def demo_column_def split: if_splits)
  then show ?thesis by (auto intro!: utf8_1 utf8_Nil simp: utf8_len_def)
qed

text \<open>
  A calendar of 30-day months and 360-day years. A date is rendered as the number of its day, counted from a day before any 64-bit time.
\<close>

definition demo_calendar :: Calendar where
  "demo_calendar = \<lparr>year_of = (\<lambda>t. t div DAY_NANOSECONDS div 360), month_of = (\<lambda>t. t div DAY_NANOSECONDS mod 360 div 30 + 1),
     day_of = (\<lambda>t. t div DAY_NANOSECONDS mod 360 mod 30 + 1)\<rparr>"

definition demo_items_of :: "Item list" where
  "demo_items_of = [Item_Numeric Year, Literal, Item_Numeric Month, Literal, Item_Numeric Day]"

definition demo_chrono :: Chrono where
  "demo_chrono = \<lparr>strftime_items = (\<lambda>_. demo_items_of),
     chrono_parse = (\<lambda>s _. map_option (\<lambda>n. rendered_fields demo_calendar demo_items_of ((int n - 200000) * DAY_NANOSECONDS)) (parse_u32 s)),
     set_month = (\<lambda>m p. Some (p\<lparr>p_month := Some m\<rparr>)), set_day = (\<lambda>d p. Some (p\<lparr>p_day := Some d\<rparr>)),
     set_hour = (\<lambda>h p. Some (p\<lparr>p_hour_div_12 := Some (h div 12), p_hour_mod_12 := Some (h mod 12)\<rparr>)),
     set_minute = (\<lambda>m p. Some (p\<lparr>p_minute := Some m\<rparr>)),
     to_datetime = (\<lambda>p. do { y \<leftarrow> p_year p; m \<leftarrow> p_month p; d \<leftarrow> p_day p; Some ((360 * y + 30 * (m - 1) + (d - 1)) * DAY_NANOSECONDS) }),
     add_months = (\<lambda>b n. Some (b + 30 * int n * DAY_NANOSECONDS)), add_days = (\<lambda>b n. Some (b + int n * DAY_NANOSECONDS))\<rparr>"

lemma day_interval: "b * DAY_NANOSECONDS \<le> t \<and> t < b * DAY_NANOSECONDS + n * DAY_NANOSECONDS \<longleftrightarrow> b \<le> t div DAY_NANOSECONDS \<and> t div DAY_NANOSECONDS < b + n"
  by (auto simp: DAY_NANOSECONDS_def)

lemma demo_digits:
  fixes a b c q s :: int
  assumes "0 \<le> s" "s < 30" "0 \<le> b" "b < 12" "0 \<le> c" "c < 12"
  shows "360 * q + 30 * c \<le> 360 * a + (30 * b + s) \<and> 360 * a + (30 * b + s) < 360 * q + 30 * c + 30 \<longleftrightarrow> a = q \<and> b = c"
proof
  assume h: "360 * q + 30 * c \<le> 360 * a + (30 * b + s) \<and> 360 * a + (30 * b + s) < 360 * q + 30 * c + 30"
  have "\<not> a < q" "\<not> q < a" using h assms by linarith+
  then have "a = q" by simp
  then show "a = q \<and> b = c" using h assms by linarith
qed (use assms in auto)

lemma demo_split:
  fixes x :: int
  shows "360 * (x div 360) + (30 * (x mod 360 div 30) + x mod 360 mod 30) = x"
  by (simp only: mult_div_mod_eq)

lemma demo_range: fixes x :: int shows "0 \<le> x mod 360 div 30" "x mod 360 div 30 < 12"
proof -
  have "0 \<le> x mod 360" "x mod 360 < 360" by simp_all
  then show "0 \<le> x mod 360 div 30" "x mod 360 div 30 < 12" by linarith+
qed

lemma demo_units:
  fixes x k :: int
  shows "360 * (k div 360) \<le> x \<and> x < 360 * (k div 360) + 360 \<longleftrightarrow> x div 360 = k div 360"
    and "360 * (k div 360) + 30 * (k mod 360 div 30) \<le> x \<and> x < 360 * (k div 360) + 30 * (k mod 360 div 30) + 30
      \<longleftrightarrow> x div 360 = k div 360 \<and> x mod 360 div 30 = k mod 360 div 30"
    and "360 * (k div 360) + 30 * (k mod 360 div 30) + k mod 360 mod 30 \<le> x \<and> x < 360 * (k div 360) + 30 * (k mod 360 div 30) + k mod 360 mod 30 + 1
      \<longleftrightarrow> x div 360 = k div 360 \<and> x mod 360 div 30 = k mod 360 div 30 \<and> x mod 360 mod 30 = k mod 360 mod 30"
proof -
  show "360 * (k div 360) \<le> x \<and> x < 360 * (k div 360) + 360 \<longleftrightarrow> x div 360 = k div 360" by linarith
  have s: "0 \<le> x mod 360 mod 30" "x mod 360 mod 30 < 30" by (rule pos_mod_sign pos_mod_bound, simp)+
  show "360 * (k div 360) + 30 * (k mod 360 div 30) \<le> x \<and> x < 360 * (k div 360) + 30 * (k mod 360 div 30) + 30
      \<longleftrightarrow> x div 360 = k div 360 \<and> x mod 360 div 30 = k mod 360 div 30"
    using demo_digits [OF s demo_range [of x] demo_range [of k], of "k div 360" "x div 360"] unfolding demo_split [of x] .
  show "360 * (k div 360) + 30 * (k mod 360 div 30) + k mod 360 mod 30 \<le> x \<and> x < 360 * (k div 360) + 30 * (k mod 360 div 30) + k mod 360 mod 30 + 1
      \<longleftrightarrow> x div 360 = k div 360 \<and> x mod 360 div 30 = k mod 360 div 30 \<and> x mod 360 mod 30 = k mod 360 mod 30" (is "?l \<longleftrightarrow> ?r")
  proof
    assume ?l
    then have "x = k" using demo_split [of k] by linarith
    then show ?r by simp
  next
    assume r: ?r
    have "x = k"
      using demo_split [of x] demo_split [of k] unfolding conjunct1 [OF r] conjunct1 [OF conjunct2 [OF r]] conjunct2 [OF conjunct2 [OF r]] by linarith
    then show ?l using demo_split [of k] by linarith
  qed
qed

lemma day_pos: "0 < DAY_NANOSECONDS"
  by (simp add: DAY_NANOSECONDS_def)

lemma demo_utc: "utc_calendar demo_chrono demo_calendar"
proof -
  have "\<exists>b d m y. to_datetime demo_chrono (full_date (first_day demo_calendar n ts)) = Some b
      \<and> add_days demo_chrono b 1 = Some d \<and> add_months demo_chrono b 1 = Some m \<and> add_months demo_chrono b 12 = Some y \<and> d \<le> m \<and> m \<le> y
      \<and> (\<forall>t. b \<le> t \<and> t < (case n of Year \<Rightarrow> y | Month \<Rightarrow> m | _ \<Rightarrow> d) \<longleftrightarrow> same_unit demo_calendar n t ts)" for ts n
    using day_interval [where n = 360] day_interval [where n = 30] day_interval [where n = 1] demo_units [of "ts div DAY_NANOSECONDS"] day_pos
    by (cases n) (simp_all add: demo_chrono_def demo_calendar_def full_date_def)
  then show ?thesis by (simp add: utc_calendar_def) (simp add: demo_chrono_def)
qed

lemma demo_readable: "readable_format demo_ext demo_chrono demo_calendar f"
proof -
  have "date_format demo_items_of" by (simp add: date_format_def demo_items_of_def)
  moreover have "length (nat_fmt (nat (ts div DAY_NANOSECONDS + 200000))) \<le> 200
      \<and> concat (map demo_enc_byte (nat_fmt (nat (ts div DAY_NANOSECONDS + 200000)))) = nat_fmt (nat (ts div DAY_NANOSECONDS + 200000))
      \<and> map_option (\<lambda>n. rendered_fields demo_calendar demo_items_of ((int n - 200000) * DAY_NANOSECONDS)) (parse_u32 (nat_fmt (nat (ts div DAY_NANOSECONDS + 200000))))
        = Some (rendered_fields demo_calendar demo_items_of ts)" if "in_i64 ts" for ts
  proof -
    let ?k = "ts div DAY_NANOSECONDS + 200000"
    have k: "0 \<le> ?k" "?k < 400000" using that by (auto simp: in_i64_def i64_min_def i64_max_def DAY_NANOSECONDS_def)
    then have "nat ?k < 10 ^ Suc 5" "nat ?k < 2 ^ 32" by simp_all
    moreover have "demo_enc_byte c = [c]" if "c \<in> set (nat_fmt m)" for c m
      using nat_fmt_digits [OF that] by (auto simp: demo_enc_byte_def)
    then have "concat (map demo_enc_byte (nat_fmt m)) = nat_fmt m" for m
      by (metis (no_types, lifting) concat_map_singleton list.map_ident map_eq_conv)
    moreover have "rendered_fields demo_calendar demo_items_of ((int (nat ?k) - 200000) * DAY_NANOSECONDS) = rendered_fields demo_calendar demo_items_of ts"
      using k(1) by (simp add: rendered_fields_def demo_calendar_def DAY_NANOSECONDS_def)
    ultimately show ?thesis using length_nat_fmt [of "nat ?k" 5] parse_u32_nat_fmt [of "nat ?k"] by simp
  qed
  ultimately show ?thesis by (simp add: readable_format_def demo_ext_def demo_chrono_def)
qed

lemma demo_items: "\<exists>items. partition_batch demo_ext demo_batch (Some demo_template) = Some items
    \<and> (\<exists>k b. 0 < b \<and> Some (Inr k, 0, b) \<in> set items)"
proof -
  have "partition_batch demo_ext demo_batch (Some demo_template) =
      Some (map (\<lambda>(k, a, b). Some (Inr k, a, b)) (runs (demo_key 0) 0 1 (map demo_key [1..<num_rows demo_batch])))"
    by (rule partition_batch_runs [OF demo_batch_fields(1) _ demo_len demo_ymd demo_keys])
      (simp_all add: demo_batch_fields)
  moreover obtain e rs where "runs (demo_key 0) 0 1 (map demo_key [1..<num_rows demo_batch]) = (demo_key 0, 0, e) # rs"
    using runs_head by metis
  moreover from this have "0 < e"
    using runs_contiguous [of 0 1 "map demo_key [1..<num_rows demo_batch]" "demo_key 0"] by simp
  ultimately show ?thesis by auto
qed

theorem partition_key_reversible_witness:
  "\<exists>items k b vss. partition_batch demo_ext demo_batch (Some demo_template) = Some items \<and> Some (Inr k, 0, b) \<in> set items
    \<and> list_all2 (part_reads demo_ext demo_chrono demo_calendar demo_batch demo_times 0) (template_parts (Some demo_template)) vss
    \<and> build_column_values (\<lambda>s. Some (demo_decode s)) demo_chrono (Some demo_template) k = Some (concat vss)"
proof -
  obtain items k b where i: "partition_batch demo_ext demo_batch (Some demo_template) = Some items" "0 < b" "Some (Inr k, 0, b) \<in> set items"
    using demo_items by blast
  have "\<exists>vss. list_all2 (part_reads demo_ext demo_chrono demo_calendar demo_batch demo_times 0) (template_parts (Some demo_template)) vss
    \<and> build_column_values (\<lambda>s. Some (demo_decode s)) demo_chrono (Some demo_template) k = Some (concat vss)"
    by (rule partition_key_reversible [OF demo_valid _ demo_codec demo_graphemes demo_ymd demo_utc demo_readable demo_batch_fields(1) _
          demo_batch_fields(4) _ demo_utf8 i(1,3) _ i(2)])
      (use demo_keys in \<open>simp_all add: demo_parts demo_batch_fields\<close>)
  with i show ?thesis by blast
qed

theorem partition_key_length_bound_witness:
  "\<exists>items k b. partition_batch demo_ext demo_batch (Some demo_template) = Some items \<and> Some (Inr k, 0, b) \<in> set items \<and> length k \<le> 1607"
proof -
  obtain items k b where i: "partition_batch demo_ext demo_batch (Some demo_template) = Some items" "0 < b" "Some (Inr k, 0, b) \<in> set items"
    using demo_items by blast
  have "length k \<le> 1607"
    by (rule partition_key_length_bound [OF demo_valid demo_ymd demo_batch_fields(1) _ _ i(1,3,2)])
      (use demo_keys in \<open>simp_all add: demo_batch_fields\<close>)
  with i show ?thesis by blast
qed

text \<open>
  C34. A template all of whose parts are unset passes validation, but partitioning any batch of at least one
  row with it panics: the generated key is empty and is rejected by an assertion.
\<close>

theorem unset_template_accepted_but_panics:
  assumes "t \<noteq> []" "length t \<le> 8" "set t = {None}" "time_column batch = Inr time" "num_rows batch \<noteq> 0"
    and "length time = num_rows batch"
  shows "wrapper_try_from strftime_ok t = Inr t \<and> partition_write_partition ext batch (Some t) = None"
proof -
  have p: "set_parts t = []" using assms(3) by (auto simp: set_parts_def)
  then have "validate_parts strftime_ok [] t = Inr ()" by (simp add: validate_parts_iff)
  then have v: "wrapper_try_from strftime_ok t = Inr t"
    using assms(1,2) by (simp add: wrapper_try_from_def MAXIMUM_NUMBER_OF_TEMPLATE_PARTS_def)
  have rest: "rest_keys ext ([] :: 'a Template list) idxs = map (\<lambda>_. Some None) idxs" for idxs
    by (induction idxs) auto
  have enc: "range_encode (map (\<lambda>_. Some None) idxs) (Some (Some v)) s e = [Some (v, s, e + length idxs)]"
    for idxs :: "nat list" and v :: "PartitionKeyError + string" and s e
    by (induction idxs arbitrary: e) auto
  have "partition_batch ext batch (Some t) = Some [Some (Inr [], 0, num_rows batch)]"
    using assms(4,5) p
    by (simp add: partition_batch_def template_len_def partition_keys_def rest enc)
  then show ?thesis
    using v assms(4-6) by (simp add: partition_write_partition_def checked_sub_def slice_range_def partition_key_from_def case_prod_beta)
qed

theorem unset_template_accepted_but_panics_witness:
  "wrapper_try_from (\<lambda>_. True) [None] = Inr [None] \<and> partition_write_partition demo_ext demo_batch (Some [None]) = None"
  by (rule unset_template_accepted_but_panics [OF _ _ _ demo_batch_fields(1)]) (simp_all add: demo_batch_fields)

end
