(* ===== verification/Catalog_Types.thy ===== *)
theory Catalog_Types
  imports Columns Partition_Template
begin

text \<open>
  The catalog's data objects of \<^verbatim>\<open>data_types\<close>: compaction levels, service limits, namespaces, tables,
  partitions with their hash ids, skipped compactions and parquet files, with the schema objects built from
  them. SHA-256 is a parameter. An object store id is the canonical text of its UUID.
\<close>

type_synonym PartitionId = int
type_synonym ParquetFileId = int
type_synonym ObjectStoreId = string

subsection \<open>Compaction levels\<close>

datatype CompactionLevel = Initial | FileNonOverlapped | Final

definition compaction_level_code :: "CompactionLevel \<Rightarrow> int" where
  "compaction_level_code l = (case l of Initial \<Rightarrow> 0 | FileNonOverlapped \<Rightarrow> 1 | Final \<Rightarrow> 2)"

definition compaction_level_try_from :: "int \<Rightarrow> CompactionLevel option" where
  "compaction_level_try_from value =
     (if value = compaction_level_code Initial then Some Initial
      else if value = compaction_level_code FileNonOverlapped then Some FileNonOverlapped
      else if value = compaction_level_code Final then Some Final
      else None)"

definition compaction_level_next :: "CompactionLevel \<Rightarrow> CompactionLevel" where
  "compaction_level_next l = (case l of Initial \<Rightarrow> FileNonOverlapped | FileNonOverlapped \<Rightarrow> Final | Final \<Rightarrow> Final)"

definition compaction_level_prev :: "CompactionLevel \<Rightarrow> CompactionLevel" where
  "compaction_level_prev l = (case l of Initial \<Rightarrow> Initial | FileNonOverlapped \<Rightarrow> Initial | Final \<Rightarrow> FileNonOverlapped)"

subsection \<open>Service limits\<close>

datatype ServiceLimitError = MustBeGreaterThanZero | NoValueSpecified | MustFitInI32

text \<open>\<^verbatim>\<open>MaxTables\<close> and \<^verbatim>\<open>MaxColumnsPerTable\<close> are non-zero counts.\<close>

type_synonym service_limit = nat

definition service_limit_try_from_usize :: "nat \<Rightarrow> ServiceLimitError + service_limit" where
  "service_limit_try_from_usize value =
     (if \<not> value < 2 ^ 31 then Inl MustFitInI32
      else if value = 0 then Inl MustBeGreaterThanZero
      else Inr value)"

definition service_limit_try_from_i32 :: "int \<Rightarrow> ServiceLimitError + service_limit" where
  "service_limit_try_from_i32 value =
     (if value < 0 then Inl MustBeGreaterThanZero
      else if nat value = 0 then Inl MustBeGreaterThanZero
      else Inr (nat value))"

text \<open>\<^verbatim>\<open>get_i32\<close>: the conversion to 32 bits wraps around.\<close>

definition service_limit_get_i32 :: "service_limit \<Rightarrow> int" where
  "service_limit_get_i32 l = (let m = int l mod 2 ^ 32 in if m < 2 ^ 31 then m else m - 2 ^ 32)"

definition default_max_tables :: service_limit where
  "default_max_tables = 500"

definition default_max_columns_per_table :: service_limit where
  "default_max_columns_per_table = 200"

record NamespaceServiceProtectionLimitsOverride =
  l_max_tables :: "service_limit option"
  l_max_columns_per_table :: "service_limit option"

subsection \<open>Namespaces and tables\<close>

record Namespace =
  ns_id :: NamespaceId
  ns_name :: string
  ns_retention_period_ns :: "int option"
  ns_max_tables :: service_limit
  ns_max_columns_per_table :: service_limit
  ns_deleted_at :: "Timestamp option"
  ns_partition_template :: NamespacePartitionTemplateOverride

record Table =
  t_id :: TableId
  t_namespace_id :: NamespaceId
  t_name :: string
  t_partition_template :: TablePartitionTemplateOverride

record TableSchema =
  ts_id :: TableId
  ts_partition_template :: TablePartitionTemplateOverride
  ts_columns :: ColumnsByName

definition table_schema_new_empty_from :: "Table \<Rightarrow> TableSchema" where
  "table_schema_new_empty_from table =
     \<lparr>ts_id = t_id table, ts_partition_template = t_partition_template table, ts_columns = []\<rparr>"

definition table_schema_add_column_schema :: "TableSchema \<Rightarrow> string \<Rightarrow> ColumnSchema \<Rightarrow> TableSchema option" where
  "table_schema_add_column_schema self column_name column_schema = do {
     columns \<leftarrow> columns_add_column (ts_columns self) column_name column_schema;
     Some (self\<lparr>ts_columns := columns\<rparr>)
   }"

definition table_schema_add_column :: "TableSchema \<Rightarrow> Column \<Rightarrow> TableSchema option" where
  "table_schema_add_column self col = do {
     assert_that (col_table_id col = ts_id self);
     table_schema_add_column_schema self (col_name col) \<lparr>csch_id = col_id col, csch_column_type = col_column_type col\<rparr>
   }"

record NamespaceSchema =
  nss_id :: NamespaceId
  nss_tables :: "(string \<times> TableSchema) list"
  nss_max_tables :: service_limit
  nss_max_columns_per_table :: service_limit
  nss_retention_period_ns :: "int option"
  nss_partition_template :: NamespacePartitionTemplateOverride

definition namespace_schema_new_empty_from :: "Namespace \<Rightarrow> NamespaceSchema" where
  "namespace_schema_new_empty_from namespace =
     \<lparr>nss_id = ns_id namespace, nss_tables = [], nss_max_tables = ns_max_tables namespace,
      nss_max_columns_per_table = ns_max_columns_per_table namespace,
      nss_retention_period_ns = ns_retention_period_ns namespace,
      nss_partition_template = ns_partition_template namespace\<rparr>"

subsection \<open>Partitions\<close>

text \<open>The hash id of a partition is the SHA-256 of the big-endian table id followed by the key.\<close>

type_synonym PartitionHashId = string

definition table_id_to_be_bytes :: "TableId \<Rightarrow> string" where
  "table_id_to_be_bytes t = map (\<lambda>k. char_of (nat (t mod 2 ^ 64) div 256 ^ k)) (rev [0..<8])"

definition partition_hash_id_new :: "(string \<Rightarrow> string) \<Rightarrow> TableId \<Rightarrow> string \<Rightarrow> PartitionHashId" where
  "partition_hash_id_new sha256 table_id key = sha256 (table_id_to_be_bytes table_id @ key)"

datatype TransitionPartitionId = Deprecated PartitionId | Deterministic PartitionHashId

definition transition_partition_id_from_parts :: "PartitionId \<Rightarrow> PartitionHashId option \<Rightarrow> TransitionPartitionId" where
  "transition_partition_id_from_parts i hash_id = (case hash_id of Some x \<Rightarrow> Deterministic x | None \<Rightarrow> Deprecated i)"

record Partition =
  p_id :: PartitionId
  p_hash_id :: "PartitionHashId option"
  p_table_id :: TableId
  p_partition_key :: string
  p_sort_key_ids :: SortKeyIds
  p_new_file_at :: "Timestamp option"

definition partition_sort_key_ids :: "Partition \<Rightarrow> SortKeyIds option" where
  "partition_sort_key_ids self = (if p_sort_key_ids self = [] then None else Some (p_sort_key_ids self))"

definition partition_set_sort_key_ids :: "SortKeyIds \<Rightarrow> Partition \<Rightarrow> Partition" where
  "partition_set_sort_key_ids sort_key_ids self = self\<lparr>p_sort_key_ids := sort_key_ids\<rparr>"

record SkippedCompaction =
  sc_partition_id :: PartitionId
  sc_reason :: string
  sc_skipped_at :: Timestamp
  sc_estimated_bytes :: int
  sc_limit_bytes :: int
  sc_num_files :: int
  sc_limit_num_files :: int
  sc_limit_num_files_first_in_partition :: int

subsection \<open>Parquet files\<close>

record ParquetFile =
  f_id :: ParquetFileId
  f_namespace_id :: NamespaceId
  f_table_id :: TableId
  f_partition_id :: PartitionId
  f_partition_hash_id :: "PartitionHashId option"
  f_object_store_id :: ObjectStoreId
  f_min_time :: Timestamp
  f_max_time :: Timestamp
  f_to_delete :: "Timestamp option"
  f_file_size_bytes :: int
  f_row_count :: int
  f_compaction_level :: CompactionLevel
  f_created_at :: Timestamp
  f_column_set :: ColumnSet
  f_max_l0_created_at :: Timestamp

record ParquetFileParams =
  fp_namespace_id :: NamespaceId
  fp_table_id :: TableId
  fp_partition_id :: PartitionId
  fp_partition_hash_id :: "PartitionHashId option"
  fp_object_store_id :: ObjectStoreId
  fp_min_time :: Timestamp
  fp_max_time :: Timestamp
  fp_file_size_bytes :: int
  fp_row_count :: int
  fp_compaction_level :: CompactionLevel
  fp_created_at :: Timestamp
  fp_column_set :: ColumnSet
  fp_max_l0_created_at :: Timestamp

definition parquet_file_from_params :: "ParquetFileParams \<Rightarrow> ParquetFileId \<Rightarrow> ParquetFile" where
  "parquet_file_from_params params i =
     \<lparr>f_id = i, f_namespace_id = fp_namespace_id params, f_table_id = fp_table_id params,
      f_partition_id = fp_partition_id params, f_partition_hash_id = fp_partition_hash_id params,
      f_object_store_id = fp_object_store_id params, f_min_time = fp_min_time params,
      f_max_time = fp_max_time params, f_to_delete = None, f_file_size_bytes = fp_file_size_bytes params,
      f_row_count = fp_row_count params, f_compaction_level = fp_compaction_level params,
      f_created_at = fp_created_at params, f_column_set = fp_column_set params,
      f_max_l0_created_at = fp_max_l0_created_at params\<rparr>"

definition parquet_file_overlaps :: "ParquetFile \<Rightarrow> ParquetFile \<Rightarrow> bool" where
  "parquet_file_overlaps self other \<longleftrightarrow> f_min_time self \<le> f_max_time other \<and> f_max_time self \<ge> f_min_time other"

definition parquet_file_overlaps_time_range :: "ParquetFile \<Rightarrow> Timestamp \<Rightarrow> Timestamp \<Rightarrow> bool" where
  "parquet_file_overlaps_time_range self min_time max_time \<longleftrightarrow> f_min_time self \<le> max_time \<and> f_max_time self \<ge> min_time"

definition parquet_file_needs_split :: "ParquetFile \<Rightarrow> int list \<Rightarrow> bool" where
  "parquet_file_needs_split self split_times \<longleftrightarrow> list_ex (\<lambda>t. f_min_time self \<le> t \<and> f_max_time self > t) split_times"

definition parquet_file_overlaps_ranges :: "ParquetFile \<Rightarrow> FileRange list \<Rightarrow> bool" where
  "parquet_file_overlaps_ranges self ranges \<longleftrightarrow>
     list_ex (\<lambda>range. f_min_time self \<le> fr_max range \<and> f_max_time self \<ge> fr_min range) ranges"

definition parquet_file_transition_partition_id :: "ParquetFile \<Rightarrow> TransitionPartitionId" where
  "parquet_file_transition_partition_id self =
     transition_partition_id_from_parts (f_partition_id self) (f_partition_hash_id self)"

subsection \<open>Facts\<close>

lemma be_bytes_length [simp]: "length (table_id_to_be_bytes t) = 8"
  by (simp add: table_id_to_be_bytes_def)

text \<open>The bytes of a table id determine it.\<close>

lemma digits_determine:
  fixes n m :: nat
  assumes "\<And>j. j < k \<Longrightarrow> n div 256 ^ j mod 256 = m div 256 ^ j mod 256"
  shows "n mod 256 ^ k = m mod 256 ^ k"
  using assms
proof (induction k)
  case (Suc k)
  have "x mod 256 ^ Suc k = 256 ^ k * (x div 256 ^ k mod 256) + x mod 256 ^ k" for x :: nat
    using mod_mult2_eq [of x "256 ^ k" 256] by (simp add: mult.commute)
  moreover have "n mod 256 ^ k = m mod 256 ^ k" using Suc by simp
  moreover have "n div 256 ^ k mod 256 = m div 256 ^ k mod 256" by (rule Suc.prems) simp
  ultimately show ?case by metis
qed simp

lemma table_id_bytes_inj:
  assumes "table_id_to_be_bytes t = table_id_to_be_bytes u" "in_i64 t" "in_i64 u"
  shows "t = u"
proof -
  define n m where "n = nat (t mod 2 ^ 64)" and "m = nat (u mod 2 ^ 64)"
  have eq: "\<forall>j \<in> set (rev [0..<8]). (char_of (n div 256 ^ j) :: char) = char_of (m div 256 ^ j)"
    using assms(1) unfolding table_id_to_be_bytes_def map_eq_conv n_def m_def .
  have "n div 256 ^ j mod 256 = m div 256 ^ j mod 256" if "j < 8" for j
  proof -
    have "(char_of (n div 256 ^ j) :: char) = char_of (m div 256 ^ j)"
      using eq that by (simp del: upt_rec_numeral)
    then have "(of_char (char_of (n div 256 ^ j)) :: nat) = of_char (char_of (m div 256 ^ j))" by simp
    then show ?thesis by simp
  qed
  then have "n mod 256 ^ 8 = m mod 256 ^ 8" by (rule digits_determine)
  moreover have "n < 256 ^ 8" "m < 256 ^ 8" by (simp_all add: n_def m_def nat_less_iff)
  ultimately have "t mod 2 ^ 64 = u mod 2 ^ 64" by (simp add: n_def m_def nat_eq_iff)
  then have "(t - i64_min) mod 2 ^ 64 = (u - i64_min) mod 2 ^ 64" by (rule mod_diff_cong) simp
  then show ?thesis using assms(2,3) by (simp add: in_i64_def i64_min_def i64_max_def)
qed

text \<open>Distinct partitions have distinct hash inputs, so their hash ids only collide where the hash does.\<close>

lemma partition_hash_id_collision:
  assumes "partition_hash_id_new sha256 t k = partition_hash_id_new sha256 t' k'" "in_i64 t" "in_i64 t'"
    and "\<And>x y. sha256 x = sha256 y \<Longrightarrow> x = y"
  shows "t = t' \<and> k = k'"
  using assms table_id_bytes_inj [of t t'] by (fastforce simp: partition_hash_id_new_def)

end
