(* ===== verification/Mem_Catalog.thy ===== *)
theory Mem_Catalog
  imports Catalog_Types
begin

text \<open>
  The in-memory catalog of \<^verbatim>\<open>iox_catalog/src/mem.rs\<close>: every operation of its five repositories on the shared
  collections. An operation takes the state and returns the new state with its result; errors are the left
  summand, and a surrounding option marks the operations that can panic. Each operation holds the mutex
  for its whole body, so concurrent use is a sequence of these steps. The clock is an argument; the
  iteration order of a hash map argument is the order of the list.
\<close>

subsection \<open>State\<close>

datatype Error = External string | AlreadyExists string | LimitExceeded string | NotFound string

datatype 'a CasFailure = ValueMismatch 'a | QueryError Error

datatype SoftDeletedRows = AllRows | ExcludeDeleted | OnlyDeleted

record 'a Versioned =
  v_generation :: nat
  v_value :: 'a

definition versioned_from :: "'a \<Rightarrow> 'a Versioned" where
  "versioned_from value = \<lparr>v_generation = 0, v_value = value\<rparr>"

record MemCollections =
  mc_namespaces :: "Namespace list"
  mc_tables :: "Table Versioned list"
  mc_columns :: "Column list"
  mc_partitions :: "Partition Versioned list"
  mc_skipped_compactions :: "SkippedCompaction list"
  mc_parquet_files :: "ParquetFile list"

definition mem_new :: MemCollections where
  "mem_new = \<lparr>mc_namespaces = [], mc_tables = [], mc_columns = [], mc_partitions = [],
     mc_skipped_compactions = [], mc_parquet_files = []\<rparr>"

definition mem_add_partition :: "Partition \<Rightarrow> MemCollections \<Rightarrow> MemCollections" where
  "mem_add_partition p stage = stage\<lparr>mc_partitions := mc_partitions stage @ [versioned_from p]\<rparr>"

definition MAX_PARQUET_FILES_SELECTED_ONCE_FOR_RETENTION :: nat where
  "MAX_PARQUET_FILES_SELECTED_ONCE_FOR_RETENTION = 1000"

definition MAX_PARQUET_FILES_SELECTED_ONCE_FOR_DELETE :: nat where
  "MAX_PARQUET_FILES_SELECTED_ONCE_FOR_DELETE = 10000"

text \<open>The cast \<^verbatim>\<open>as i64\<close> of an unsigned 64-bit number.\<close>

definition as_i64 :: "nat \<Rightarrow> int" where
  "as_i64 n = (let m = int n mod 2 ^ 64 in if m < 2 ^ 63 then m else m - 2 ^ 64)"

subsection \<open>Namespaces\<close>

definition namespace_create :: "string \<Rightarrow> NamespacePartitionTemplateOverride option \<Rightarrow> int option \<Rightarrow>
    NamespaceServiceProtectionLimitsOverride option \<Rightarrow> MemCollections \<Rightarrow> MemCollections \<times> (Error + Namespace)" where
  "namespace_create name partition_template retention_period_ns service_protection_limits stage =
     (if list_ex (\<lambda>n. ns_name n = name) (mc_namespaces stage)
      then (stage, Inl (AlreadyExists name))
      else let
          max_tables = (case Option.bind service_protection_limits l_max_tables of
            Some l \<Rightarrow> l | None \<Rightarrow> default_max_tables);
          max_columns_per_table = (case Option.bind service_protection_limits l_max_columns_per_table of
            Some l \<Rightarrow> l | None \<Rightarrow> default_max_columns_per_table);
          namespace = \<lparr>ns_id = int (length (mc_namespaces stage)) + 1, ns_name = name,
            ns_retention_period_ns = retention_period_ns, ns_max_tables = max_tables,
            ns_max_columns_per_table = max_columns_per_table, ns_deleted_at = None,
            ns_partition_template = (case partition_template of Some t \<Rightarrow> t | None \<Rightarrow> None)\<rparr>
        in (stage\<lparr>mc_namespaces := mc_namespaces stage @ [namespace]\<rparr>, Inr namespace))"

definition filter_namespace_soft_delete :: "Namespace list \<Rightarrow> SoftDeletedRows \<Rightarrow> Namespace list" where
  "filter_namespace_soft_delete v deleted = filter (\<lambda>v. case deleted of
     AllRows \<Rightarrow> True | ExcludeDeleted \<Rightarrow> ns_deleted_at v = None | OnlyDeleted \<Rightarrow> ns_deleted_at v \<noteq> None) v"

definition namespace_list :: "SoftDeletedRows \<Rightarrow> MemCollections \<Rightarrow> Namespace list" where
  "namespace_list deleted stage = filter_namespace_soft_delete (mc_namespaces stage) deleted"

definition namespace_get_by_id :: "NamespaceId \<Rightarrow> SoftDeletedRows \<Rightarrow> MemCollections \<Rightarrow> Namespace option" where
  "namespace_get_by_id i deleted stage =
     find (\<lambda>n. ns_id n = i) (filter_namespace_soft_delete (mc_namespaces stage) deleted)"

definition namespace_get_by_name :: "string \<Rightarrow> SoftDeletedRows \<Rightarrow> MemCollections \<Rightarrow> Namespace option" where
  "namespace_get_by_name name deleted stage =
     find (\<lambda>n. ns_name n = name) (filter_namespace_soft_delete (mc_namespaces stage) deleted)"

text \<open>The updates of a namespace by name share this body.\<close>

definition namespace_update :: "string \<Rightarrow> (Namespace \<Rightarrow> Namespace) \<Rightarrow> MemCollections \<Rightarrow> MemCollections \<times> (Error + Namespace)" where
  "namespace_update name f stage =
     (case find (\<lambda>n. ns_name n = name) (mc_namespaces stage) of
        Some n \<Rightarrow> (stage\<lparr>mc_namespaces := update_first (\<lambda>n. ns_name n = name) f (mc_namespaces stage)\<rparr>, Inr (f n))
      | None \<Rightarrow> (stage, Inl (NotFound name)))"

definition namespace_soft_delete :: "Timestamp \<Rightarrow> string \<Rightarrow> MemCollections \<Rightarrow> MemCollections \<times> (Error + unit)" where
  "namespace_soft_delete now name stage =
     apsnd (map_sum id (\<lambda>_. ())) (namespace_update name (\<lambda>n. n\<lparr>ns_deleted_at := Some now\<rparr>) stage)"

definition namespace_update_table_limit :: "string \<Rightarrow> service_limit \<Rightarrow> MemCollections \<Rightarrow> MemCollections \<times> (Error + Namespace)" where
  "namespace_update_table_limit name new_max = namespace_update name (\<lambda>n. n\<lparr>ns_max_tables := new_max\<rparr>)"

definition namespace_update_column_limit :: "string \<Rightarrow> service_limit \<Rightarrow> MemCollections \<Rightarrow> MemCollections \<times> (Error + Namespace)" where
  "namespace_update_column_limit name new_max = namespace_update name (\<lambda>n. n\<lparr>ns_max_columns_per_table := new_max\<rparr>)"

definition namespace_update_retention_period :: "string \<Rightarrow> int option \<Rightarrow> MemCollections \<Rightarrow> MemCollections \<times> (Error + Namespace)" where
  "namespace_update_retention_period name retention_period_ns =
     namespace_update name (\<lambda>n. n\<lparr>ns_retention_period_ns := retention_period_ns\<rparr>)"

subsection \<open>Columns\<close>

definition column_type_conflict :: "string \<Rightarrow> ColumnType \<Rightarrow> ColumnType \<Rightarrow> Error" where
  "column_type_conflict name have_type want_type = AlreadyExists
     (''column '' @ name @ '' is type '' @ column_type_as_str have_type @ '' but schema update has type '' @ column_type_as_str want_type)"

definition push_column :: "string \<Rightarrow> TableId \<Rightarrow> ColumnType \<Rightarrow> MemCollections \<Rightarrow> MemCollections \<times> Column" where
  "push_column name table_id column_type stage =
     (let c = \<lparr>col_id = int (length (mc_columns stage)) + 1, col_table_id = table_id, col_name = name, col_column_type = column_type\<rparr>
      in (stage\<lparr>mc_columns := mc_columns stage @ [c]\<rparr>, c))"

text \<open>The check that precedes \<^verbatim>\<open>create_or_get_column\<close>.\<close>

definition column_limit_check :: "MemCollections \<Rightarrow> string \<Rightarrow> TableId \<Rightarrow> Error + unit" where
  "column_limit_check stage name table_id =
     (case find (\<lambda>t. t_id (v_value t) = table_id) (mc_tables stage) of
        None \<Rightarrow> Inl (NotFound (''table: '' @ int_fmt table_id))
      | Some t \<Rightarrow>
          (case find (\<lambda>n. ns_id n = t_namespace_id (v_value t)) (mc_namespaces stage) of
             None \<Rightarrow> Inl (NotFound [])
           | Some n \<Rightarrow>
               (let columns_count = length (filter (\<lambda>c. col_table_id c = table_id) (mc_columns stage))
                in if columns_count \<ge> ns_max_columns_per_table n
                   then Inl (LimitExceeded (''couldn't create column '' @ name @ '' in table '' @ int_fmt table_id @ ''; limit reached on namespace''))
                   else Inr ())))"

definition create_or_get_column :: "string \<Rightarrow> TableId \<Rightarrow> ColumnType \<Rightarrow> MemCollections \<Rightarrow> MemCollections \<times> (Error + Column)" where
  "create_or_get_column name table_id column_type stage =
     (case column_limit_check stage name table_id of
        Inl e \<Rightarrow> (stage, Inl e)
      | Inr _ \<Rightarrow>
          (case find (\<lambda>t. col_name t = name \<and> col_table_id t = table_id) (mc_columns stage) of
             Some c \<Rightarrow>
               if column_type = col_column_type c then (stage, Inr c)
               else (stage, Inl (column_type_conflict name (col_column_type c) column_type))
           | None \<Rightarrow> apsnd Inr (push_column name table_id column_type stage)))"

fun create_or_get_many_unchecked :: "TableId \<Rightarrow> (string \<times> ColumnType) list \<Rightarrow> MemCollections \<Rightarrow> MemCollections \<times> (Error + Column list)" where
  "create_or_get_many_unchecked table_id [] stage = (stage, Inr [])"
| "create_or_get_many_unchecked table_id ((column_name, column_type) # columns) stage =
     (case find (\<lambda>t. col_name t = column_name \<and> col_table_id t = table_id) (mc_columns stage) of
        Some c \<Rightarrow>
          if column_type = col_column_type c
          then apsnd (map_sum id ((#) c)) (create_or_get_many_unchecked table_id columns stage)
          else (stage, Inl (column_type_conflict column_name (col_column_type c) column_type))
      | None \<Rightarrow>
          (case push_column column_name table_id column_type stage of
             (stage, c) \<Rightarrow> apsnd (map_sum id ((#) c)) (create_or_get_many_unchecked table_id columns stage)))"

definition column_list_by_namespace_id :: "NamespaceId \<Rightarrow> MemCollections \<Rightarrow> Column list" where
  "column_list_by_namespace_id namespace_id stage =
     (let table_ids = map (\<lambda>t. t_id (v_value t)) (filter (\<lambda>t. t_namespace_id (v_value t) = namespace_id) (mc_tables stage))
      in filter (\<lambda>c. col_table_id c \<in> set table_ids) (mc_columns stage))"

definition column_list_by_table_id :: "TableId \<Rightarrow> MemCollections \<Rightarrow> Column list" where
  "column_list_by_table_id table_id stage = filter (\<lambda>c. col_table_id c = table_id) (mc_columns stage)"

definition column_list :: "MemCollections \<Rightarrow> Column list" where
  "column_list stage = mc_columns stage"

subsection \<open>Tables\<close>

text \<open>Tag columns of the template are created one after the other; the first error is returned.\<close>

fun create_template_columns :: "TableId \<Rightarrow> TemplatePart list \<Rightarrow> MemCollections \<Rightarrow> MemCollections \<times> (Error + unit)" where
  "create_template_columns table_id [] stage = (stage, Inr ())"
| "create_template_columns table_id (TagValue tag_name # parts) stage =
     (case create_or_get_column tag_name table_id CT_Tag stage of
        (stage, Inl e) \<Rightarrow> (stage, Inl e)
      | (stage, Inr _) \<Rightarrow> create_template_columns table_id parts stage)"
| "create_template_columns table_id (part # parts) stage = create_template_columns table_id parts stage"

definition table_create :: "string \<Rightarrow> TablePartitionTemplateOverride \<Rightarrow> NamespaceId \<Rightarrow> MemCollections \<Rightarrow>
    MemCollections \<times> (Error + Table)" where
  "table_create name partition_template namespace_id stage =
     (case find (\<lambda>n. ns_id n = namespace_id) (mc_namespaces stage) of
        None \<Rightarrow> (stage, Inl (NotFound []))
      | Some n \<Rightarrow>
          (let tables_count = length (filter (\<lambda>t. t_namespace_id (v_value t) = namespace_id) (mc_tables stage))
           in if tables_count \<ge> ns_max_tables n
              then (stage, Inl (LimitExceeded (''couldn't create table '' @ name @ ''; limit reached on namespace '' @ int_fmt namespace_id)))
              else (case find (\<lambda>t. t_name (v_value t) = name \<and> t_namespace_id (v_value t) = namespace_id) (mc_tables stage) of
                  Some t \<Rightarrow> (stage, Inl (AlreadyExists (''table '' @ [CHR 0x27] @ name @ [CHR 0x27] @ '' in namespace '' @ int_fmt namespace_id)))
                | None \<Rightarrow>
                    (let table = \<lparr>t_id = int (length (mc_tables stage)) + 1, t_namespace_id = namespace_id, t_name = name,
                           t_partition_template = partition_template\<rparr>;
                         stage = stage\<lparr>mc_tables := mc_tables stage @ [versioned_from table]\<rparr>
                     in case create_template_columns (t_id table) (template_parts (t_partition_template table)) stage of
                          (stage, Inl e) \<Rightarrow> (stage, Inl e)
                        | (stage, Inr _) \<Rightarrow> (stage, Inr table)))))"

definition table_get_by_id :: "TableId \<Rightarrow> MemCollections \<Rightarrow> Table option" where
  "table_get_by_id table_id stage = map_option v_value (find (\<lambda>t. t_id (v_value t) = table_id) (mc_tables stage))"

definition table_get_by_namespace_and_name :: "NamespaceId \<Rightarrow> string \<Rightarrow> MemCollections \<Rightarrow> Table option" where
  "table_get_by_namespace_and_name namespace_id name stage =
     map_option v_value (find (\<lambda>t. t_namespace_id (v_value t) = namespace_id \<and> t_name (v_value t) = name) (mc_tables stage))"

definition table_list_by_namespace_id :: "NamespaceId \<Rightarrow> MemCollections \<Rightarrow> Table list" where
  "table_list_by_namespace_id namespace_id stage =
     map v_value (filter (\<lambda>t. t_namespace_id (v_value t) = namespace_id) (mc_tables stage))"

definition table_list :: "MemCollections \<Rightarrow> Table list" where
  "table_list stage = map v_value (mc_tables stage)"

text \<open>
  \<^verbatim>\<open>snapshot\<close>: the result is the content that is encoded, i.e.\ the arguments of \<^verbatim>\<open>TableSnapshot::encode\<close>. Encoding it as protobuf
  messages may fail or panic, by then the generation has been raised: \<open>encode\<close> is a parameter. The generation
  is a \<^verbatim>\<open>u64\<close> whose increment panics on overflow.
\<close>

definition table_snapshot :: "(Table \<times> Partition list \<times> Column list \<times> nat \<Rightarrow> (Error + unit) option) \<Rightarrow> TableId \<Rightarrow> MemCollections \<Rightarrow>
    (MemCollections \<times> (Error + Table \<times> Partition list \<times> Column list \<times> nat)) option" where
  "table_snapshot encode table_id stage =
     (case find (\<lambda>x. t_id (v_value x) = table_id) (mc_tables stage) of
        None \<Rightarrow> Some (stage, Inl (NotFound (int_fmt table_id)))
      | Some table \<Rightarrow> do {
          next_generation \<leftarrow> u64_add (v_generation table) 1;
          let stage = stage\<lparr>mc_tables := update_first (\<lambda>x. t_id (v_value x) = table_id)
            (\<lambda>t. t\<lparr>v_generation := next_generation\<rparr>) (mc_tables stage)\<rparr>;
          let content = (v_value table,
            map v_value (filter (\<lambda>x. p_table_id (v_value x) = table_id) (mc_partitions stage)),
            filter (\<lambda>x. col_table_id x = table_id) (mc_columns stage),
            v_generation table);
          r \<leftarrow> encode content;
          Some (stage, case r of Inl e \<Rightarrow> Inl e | Inr _ \<Rightarrow> Inr content)
        })"

subsection \<open>Partitions\<close>

definition partition_create_or_get :: "(string \<Rightarrow> string) \<Rightarrow> string \<Rightarrow> TableId \<Rightarrow> MemCollections \<Rightarrow> MemCollections \<times> Partition" where
  "partition_create_or_get sha256 key table_id stage =
     (case find (\<lambda>p. p_partition_key (v_value p) = key \<and> p_table_id (v_value p) = table_id) (mc_partitions stage) of
        Some p \<Rightarrow> (stage, v_value p)
      | None \<Rightarrow>
          (let p = \<lparr>p_id = int (length (mc_partitions stage)) + 1, p_hash_id = Some (partition_hash_id_new sha256 table_id key),
                 p_table_id = table_id, p_partition_key = key, p_sort_key_ids = [], p_new_file_at = None\<rparr>
           in (stage\<lparr>mc_partitions := mc_partitions stage @ [versioned_from p]\<rparr>, p)))"

definition partition_get_by_id_batch :: "PartitionId list \<Rightarrow> MemCollections \<Rightarrow> Partition list" where
  "partition_get_by_id_batch partition_ids stage =
     map v_value (filter (\<lambda>p. p_id (v_value p) \<in> set partition_ids) (mc_partitions stage))"

definition partition_list_by_table_id :: "TableId \<Rightarrow> MemCollections \<Rightarrow> Partition list" where
  "partition_list_by_table_id table_id stage =
     map v_value (filter (\<lambda>p. p_table_id (v_value p) = table_id) (mc_partitions stage))"

definition partition_list_ids :: "MemCollections \<Rightarrow> PartitionId list" where
  "partition_list_ids stage = map (\<lambda>p. p_id (v_value p)) (mc_partitions stage)"

definition partition_cas_sort_key :: "PartitionId \<Rightarrow> SortKeyIds option \<Rightarrow> SortKeyIds \<Rightarrow> MemCollections \<Rightarrow>
    MemCollections \<times> (SortKeyIds CasFailure + Partition)" where
  "partition_cas_sort_key partition_id old_sort_key_ids new_sort_key_ids stage =
     (case find (\<lambda>p. p_id (v_value p) = partition_id) (mc_partitions stage) of
        Some p \<Rightarrow>
          if partition_sort_key_ids (v_value p) = old_sort_key_ids
          then (stage\<lparr>mc_partitions := update_first (\<lambda>p. p_id (v_value p) = partition_id)
                  (\<lambda>p. p\<lparr>v_value := partition_set_sort_key_ids new_sort_key_ids (v_value p)\<rparr>) (mc_partitions stage)\<rparr>,
                Inr (partition_set_sort_key_ids new_sort_key_ids (v_value p)))
          else (stage, Inl (ValueMismatch (case partition_sort_key_ids (v_value p) of Some k \<Rightarrow> k | None \<Rightarrow> [])))
      | None \<Rightarrow> (stage, Inl (QueryError (NotFound (int_fmt partition_id)))))"

definition record_skipped_compaction :: "Timestamp \<Rightarrow> PartitionId \<Rightarrow> string \<Rightarrow> nat \<Rightarrow> nat \<Rightarrow> nat \<Rightarrow> nat \<Rightarrow> nat \<Rightarrow>
    MemCollections \<Rightarrow> MemCollections" where
  "record_skipped_compaction now partition_id reason num_files limit_num_files limit_num_files_first_in_partition
       estimated_bytes limit_bytes stage =
     (let sc = \<lparr>sc_partition_id = partition_id, sc_reason = reason, sc_skipped_at = now,
            sc_estimated_bytes = as_i64 estimated_bytes, sc_limit_bytes = as_i64 limit_bytes,
            sc_num_files = as_i64 num_files, sc_limit_num_files = as_i64 limit_num_files,
            sc_limit_num_files_first_in_partition = as_i64 limit_num_files_first_in_partition\<rparr>
      in case find (\<lambda>s. sc_partition_id s = partition_id) (mc_skipped_compactions stage) of
           Some s \<Rightarrow> stage\<lparr>mc_skipped_compactions :=
             update_first (\<lambda>s. sc_partition_id s = partition_id) (\<lambda>_. sc) (mc_skipped_compactions stage)\<rparr>
         | None \<Rightarrow> stage\<lparr>mc_skipped_compactions := mc_skipped_compactions stage @ [sc]\<rparr>)"

definition get_in_skipped_compactions :: "PartitionId list \<Rightarrow> MemCollections \<Rightarrow> SkippedCompaction list" where
  "get_in_skipped_compactions partition_ids stage =
     filter (\<lambda>s. sc_partition_id s \<in> set partition_ids) (mc_skipped_compactions stage)"

text \<open>The third case of the final match is \<^verbatim>\<open>unreachable!\<close>.\<close>

definition list_skipped_compactions :: "MemCollections \<Rightarrow> SkippedCompaction list" where
  "list_skipped_compactions stage = mc_skipped_compactions stage"

definition delete_skipped_compactions :: "PartitionId \<Rightarrow> MemCollections \<Rightarrow> (MemCollections \<times> SkippedCompaction option) option" where
  "delete_skipped_compactions partition_id stage =
     (let removed = filter (\<lambda>sc. sc_partition_id sc = partition_id) (mc_skipped_compactions stage);
          remaining = filter (\<lambda>sc. sc_partition_id sc \<noteq> partition_id) (mc_skipped_compactions stage);
          stage = stage\<lparr>mc_skipped_compactions := remaining\<rparr>
      in if removed = [] then Some (stage, None)
         else if butlast removed = [] then Some (stage, Some (last removed))
         else None)"

definition partition_most_recent_n :: "nat \<Rightarrow> MemCollections \<Rightarrow> Partition list" where
  "partition_most_recent_n n stage = map v_value (take n (rev (mc_partitions stage)))"

text \<open>\<^verbatim>\<open>Option\<close> is ordered with \<^verbatim>\<open>None\<close> first.\<close>

definition partitions_new_file_between :: "Timestamp \<Rightarrow> Timestamp option \<Rightarrow> MemCollections \<Rightarrow> PartitionId list" where
  "partitions_new_file_between minimum_time maximum_time stage =
     map (\<lambda>p. p_id (v_value p)) (filter (\<lambda>p.
       (case p_new_file_at (v_value p) of None \<Rightarrow> False | Some t \<Rightarrow> t > minimum_time)
       \<and> (case maximum_time of None \<Rightarrow> True | Some mx \<Rightarrow>
            (case p_new_file_at (v_value p) of None \<Rightarrow> True | Some t \<Rightarrow> t < mx))) (mc_partitions stage))"

definition partition_list_old_style :: "MemCollections \<Rightarrow> Partition list" where
  "partition_list_old_style stage = map v_value (filter (\<lambda>p. p_hash_id (v_value p) = None) (mc_partitions stage))"

definition partition_snapshot :: "(NamespaceId \<times> Partition \<times> ParquetFile list \<times> SkippedCompaction option \<times> nat \<Rightarrow> (Error + unit) option) \<Rightarrow> PartitionId \<Rightarrow> MemCollections \<Rightarrow>
    (MemCollections \<times> (Error + NamespaceId \<times> Partition \<times> ParquetFile list \<times> SkippedCompaction option \<times> nat)) option" where
  "partition_snapshot encode partition_id stage =
     (case find (\<lambda>x. p_id (v_value x) = partition_id) (mc_partitions stage) of
        None \<Rightarrow> Some (stage, Inl (NotFound (''Partition '' @ int_fmt partition_id @ '' not found'')))
      | Some part \<Rightarrow> do {
          next_generation \<leftarrow> u64_add (v_generation part) 1;
          let stage = stage\<lparr>mc_partitions := update_first (\<lambda>x. p_id (v_value x) = partition_id)
            (\<lambda>p. p\<lparr>v_generation := next_generation\<rparr>) (mc_partitions stage)\<rparr>;
          let files = filter (\<lambda>x. f_partition_id x = partition_id \<and> f_to_delete x = None) (mc_parquet_files stage);
          (case find (\<lambda>x. t_id (v_value x) = p_table_id (v_value part)) (mc_tables stage) of
             None \<Rightarrow> Some (stage, Inl (NotFound (''Table '' @ int_fmt (p_table_id (v_value part)) @ '' not found'')))
           | Some table \<Rightarrow> do {
               let content = (t_namespace_id (v_value table), v_value part, files,
                 find (\<lambda>sc. sc_partition_id sc = partition_id) (mc_skipped_compactions stage), v_generation part);
               r \<leftarrow> encode content;
               Some (stage, case r of Inl e \<Rightarrow> Inl e | Inr _ \<Rightarrow> Inr content)
             })
        })"

subsection \<open>Parquet files\<close>

text \<open>
  The lazy pipeline of \<^verbatim>\<open>flag_for_delete_by_retention\<close>: it stops pulling files after \<open>k\<close> were flagged.
  The subtraction \<^verbatim>\<open>now - rp\<close> panics when it leaves the range of \<^verbatim>\<open>i64\<close>.
\<close>

fun retention_loop :: "Timestamp \<Rightarrow> Namespace list \<Rightarrow> nat \<Rightarrow> ParquetFile list \<Rightarrow>
    (ParquetFile list \<times> (PartitionId \<times> ObjectStoreId) list) option" where
  "retention_loop now namespaces k [] = Some ([], [])"
| "retention_loop now namespaces k (f # fs) =
     (if k = 0 then Some (f # fs, [])
      else if f_to_delete f \<noteq> None then map_option (apfst ((#) f)) (retention_loop now namespaces k fs)
      else case Option.bind (find (\<lambda>n. ns_id n = f_namespace_id f) namespaces) ns_retention_period_ns of
             None \<Rightarrow> map_option (apfst ((#) f)) (retention_loop now namespaces k fs)
           | Some rp \<Rightarrow> do {
               cutoff \<leftarrow> timestamp_sub now rp;
               if f_max_time f < cutoff
               then map_option (\<lambda>(fs, ids). (f\<lparr>f_to_delete := Some now\<rparr> # fs, (f_partition_id f, f_object_store_id f) # ids))
                 (retention_loop now namespaces (k - 1) fs)
               else map_option (apfst ((#) f)) (retention_loop now namespaces k fs)
             })"

definition flag_for_delete_by_retention :: "Timestamp \<Rightarrow> MemCollections \<Rightarrow>
    (MemCollections \<times> (PartitionId \<times> ObjectStoreId) list) option" where
  "flag_for_delete_by_retention now stage = do {
     (files, ids) \<leftarrow> retention_loop now (mc_namespaces stage) MAX_PARQUET_FILES_SELECTED_ONCE_FOR_RETENTION (mc_parquet_files stage);
     Some (stage\<lparr>mc_parquet_files := files\<rparr>, ids)
   }"

definition delete_old_ids_only :: "Timestamp \<Rightarrow> MemCollections \<Rightarrow> MemCollections \<times> ObjectStoreId list" where
  "delete_old_ids_only older_than stage =
     (let old = (\<lambda>f. case f_to_delete f of None \<Rightarrow> False | Some marked_deleted \<Rightarrow> marked_deleted < older_than);
          delete = filter old (mc_parquet_files stage);
          keep = filter (\<lambda>f. \<not> old f) (mc_parquet_files stage)
      in (stage\<lparr>mc_parquet_files := keep\<rparr>,
          map f_object_store_id (take MAX_PARQUET_FILES_SELECTED_ONCE_FOR_DELETE delete)))"

definition list_by_partition_not_to_delete_batch :: "PartitionId list \<Rightarrow> MemCollections \<Rightarrow> ParquetFile list" where
  "list_by_partition_not_to_delete_batch partition_ids stage =
     filter (\<lambda>f. f_partition_id f \<in> set partition_ids \<and> f_to_delete f = None) (mc_parquet_files stage)"

definition parquet_get_by_object_store_id :: "ObjectStoreId \<Rightarrow> MemCollections \<Rightarrow> ParquetFile option" where
  "parquet_get_by_object_store_id object_store_id stage =
     find (\<lambda>f. f_object_store_id f = object_store_id) (mc_parquet_files stage)"

definition exists_by_object_store_id_batch :: "ObjectStoreId list \<Rightarrow> MemCollections \<Rightarrow> ObjectStoreId list" where
  "exists_by_object_store_id_batch object_store_ids stage =
     map f_object_store_id (filter (\<lambda>f. f_object_store_id f \<in> set object_store_ids) (mc_parquet_files stage))"

definition create_parquet_file :: "ParquetFileParams \<Rightarrow> MemCollections \<Rightarrow> MemCollections \<times> (Error + ParquetFile)" where
  "create_parquet_file params stage =
     (if list_ex (\<lambda>f. f_object_store_id f = fp_object_store_id params) (mc_parquet_files stage)
      then (stage, Inl (AlreadyExists (fp_object_store_id params)))
      else let
          parquet_file = parquet_file_from_params params (int (length (mc_parquet_files stage)) + 1);
          stage = stage\<lparr>mc_parquet_files := mc_parquet_files stage @ [parquet_file]\<rparr>
        in case find (\<lambda>p. p_id (v_value p) = f_partition_id parquet_file) (mc_partitions stage) of
             None \<Rightarrow> (stage, Inl (NotFound (int_fmt (f_partition_id parquet_file))))
           | Some p \<Rightarrow> (stage\<lparr>mc_partitions := update_first (\<lambda>p. p_id (v_value p) = f_partition_id parquet_file)
                 (\<lambda>p. p\<lparr>v_value := (v_value p)\<lparr>p_new_file_at := Some (f_created_at parquet_file)\<rparr>\<rparr>) (mc_partitions stage)\<rparr>,
               Inr parquet_file))"

definition flag_for_delete :: "PartitionId \<Rightarrow> ObjectStoreId \<Rightarrow> Timestamp \<Rightarrow> MemCollections \<Rightarrow> MemCollections \<times> (Error + unit)" where
  "flag_for_delete partition_id i marked_at stage =
     (case find (\<lambda>p. f_object_store_id p = i \<and> f_partition_id p = partition_id) (mc_parquet_files stage) of
        Some f \<Rightarrow>
          if f_to_delete f = None
          then (stage\<lparr>mc_parquet_files := update_first (\<lambda>p. f_object_store_id p = i \<and> f_partition_id p = partition_id)
                  (\<lambda>f. f\<lparr>f_to_delete := Some marked_at\<rparr>) (mc_parquet_files stage)\<rparr>, Inr ())
          else (stage, Inl (NotFound (''parquet file '' @ i @ '' not found for delete'')))
      | None \<Rightarrow> (stage, Inl (NotFound (''parquet file '' @ i @ '' not found for delete''))))"

definition update_compaction_level :: "PartitionId \<Rightarrow> ObjectStoreId list \<Rightarrow> CompactionLevel \<Rightarrow> MemCollections \<Rightarrow>
    MemCollections \<times> (Error + ObjectStoreId list)" where
  "update_compaction_level partition_id object_store_ids compaction_level stage =
     (let all_ids = map f_object_store_id (filter (\<lambda>f. f_partition_id f = partition_id \<and> f_to_delete f = None) (mc_parquet_files stage))
      in case find (\<lambda>i. i \<notin> set all_ids) object_store_ids of
           Some i \<Rightarrow> (stage, Inl (NotFound (''parquet file '' @ i @ '' not found for upgrade'')))
         | None \<Rightarrow>
             (let hit = (\<lambda>p. f_object_store_id p \<in> set object_store_ids \<and> f_partition_id p = partition_id)
              in (stage\<lparr>mc_parquet_files := map (\<lambda>f. if hit f then f\<lparr>f_compaction_level := compaction_level\<rparr> else f) (mc_parquet_files stage)\<rparr>,
                  Inr (map f_object_store_id (filter hit (mc_parquet_files stage))))))"

text \<open>The loops of \<^verbatim>\<open>create_upgrade_delete\<close>; \<open>clock n\<close> is the reading of the clock for the \<open>n\<close>th deletion.\<close>

fun delete_loop :: "PartitionId \<Rightarrow> (nat \<Rightarrow> Timestamp) \<Rightarrow> nat \<Rightarrow> ObjectStoreId list \<Rightarrow> MemCollections \<Rightarrow> MemCollections \<times> (Error + unit)" where
  "delete_loop partition_id clock n [] stage = (stage, Inr ())"
| "delete_loop partition_id clock n (i # ids) stage =
     (case flag_for_delete partition_id i (clock n) stage of
        (stage, Inl e) \<Rightarrow> (stage, Inl e)
      | (stage, Inr _) \<Rightarrow> delete_loop partition_id clock (n + 1) ids stage)"

fun create_loop :: "PartitionId \<Rightarrow> ParquetFileParams list \<Rightarrow> MemCollections \<Rightarrow> MemCollections \<times> (Error + ParquetFileId list)" where
  "create_loop partition_id [] stage = (stage, Inr [])"
| "create_loop partition_id (file # files) stage =
     (if fp_partition_id file \<noteq> partition_id
      then (stage, Inl (External (''Inconsistent ParquetFileParams, expected PartitionId('' @ int_fmt partition_id
        @ '') got PartitionId('' @ int_fmt (fp_partition_id file) @ '')'')))
      else case create_parquet_file file stage of
             (stage, Inl e) \<Rightarrow> (stage, Inl e)
           | (stage, Inr res) \<Rightarrow> apsnd (map_sum id ((#) (f_id res))) (create_loop partition_id files stage))"

definition create_upgrade_delete :: "(nat \<Rightarrow> Timestamp) \<Rightarrow> PartitionId \<Rightarrow> ObjectStoreId list \<Rightarrow> ObjectStoreId list \<Rightarrow>
    ParquetFileParams list \<Rightarrow> CompactionLevel \<Rightarrow> MemCollections \<Rightarrow> (MemCollections \<times> (Error + ParquetFileId list)) option" where
  "create_upgrade_delete clock partition_id delete upgrade create target_level collections = do {
     assert_that (set delete \<inter> set upgrade = {});
     Some (case delete_loop partition_id clock 0 delete collections of
        (_, Inl e) \<Rightarrow> (collections, Inl e)
      | (stage, Inr _) \<Rightarrow>
          (case update_compaction_level partition_id upgrade target_level stage of
             (_, Inl e) \<Rightarrow> (collections, Inl e)
           | (stage, Inr _) \<Rightarrow>
               (case create_loop partition_id create stage of
                  (_, Inl e) \<Rightarrow> (collections, Inl e)
                | (stage, Inr ids) \<Rightarrow> (stage, Inr ids))))
   }"

end
