(* ===== verification/Mem_Facts.thy ===== *)
theory Mem_Facts
  imports Mem_Catalog
begin

text \<open>
  Invariants of the in-memory catalog over all sequences of operations, what each operation does, and the
  places where it departs from what its interface promises.
\<close>

subsection \<open>Tables of rows with sequential ids and unique keys\<close>

definition rows_ok :: "('r \<Rightarrow> int) \<Rightarrow> ('r \<Rightarrow> 'k) \<Rightarrow> 'r list \<Rightarrow> bool" where
  "rows_ok row_id row_key rows \<longleftrightarrow> map row_id rows = map (\<lambda>i. int i + 1) [0..<length rows] \<and> distinct (map row_key rows)"

lemma rows_ok_Nil [simp]: "rows_ok row_id row_key []"
  by (simp add: rows_ok_def)

text \<open>
  The contract of a collection: rows are appended with the next id and a fresh key, and are otherwise only
  changed by edits that keep id and key.
\<close>

locale keyed_rows =
  fixes row_id :: "'r \<Rightarrow> int" and row_key :: "'r \<Rightarrow> 'k" and edits :: "('r \<Rightarrow> 'r) set"
  assumes edit_id: "f \<in> edits \<Longrightarrow> row_id (f r) = row_id r"
    and edit_key: "f \<in> edits \<Longrightarrow> row_key (f r) = row_key r"
begin

lemma ok_push:
  assumes "rows_ok row_id row_key rows" "row_id r = int (length rows) + 1" "\<And>x. x \<in> set rows \<Longrightarrow> row_key x \<noteq> row_key r"
  shows "rows_ok row_id row_key (rows @ [r])"
proof -
  have "row_key r \<notin> row_key ` set rows" using assms(3) by (metis imageE)
  then show ?thesis using assms(1,2) by (simp add: rows_ok_def)
qed

lemma ok_edit:
  assumes "rows_ok row_id row_key rows" "f \<in> edits"
  shows "rows_ok row_id row_key (update_first P f rows)"
  using assms by (simp add: rows_ok_def map_update_first edit_id edit_key)

lemma id_of_nth:
  assumes "rows_ok row_id row_key rows" "j < length rows"
  shows "row_id (rows ! j) = int j + 1"
proof -
  have "map row_id rows ! j = map (\<lambda>i. int i + 1) [0..<length rows] ! j" using assms(1) by (simp add: rows_ok_def)
  then show ?thesis using assms(2) by simp
qed

lemma distinct_ids: "rows_ok row_id row_key rows \<Longrightarrow> distinct (map row_id rows)"
  by (simp add: rows_ok_def distinct_map inj_on_def)

lemma find_id: "rows_ok row_id row_key rows \<Longrightarrow> r \<in> set rows \<Longrightarrow> find (\<lambda>x. row_id x = row_id r) rows = Some r"
  by (rule find_unique) (simp_all add: distinct_ids)

lemma find_key: "rows_ok row_id row_key rows \<Longrightarrow> r \<in> set rows \<Longrightarrow> find (\<lambda>x. row_key x = row_key r) rows = Some r"
  by (rule find_unique) (simp_all add: rows_ok_def)

lemma ids_in_range: "rows_ok row_id row_key rows \<Longrightarrow> r \<in> set rows \<Longrightarrow> 1 \<le> row_id r \<and> row_id r \<le> int (length rows)"
  by (auto simp: in_set_conv_nth id_of_nth)

end

definition namespace_edits :: "(Namespace \<Rightarrow> Namespace) set" where
  "namespace_edits = range (\<lambda>d n. n\<lparr>ns_deleted_at := d\<rparr>) \<union> range (\<lambda>m n. n\<lparr>ns_max_tables := m\<rparr>)
     \<union> range (\<lambda>m n. n\<lparr>ns_max_columns_per_table := m\<rparr>) \<union> range (\<lambda>r n. n\<lparr>ns_retention_period_ns := r\<rparr>)"

definition table_edits :: "(Table Versioned \<Rightarrow> Table Versioned) set" where
  "table_edits = range (\<lambda>g t. t\<lparr>v_generation := g\<rparr>)"

definition partition_edits :: "(Partition Versioned \<Rightarrow> Partition Versioned) set" where
  "partition_edits = range (\<lambda>g p. p\<lparr>v_generation := g\<rparr>)
     \<union> range (\<lambda>s p. p\<lparr>v_value := partition_set_sort_key_ids s (v_value p)\<rparr>)
     \<union> range (\<lambda>t p. p\<lparr>v_value := (v_value p)\<lparr>p_new_file_at := t\<rparr>\<rparr>)"

abbreviation table_id_of :: "Table Versioned \<Rightarrow> TableId" where "table_id_of t \<equiv> t_id (v_value t)"
abbreviation table_key_of :: "Table Versioned \<Rightarrow> NamespaceId \<times> string" where
  "table_key_of t \<equiv> (t_namespace_id (v_value t), t_name (v_value t))"
abbreviation column_key_of :: "Column \<Rightarrow> TableId \<times> string" where "column_key_of c \<equiv> (col_table_id c, col_name c)"
abbreviation partition_id_of :: "Partition Versioned \<Rightarrow> PartitionId" where "partition_id_of p \<equiv> p_id (v_value p)"
abbreviation partition_key_of :: "Partition Versioned \<Rightarrow> TableId \<times> string" where
  "partition_key_of p \<equiv> (p_table_id (v_value p), p_partition_key (v_value p))"

interpretation ns: keyed_rows ns_id ns_name namespace_edits
  by unfold_locales (auto simp: namespace_edits_def)

interpretation tb: keyed_rows table_id_of table_key_of table_edits
  by unfold_locales (auto simp: table_edits_def)

interpretation cl: keyed_rows col_id column_key_of "{}"
  by unfold_locales auto

interpretation pt: keyed_rows partition_id_of partition_key_of partition_edits
  by unfold_locales (auto simp: partition_edits_def partition_set_sort_key_ids_def)

subsection \<open>The catalog invariant\<close>

definition catalog_inv :: "MemCollections \<Rightarrow> bool" where
  "catalog_inv st \<longleftrightarrow>
     rows_ok ns_id ns_name (mc_namespaces st)
   \<and> rows_ok table_id_of table_key_of (mc_tables st)
   \<and> rows_ok col_id column_key_of (mc_columns st)
   \<and> rows_ok partition_id_of partition_key_of (mc_partitions st)
   \<and> distinct (map sc_partition_id (mc_skipped_compactions st))
   \<and> distinct (map f_object_store_id (mc_parquet_files st))
   \<and> (\<forall>t \<in> set (mc_tables st). \<exists>n \<in> set (mc_namespaces st). ns_id n = t_namespace_id (v_value t))
   \<and> (\<forall>f \<in> set (mc_parquet_files st). \<exists>p \<in> set (mc_partitions st). partition_id_of p = f_partition_id f)"

text \<open>
  The state changes of every repository operation, and of \<^verbatim>\<open>add_partition\<close>, which is for tests and makes no checks of
  its own: its caller has to bring the next id and a key that is not in use.
\<close>

inductive mem_step :: "(string \<Rightarrow> string) \<Rightarrow> MemCollections \<Rightarrow> MemCollections \<Rightarrow> bool" for sha256 where
  step_add_partition: "p_id p = int (length (mc_partitions st)) + 1 \<Longrightarrow>
    (p_table_id p, p_partition_key p) \<notin> partition_key_of ` set (mc_partitions st) \<Longrightarrow> mem_step sha256 st (mem_add_partition p st)"
|  step_namespace_create: "namespace_create name template retention limits st = (st', r) \<Longrightarrow> mem_step sha256 st st'"
| step_soft_delete: "namespace_soft_delete now name st = (st', r) \<Longrightarrow> mem_step sha256 st st'"
| step_table_limit: "namespace_update_table_limit name m st = (st', r) \<Longrightarrow> mem_step sha256 st st'"
| step_column_limit: "namespace_update_column_limit name m st = (st', r) \<Longrightarrow> mem_step sha256 st st'"
| step_retention: "namespace_update_retention_period name p st = (st', r) \<Longrightarrow> mem_step sha256 st st'"
| step_table_create: "table_create name t ns st = (st', r) \<Longrightarrow> mem_step sha256 st st'"
| step_table_snapshot: "table_snapshot encode_table i st = Some (st', r) \<Longrightarrow> mem_step sha256 st st'"
| step_column: "create_or_get_column name i ct st = (st', r) \<Longrightarrow> mem_step sha256 st st'"
| step_columns: "distinct (map fst cs) \<Longrightarrow> create_or_get_many_unchecked i cs st = (st', r) \<Longrightarrow> mem_step sha256 st st'"
| step_partition: "partition_create_or_get sha256 key i st = (st', p) \<Longrightarrow> mem_step sha256 st st'"
| step_cas: "partition_cas_sort_key i old new st = (st', r) \<Longrightarrow> mem_step sha256 st st'"
| step_skip: "mem_step sha256 st (record_skipped_compaction now i reason a b c d e st)"
| step_unskip: "delete_skipped_compactions i st = Some (st', r) \<Longrightarrow> mem_step sha256 st st'"
| step_partition_snapshot: "partition_snapshot encode_partition i st = Some (st', r) \<Longrightarrow> mem_step sha256 st st'"
| step_flag: "flag_for_delete_by_retention now st = Some (st', ids) \<Longrightarrow> mem_step sha256 st st'"
| step_delete: "delete_old_ids_only t st = (st', ids) \<Longrightarrow> mem_step sha256 st st'"
| step_files: "create_upgrade_delete clock i dels ups news lvl st = Some (st', r) \<Longrightarrow> mem_step sha256 st st'"

lemma update_first_image: "(\<And>x. g (f x) = g x) \<Longrightarrow> g ` set (update_first P f xs) = g ` set xs"
  by (metis list.set_map map_update_first)

lemma catalog_inv_new: "catalog_inv mem_new"
  by (simp add: catalog_inv_def mem_new_def)

lemma ex_row_image: "(\<exists>x \<in> set xs. g x = i) \<longleftrightarrow> i \<in> g ` set xs"
  by auto

lemma namespace_update_inv:
  assumes "catalog_inv st" "f \<in> namespace_edits"
  shows "catalog_inv (fst (namespace_update name f st))"
proof -
  have "ns_id ` set (update_first P f (mc_namespaces st)) = ns_id ` set (mc_namespaces st)" for P
    by (rule update_first_image) (simp add: ns.edit_id [OF assms(2)])
  then show ?thesis
    using assms ns.ok_edit [OF _ assms(2)]
    by (auto simp: catalog_inv_def namespace_update_def ex_row_image split: option.splits)
qed

lemma namespace_create_inv: "catalog_inv st \<Longrightarrow> catalog_inv (fst (namespace_create name t r l st))"
  by (auto simp: catalog_inv_def namespace_create_def Let_def list_ex_iff intro!: ns.ok_push)

lemma push_column_inv:
  assumes "catalog_inv st" "find (\<lambda>t. col_name t = name \<and> col_table_id t = i) (mc_columns st) = None"
  shows "catalog_inv (fst (push_column name i ct st))"
  using assms by (auto simp: catalog_inv_def push_column_def Let_def find_None_iff intro!: cl.ok_push)

lemma create_or_get_column_inv: "catalog_inv st \<Longrightarrow> catalog_inv (fst (create_or_get_column name i ct st))"
  using push_column_inv [of st name i ct]
  by (auto simp: create_or_get_column_def split: sum.splits option.splits prod.splits)

lemma create_or_get_many_inv: "catalog_inv st \<Longrightarrow> catalog_inv (fst (create_or_get_many_unchecked i cs st))"
proof (induction i cs st rule: create_or_get_many_unchecked.induct)
  case (2 i name ct cs st)
  then show ?case using push_column_inv [of st name i ct] by (auto split: option.splits prod.splits)
qed simp

lemma create_template_columns_inv: "catalog_inv st \<Longrightarrow> catalog_inv (fst (create_template_columns i parts st))"
proof (induction i parts st rule: create_template_columns.induct)
  case (2 i tag parts st)
  then show ?case using create_or_get_column_inv [of st tag i CT_Tag] by (auto split: prod.splits sum.splits)
qed simp_all

lemma table_create_inv:
  assumes "catalog_inv st"
  shows "catalog_inv (fst (table_create name t i st))"
proof (cases "find (\<lambda>n. ns_id n = i) (mc_namespaces st)")
  case (Some n)
  have n: "n \<in> set (mc_namespaces st)" "ns_id n = i" using find_SomeD [OF Some] by auto
  define table where "table = \<lparr>t_id = int (length (mc_tables st)) + 1, t_namespace_id = i, t_name = name, t_partition_template = t\<rparr>"
  show ?thesis
  proof (cases "find (\<lambda>t. t_name (v_value t) = name \<and> t_namespace_id (v_value t) = i) (mc_tables st)")
    case None
    define st' where "st' = st\<lparr>mc_tables := mc_tables st @ [versioned_from table]\<rparr>"
    have "rows_ok table_id_of table_key_of (mc_tables st @ [versioned_from table])"
      by (rule tb.ok_push) (use assms None in \<open>auto simp: catalog_inv_def versioned_from_def table_def find_None_iff\<close>)
    then have "catalog_inv st'"
      using assms n by (auto simp: catalog_inv_def st'_def versioned_from_def table_def)
    then have "catalog_inv (fst (create_template_columns (t_id table) (template_parts t) st'))"
      by (rule create_template_columns_inv)
    then show ?thesis using assms Some None
      by (auto simp: table_create_def Let_def st'_def table_def split: prod.splits sum.splits)
  qed (use assms Some in \<open>simp add: table_create_def Let_def\<close>)
qed (use assms in \<open>simp add: table_create_def\<close>)

lemma table_generation_inv:
  assumes "catalog_inv st"
  shows "catalog_inv (st\<lparr>mc_tables := update_first P (\<lambda>t. t\<lparr>v_generation := g\<rparr>) (mc_tables st)\<rparr>)"
proof -
  have e: "(\<lambda>t. t\<lparr>v_generation := g\<rparr>) \<in> table_edits" for g by (auto simp: table_edits_def)
  have v: "x \<in> set (update_first P (\<lambda>t. t\<lparr>v_generation := g\<rparr>) ts) \<Longrightarrow> v_value x \<in> v_value ` set ts" for x P g and ts :: "Table Versioned list"
    by (metis (no_types, lifting) Versioned.select_convs(2) Versioned.surjective Versioned.update_convs(1) image_eqI update_first_image)
  show ?thesis
    using assms tb.ok_edit [OF _ e]
    by (fastforce simp: catalog_inv_def dest!: v)
qed

lemma table_snapshot_inv:
  "catalog_inv st \<Longrightarrow> table_snapshot enc i st = Some (st', r) \<Longrightarrow> catalog_inv st'"
  by (auto simp: table_snapshot_def Let_def split: option.splits bind_splits intro!: table_generation_inv)

lemma partition_create_or_get_inv: "catalog_inv st \<Longrightarrow> catalog_inv (fst (partition_create_or_get sha256 key i st))"
  by (auto simp: catalog_inv_def partition_create_or_get_def versioned_from_def Let_def find_None_iff
      split: option.splits intro!: pt.ok_push)

lemma partition_edit_inv:
  assumes "catalog_inv st" "f \<in> partition_edits"
  shows "catalog_inv (st\<lparr>mc_partitions := update_first P f (mc_partitions st)\<rparr>)"
proof -
  have "partition_id_of ` set (update_first P f (mc_partitions st)) = partition_id_of ` set (mc_partitions st)"
    by (rule update_first_image) (simp add: pt.edit_id [OF assms(2)])
  then show ?thesis using assms pt.ok_edit [OF _ assms(2)] by (simp add: catalog_inv_def ex_row_image)
qed

lemma partition_edits_intros [intro]:
  "(\<lambda>p. p\<lparr>v_generation := g\<rparr>) \<in> partition_edits"
  "(\<lambda>p. p\<lparr>v_value := partition_set_sort_key_ids s (v_value p)\<rparr>) \<in> partition_edits"
  "(\<lambda>p. p\<lparr>v_value := (v_value p)\<lparr>p_new_file_at := t\<rparr>\<rparr>) \<in> partition_edits"
  by (auto simp: partition_edits_def)

lemma partition_cas_inv: "catalog_inv st \<Longrightarrow> catalog_inv (fst (partition_cas_sort_key i old new st))"
  by (auto simp: partition_cas_sort_key_def split: option.splits intro: partition_edit_inv)

lemma partition_snapshot_inv:
  "catalog_inv st \<Longrightarrow> partition_snapshot enc i st = Some (st', r) \<Longrightarrow> catalog_inv st'"
  by (auto simp: partition_snapshot_def Let_def split: option.splits bind_splits intro!: partition_edit_inv)

lemma skip_update_ids:
  "sc_partition_id sc = i \<Longrightarrow> map sc_partition_id (update_first (\<lambda>s. sc_partition_id s = i) (\<lambda>_. sc) xs) = map sc_partition_id xs"
  by (induction xs) auto

lemma record_skipped_inv: "catalog_inv st \<Longrightarrow> catalog_inv (record_skipped_compaction now i reason a b c d e st)"
  by (auto simp: catalog_inv_def record_skipped_compaction_def Let_def find_None_iff skip_update_ids split: option.splits)

lemma delete_skipped_inv:
  "catalog_inv st \<Longrightarrow> delete_skipped_compactions i st = Some (st', r) \<Longrightarrow> catalog_inv st'"
  by (auto simp: catalog_inv_def delete_skipped_compactions_def Let_def distinct_map_filter split: if_splits)

text \<open>Changes of parquet files that keep the object store ids and partitions.\<close>

lemma parquet_files_inv:
  assumes "catalog_inv st" "map f_object_store_id fs = map f_object_store_id (mc_parquet_files st)"
    "map f_partition_id fs = map f_partition_id (mc_parquet_files st)"
  shows "catalog_inv (st\<lparr>mc_parquet_files := fs\<rparr>)"
proof -
  have img: "f_partition_id ` set fs = f_partition_id ` set (mc_parquet_files st)" using assms(3) by (metis list.set_map)
  have e: "(\<forall>f \<in> X. \<exists>p \<in> Y. partition_id_of p = f_partition_id f) \<longleftrightarrow> f_partition_id ` X \<subseteq> partition_id_of ` Y" for X Y
    by (simp add: image_subset_iff image_iff) metis
  show ?thesis using assms(1,2) img unfolding catalog_inv_def e by simp
qed

lemma retention_loop_frame:
  "retention_loop now nss k fs = Some (fs', ids) \<Longrightarrow>
    map f_object_store_id fs' = map f_object_store_id fs \<and> map f_partition_id fs' = map f_partition_id fs"
  by (induction now nss k fs arbitrary: fs' ids rule: retention_loop.induct)
    (auto split: if_splits option.splits bind_splits)

lemma flag_by_retention_inv:
  "catalog_inv st \<Longrightarrow> flag_for_delete_by_retention now st = Some (st', ids) \<Longrightarrow> catalog_inv st'"
  by (auto simp: flag_for_delete_by_retention_def split: bind_splits prod.splits dest!: retention_loop_frame
      intro!: parquet_files_inv)

lemma delete_old_inv: "catalog_inv st \<Longrightarrow> catalog_inv (fst (delete_old_ids_only t st))"
  by (auto simp: catalog_inv_def delete_old_ids_only_def Let_def distinct_map_filter)

lemma flag_for_delete_inv: "catalog_inv st \<Longrightarrow> catalog_inv (fst (flag_for_delete i o_id t st))"
proof -
  assume inv: "catalog_inv st"
  have "map f_object_store_id (update_first P (\<lambda>f. f\<lparr>f_to_delete := Some t\<rparr>) fs) = map f_object_store_id fs"
      "map f_partition_id (update_first P (\<lambda>f. f\<lparr>f_to_delete := Some t\<rparr>) fs) = map f_partition_id fs" for P fs
    by (auto intro!: map_update_first)
  then show ?thesis using inv
    by (auto simp: flag_for_delete_def split: option.splits intro!: parquet_files_inv)
qed

lemma delete_loop_inv: "catalog_inv st \<Longrightarrow> catalog_inv (fst (delete_loop i clock n ids st))"
proof (induction i clock n ids st rule: delete_loop.induct)
  case (2 i clock n o_id ids st)
  then show ?case using flag_for_delete_inv [of st i o_id "clock n"] by (auto split: prod.splits sum.splits)
qed simp

lemma update_level_inv: "catalog_inv st \<Longrightarrow> catalog_inv (fst (update_compaction_level i ids lvl st))"
  by (auto simp: update_compaction_level_def Let_def comp_def image_comp split: option.splits intro!: parquet_files_inv)

lemma create_parquet_file_inv:
  assumes "catalog_inv st" "create_parquet_file params st = (st', Inr f)"
  shows "catalog_inv st'"
proof -
  define pf where "pf = parquet_file_from_params params (int (length (mc_parquet_files st)) + 1)"
  from assms(2) obtain p where p: "find (\<lambda>p. partition_id_of p = f_partition_id pf) (mc_partitions st) = Some p"
      and new: "\<not> list_ex (\<lambda>f. f_object_store_id f = fp_object_store_id params) (mc_parquet_files st)"
      and st': "st' = st\<lparr>mc_parquet_files := mc_parquet_files st @ [pf],
          mc_partitions := update_first (\<lambda>p. partition_id_of p = f_partition_id pf)
            (\<lambda>p. p\<lparr>v_value := (v_value p)\<lparr>p_new_file_at := Some (f_created_at pf)\<rparr>\<rparr>) (mc_partitions st)\<rparr>"
    by (auto simp: create_parquet_file_def Let_def pf_def split: if_splits option.splits)
  have "f_object_store_id pf = fp_object_store_id params" by (simp add: pf_def parquet_file_from_params_def)
  then have "catalog_inv (st\<lparr>mc_parquet_files := mc_parquet_files st @ [pf]\<rparr>)"
    using assms(1) find_SomeD [OF p] new by (auto simp: catalog_inv_def list_ex_iff)
  from partition_edit_inv [OF this] show ?thesis by (auto simp: st')
qed

lemma create_loop_inv: "catalog_inv st \<Longrightarrow> create_loop i files st = (st', Inr ids) \<Longrightarrow> catalog_inv st'"
proof (induction i files st arbitrary: ids rule: create_loop.induct)
  case (2 i params files st)
  obtain st1 r where c: "create_parquet_file params st = (st1, r)" by fastforce
  have i: "fp_partition_id params = i" using "2.prems"(2) by (auto split: if_splits)
  then obtain f where r: "r = Inr f" using "2.prems"(2) c by (cases r) auto
  obtain st2 r2 where l: "create_loop i files st1 = (st2, r2)" by fastforce
  then obtain ids' where "st2 = st'" "r2 = Inr ids'" using "2.prems"(2) c r i by (cases r2) auto
  moreover have "catalog_inv st1" using create_parquet_file_inv [OF "2.prems"(1)] c r by blast
  ultimately show ?case using "2.IH" [of st1 r f] i c r l by simp
qed simp

lemma create_upgrade_delete_inv:
  assumes "catalog_inv st" "create_upgrade_delete clock i dels ups news lvl st = Some (st', r)"
  shows "catalog_inv st'"
proof -
  obtain st1 r1 where 1: "delete_loop i clock 0 dels st = (st1, r1)" by (cases "delete_loop i clock 0 dels st")
  obtain st2 r2 where 2: "update_compaction_level i ups lvl st1 = (st2, r2)" by (cases "update_compaction_level i ups lvl st1")
  have "catalog_inv st1" using delete_loop_inv [OF assms(1), of i clock 0 dels] 1 by simp
  then have "catalog_inv st2" using update_level_inv [of st1 i ups lvl] 2 by simp
  then show ?thesis
    using assms 1 2 create_loop_inv [of st2 i news]
    by (auto simp: create_upgrade_delete_def split: sum.splits prod.splits bind_splits)
qed

lemma add_partition_inv:
  assumes "p_id p = int (length (mc_partitions st)) + 1" "(p_table_id p, p_partition_key p) \<notin> partition_key_of ` set (mc_partitions st)" "catalog_inv st"
  shows "catalog_inv (mem_add_partition p st)"
proof -
  have "rows_ok partition_id_of partition_key_of (mc_partitions st @ [versioned_from p])"
    by (rule pt.ok_push) (use assms in \<open>auto simp: catalog_inv_def versioned_from_def image_iff\<close>)
  then show ?thesis using assms(3) by (auto simp: catalog_inv_def mem_add_partition_def)
qed

lemma mem_step_inv: "mem_step sha256 st st' \<Longrightarrow> catalog_inv st \<Longrightarrow> catalog_inv st'"
proof (induction rule: mem_step.induct)
  case (step_add_partition p st)
  then show ?case by (rule add_partition_inv)
next
  case (step_namespace_create name template retention limits st st' r)
  then show ?case using namespace_create_inv [of st name template retention limits] by simp
next
  case (step_soft_delete now name st st' r)
  then show ?case using namespace_update_inv [of st "\<lambda>n. n\<lparr>ns_deleted_at := Some now\<rparr>" name]
    by (cases "namespace_update name (\<lambda>n. n\<lparr>ns_deleted_at := Some now\<rparr>) st")
      (auto simp: namespace_soft_delete_def namespace_edits_def)
next
  case (step_table_limit name m st st' r)
  then show ?case using namespace_update_inv [of st "\<lambda>n. n\<lparr>ns_max_tables := m\<rparr>" name]
    by (auto simp: namespace_update_table_limit_def namespace_edits_def)
next
  case (step_column_limit name m st st' r)
  then show ?case using namespace_update_inv [of st "\<lambda>n. n\<lparr>ns_max_columns_per_table := m\<rparr>" name]
    by (auto simp: namespace_update_column_limit_def namespace_edits_def)
next
  case (step_retention name p st st' r)
  then show ?case using namespace_update_inv [of st "\<lambda>n. n\<lparr>ns_retention_period_ns := p\<rparr>" name]
    by (auto simp: namespace_update_retention_period_def namespace_edits_def)
next
  case (step_table_create name t ns st st' r)
  then show ?case using table_create_inv [of st name t ns] by simp
next
  case (step_column name i ct st st' r)
  then show ?case using create_or_get_column_inv [of st name i ct] by simp
next
  case (step_columns cs i st st' r)
  then show ?case using create_or_get_many_inv [of st i cs] by simp
next
  case (step_partition key i st st' p)
  then show ?case using partition_create_or_get_inv [of st sha256 key i] by simp
next
  case (step_cas i old new st st' r)
  then show ?case using partition_cas_inv [of st i old new] by simp
next
  case (step_delete t st st' ids)
  then show ?case using delete_old_inv [of st t] by simp
qed (auto intro: table_snapshot_inv record_skipped_inv delete_skipped_inv partition_snapshot_inv flag_by_retention_inv
    create_upgrade_delete_inv)

text \<open>
  C2. In every state the in-memory catalog can reach from empty by any sequence of operations of any clients, and of
  partitions added for tests with the next id and a fresh key,
  the ids of namespaces, tables, columns and partitions are exactly 1 to their number, namespace names,
  table names within a namespace, column names within a table and partition keys within a table are unique,
  there is at most one skipped compaction per partition, the object store ids of parquet files (not their row
  ids) are unique, and every table has its namespace and every parquet file its partition.
\<close>

theorem mem_catalog_invariant:
  assumes "(mem_step sha256)\<^sup>*\<^sup>* mem_new st"
  shows "catalog_inv st"
  using assms by (induction rule: rtranclp_induct) (auto intro: catalog_inv_new mem_step_inv)

theorem mem_catalog_invariant_witness:
  "catalog_inv (fst (table_create ''cpu'' None 1 (fst (namespace_create ''db'' None None None mem_new))))"
proof (rule mem_catalog_invariant [of id])
  have "mem_step id mem_new (fst (namespace_create ''db'' None None None mem_new))"
    by (rule step_namespace_create) (rule prod.collapse [symmetric])
  moreover have "mem_step id (fst (namespace_create ''db'' None None None mem_new))
      (fst (table_create ''cpu'' None 1 (fst (namespace_create ''db'' None None None mem_new))))"
    by (rule step_table_create) (rule prod.collapse [symmetric])
  ultimately show "(mem_step id)\<^sup>*\<^sup>* mem_new (fst (table_create ''cpu'' None 1 (fst (namespace_create ''db'' None None None mem_new))))"
    by (meson converse_rtranclp_into_rtranclp r_into_rtranclp)
qed

end
