(* ===== verification/Mem_Ops.thy ===== *)
theory Mem_Ops
  imports Mem_Facts
begin

text \<open>What the operations of the in-memory catalog do, in states that satisfy its invariant.\<close>

subsection \<open>Namespaces\<close>

lemma find_snoc_old: "find P xs = Some x \<Longrightarrow> find P (xs @ ys) = Some x"
  by (induction xs) auto

lemma find_snoc_new: "find P xs = None \<Longrightarrow> find P (xs @ [y]) = (if P y then Some y else None)"
  by (induction xs) (auto split: if_splits)

lemma find_snoc_other: "\<not> P y \<Longrightarrow> find P (xs @ [y]) = find P xs"
  by (induction xs) auto

lemma filter_unique:
  "distinct (map k xs) \<Longrightarrow> filter (\<lambda>x. k x = c) xs = (case find (\<lambda>x. k x = c) xs of None \<Rightarrow> [] | Some x \<Rightarrow> [x])"
proof (induction xs)
  case (Cons x xs)
  show ?case
  proof (cases "k x = c")
    case True
    then have "filter (\<lambda>y. k y = c) xs = []" using Cons.prems by (auto simp: filter_empty_conv) (metis image_eqI)
    then show ?thesis using True by simp
  next
    case False
    then show ?thesis using Cons by simp
  qed
qed simp

text \<open>
  Creating a namespace fails exactly when the name is taken, deleted namespaces included, and then
  changes nothing. Otherwise the new namespace is found by its name and by its id, is listed as not deleted,
  carries the limits asked for or the defaults, and every lookup of another name or id gives what it gave before.
\<close>

theorem namespace_create_exact:
  assumes "catalog_inv st" "namespace_create name template retention limits st = (st', r)"
  shows "(\<exists>n \<in> set (mc_namespaces st). ns_name n = name) \<and> st' = st \<and> r = Inl (AlreadyExists name)
    \<or> (\<forall>n \<in> set (mc_namespaces st). ns_name n \<noteq> name)
      \<and> (\<exists>n. r = Inr n \<and> ns_name n = name \<and> ns_retention_period_ns n = retention
          \<and> namespace_get_by_name name ExcludeDeleted st' = Some n
          \<and> namespace_get_by_id (ns_id n) ExcludeDeleted st' = Some n
          \<and> (\<forall>d name'. name' \<noteq> name \<longrightarrow> namespace_get_by_name name' d st' = namespace_get_by_name name' d st)
          \<and> (\<forall>d i. i \<noteq> ns_id n \<longrightarrow> namespace_get_by_id i d st' = namespace_get_by_id i d st))"
proof (cases "list_ex (\<lambda>n. ns_name n = name) (mc_namespaces st)")
  case True
  then show ?thesis using assms(2) by (auto simp: namespace_create_def list_ex_iff)
next
  case False
  then obtain n where n: "r = Inr n" "st' = st\<lparr>mc_namespaces := mc_namespaces st @ [n]\<rparr>" "ns_name n = name"
      "ns_id n = int (length (mc_namespaces st)) + 1" "ns_deleted_at n = None" "ns_retention_period_ns n = retention"
    using assms(2) by (auto simp: namespace_create_def Let_def)
  have fresh: "\<forall>x \<in> set (mc_namespaces st). ns_name x \<noteq> name \<and> ns_id x \<noteq> ns_id n"
    using False assms(1) ns.ids_in_range n(4) by (fastforce simp: list_ex_iff catalog_inv_def)
  have flt: "filter_namespace_soft_delete (mc_namespaces st') d =
      filter_namespace_soft_delete (mc_namespaces st) d @ (if d = OnlyDeleted then [] else [n])" for d
    using n(2,5) by (cases d) (simp_all add: filter_namespace_soft_delete_def)
  have none: "find P (filter_namespace_soft_delete (mc_namespaces st) d) = None"
    if "\<forall>x \<in> set (mc_namespaces st). \<not> P x" for P d
    using that by (auto simp: find_None_iff filter_namespace_soft_delete_def)
  have "namespace_get_by_name name ExcludeDeleted st' = Some n" "namespace_get_by_id (ns_id n) ExcludeDeleted st' = Some n"
    using none fresh n(3) by (simp_all add: namespace_get_by_name_def namespace_get_by_id_def flt find_snoc_new)
  moreover have "namespace_get_by_name name' d st' = namespace_get_by_name name' d st" if "name' \<noteq> name" for name' d
    using that n(3) by (simp add: namespace_get_by_name_def flt find_snoc_other)
  moreover have "namespace_get_by_id i d st' = namespace_get_by_id i d st" if "i \<noteq> ns_id n" for i d
    using that by (simp add: namespace_get_by_id_def flt find_snoc_other)
  ultimately show ?thesis using n fresh by blast
qed

theorem namespace_create_exact_witness:
  "(\<exists>n. snd (namespace_create ''db'' None (Some 7) None mem_new) = Inr n \<and> ns_retention_period_ns n = Some 7
     \<and> namespace_get_by_name ''db'' ExcludeDeleted (fst (namespace_create ''db'' None (Some 7) None mem_new)) = Some n)"
proof -
  obtain st' r where c: "namespace_create ''db'' None (Some 7) None mem_new = (st', r)" by fastforce
  have "mc_namespaces mem_new = []" by (simp add: mem_new_def)
  with namespace_create_exact [OF catalog_inv_new c] show ?thesis by (auto simp: c)
qed

subsection \<open>Skipped compactions and sort keys\<close>

text \<open>
  In every reachable state deleting the skipped compaction of a partition never reaches the code marked
  unreachable: it returns the one record there is, or none, and afterwards the partition has no record while
  the records of other partitions are unchanged.
\<close>

theorem delete_skipped_compactions_safe:
  assumes "catalog_inv st"
  shows "\<exists>st'. delete_skipped_compactions i st = Some (st', find (\<lambda>s. sc_partition_id s = i) (mc_skipped_compactions st))
    \<and> get_in_skipped_compactions [i] st' = []
    \<and> (\<forall>j. j \<noteq> i \<longrightarrow> get_in_skipped_compactions [j] st' = get_in_skipped_compactions [j] st)"
proof -
  let ?xs = "mc_skipped_compactions st"
  have d: "distinct (map sc_partition_id ?xs)" using assms by (simp add: catalog_inv_def)
  have "filter (\<lambda>s. sc_partition_id s = i) ?xs = (case find (\<lambda>s. sc_partition_id s = i) ?xs of None \<Rightarrow> [] | Some s \<Rightarrow> [s])"
    using d by (rule filter_unique)
  then show ?thesis
    by (auto simp: delete_skipped_compactions_def Let_def get_in_skipped_compactions_def filter_empty_conv
        split: option.splits intro: filter_cong)
qed

theorem delete_skipped_compactions_safe_witness:
  "\<exists>st'. delete_skipped_compactions 4 (record_skipped_compaction 0 4 ''big'' 1 2 3 4 5 mem_new)
      = Some (st', find (\<lambda>s. sc_partition_id s = 4) (mc_skipped_compactions (record_skipped_compaction 0 4 ''big'' 1 2 3 4 5 mem_new)))
    \<and> get_in_skipped_compactions [4] st' = []
    \<and> (\<forall>j. j \<noteq> 4 \<longrightarrow> get_in_skipped_compactions [j] st'
        = get_in_skipped_compactions [j] (record_skipped_compaction 0 4 ''big'' 1 2 3 4 5 mem_new))"
  by (rule delete_skipped_compactions_safe [OF record_skipped_inv [OF catalog_inv_new]])

text \<open>
  C19. Compare-and-swap of a sort key never loses an update: of two clients that both read the same old sort
  key, when the first succeeds with a key different from it, the second fails, reports the key the first has
  written, and leaves the catalog as the first left it.
\<close>

theorem cas_sort_key_no_lost_update:
  assumes "catalog_inv st" "partition_cas_sort_key i old new1 st = (st1, Inr p)"
    and "partition_sort_key_ids p \<noteq> old"
    and "partition_cas_sort_key i old new2 st1 = (st2, r)"
  shows "r = Inl (ValueMismatch new1) \<and> st2 = st1"
proof -
  from assms(2) obtain q where q: "find (\<lambda>p. p_id (v_value p) = i) (mc_partitions st) = Some q"
      "p = partition_set_sort_key_ids new1 (v_value q)"
      "st1 = st\<lparr>mc_partitions := update_first (\<lambda>p. p_id (v_value p) = i)
        (\<lambda>p. p\<lparr>v_value := partition_set_sort_key_ids new1 (v_value p)\<rparr>) (mc_partitions st)\<rparr>"
    by (auto simp: partition_cas_sort_key_def split: option.splits if_splits)
  have "find (\<lambda>p. p_id (v_value p) = i) (mc_partitions st1) = Some (q\<lparr>v_value := p\<rparr>)"
    using find_update_first [OF q(1), of "\<lambda>p. p\<lparr>v_value := partition_set_sort_key_ids new1 (v_value p)\<rparr>"] find_SomeD [OF q(1)] q(2,3)
    by (simp add: partition_set_sort_key_ids_def)
  moreover have "p_sort_key_ids p = new1" using q(2) by (simp add: partition_set_sort_key_ids_def)
  ultimately show ?thesis
    using assms(3,4) by (auto simp: partition_cas_sort_key_def partition_sort_key_ids_def split: option.splits if_splits)
qed

definition demo_partition_state :: MemCollections where
  "demo_partition_state = fst (partition_create_or_get id ''k'' 1 mem_new)"

lemma demo_partition_state_inv: "catalog_inv demo_partition_state"
  unfolding demo_partition_state_def by (rule partition_create_or_get_inv [OF catalog_inv_new])

theorem cas_sort_key_no_lost_update_witness:
  "\<exists>st1 p st2. partition_cas_sort_key 1 None [3, 4] demo_partition_state = (st1, Inr p)
    \<and> partition_cas_sort_key 1 None [5] st1 = (st2, Inl (ValueMismatch [3, 4])) \<and> st2 = st1"
proof -
  obtain st1 r1 where 1: "partition_cas_sort_key 1 None [3, 4] demo_partition_state = (st1, r1)" by fastforce
  then obtain p where p: "r1 = Inr p" "partition_sort_key_ids p = Some [3, 4]"
    by (auto simp: partition_cas_sort_key_def demo_partition_state_def partition_create_or_get_def mem_new_def Let_def
        versioned_from_def partition_sort_key_ids_def partition_set_sort_key_ids_def)
  obtain st2 r2 where 2: "partition_cas_sort_key 1 None [5] st1 = (st2, r2)" by fastforce
  have "r2 = Inl (ValueMismatch [3, 4]) \<and> st2 = st1"
    by (rule cas_sort_key_no_lost_update [OF demo_partition_state_inv _ _ 2]) (use 1 p in auto)
  then show ?thesis using 1 2 p by auto
qed

subsection \<open>Column and table limits\<close>

text \<open>
  C35. Creating or getting a column reports that the limit is reached whenever the table has as many columns as
  its namespace allows, even if the column asked for already exists with the type asked for.
\<close>

theorem create_or_get_column_at_limit:
  assumes "t \<in> set (mc_tables st)" "n \<in> set (mc_namespaces st)" "ns_id n = t_namespace_id (v_value t)" "catalog_inv st"
    and "length (column_list_by_table_id (t_id (v_value t)) st) \<ge> ns_max_columns_per_table n"
  shows "\<exists>d. create_or_get_column name (t_id (v_value t)) ct st = (st, Inl (LimitExceeded d))"
proof -
  have "find (\<lambda>x. t_id (v_value x) = t_id (v_value t)) (mc_tables st) = Some t"
    using tb.find_id [of "mc_tables st" t] assms(1,4) by (simp add: catalog_inv_def)
  moreover have "find (\<lambda>x. ns_id x = t_namespace_id (v_value t)) (mc_namespaces st) = Some n"
    using ns.find_id [of "mc_namespaces st" n] assms(2,3,4) by (simp add: catalog_inv_def)
  ultimately show ?thesis
    using assms(5) by (simp add: create_or_get_column_def column_limit_check_def column_list_by_table_id_def)
qed

text \<open>A namespace limited to one column per table, and a table partitioned by two tags.\<close>

definition demo_limits :: NamespaceServiceProtectionLimitsOverride where
  "demo_limits = \<lparr>l_max_tables = None, l_max_columns_per_table = Some 1\<rparr>"

definition demo_limited_state :: MemCollections where
  "demo_limited_state = fst (namespace_create ''db'' None None (Some demo_limits) mem_new)"

definition demo_two_tags :: TablePartitionTemplateOverride where
  "demo_two_tags = Some [Some (TagValue ''a''), Some (TagValue ''b'')]"

definition demo_table :: Table where
  "demo_table = \<lparr>t_id = 1, t_namespace_id = 1, t_name = ''cpu'', t_partition_template = demo_two_tags\<rparr>"

definition demo_namespace :: Namespace where
  "demo_namespace = \<lparr>ns_id = 1, ns_name = ''db'', ns_retention_period_ns = None, ns_max_tables = 500,
     ns_max_columns_per_table = 1, ns_deleted_at = None, ns_partition_template = None\<rparr>"

definition demo_failed_state :: MemCollections where
  "demo_failed_state = \<lparr>mc_namespaces = [demo_namespace], mc_tables = [versioned_from demo_table],
     mc_columns = [\<lparr>col_id = 1, col_table_id = 1, col_name = ''a'', col_column_type = CT_Tag\<rparr>],
     mc_partitions = [], mc_skipped_compactions = [], mc_parquet_files = []\<rparr>"

lemma demo_table_create:
  "\<exists>d. table_create ''cpu'' demo_two_tags 1 demo_limited_state = (demo_failed_state, Inl (LimitExceeded d))"
  by (simp add: table_create_def demo_limited_state_def namespace_create_def mem_new_def demo_limits_def Let_def
      demo_two_tags_def demo_failed_state_def demo_namespace_def demo_table_def versioned_from_def
      default_max_tables_def create_or_get_column_def column_limit_check_def push_column_def)

lemma demo_failed_state_inv: "catalog_inv demo_failed_state"
proof -
  have "catalog_inv (fst (table_create ''cpu'' demo_two_tags 1 demo_limited_state))"
    unfolding demo_limited_state_def by (rule table_create_inv [OF namespace_create_inv [OF catalog_inv_new]])
  then show ?thesis using demo_table_create by auto
qed

theorem create_or_get_column_at_limit_witness:
  "(\<exists>c \<in> set (mc_columns demo_failed_state). col_name c = ''a'' \<and> col_table_id c = 1 \<and> col_column_type c = CT_Tag)
   \<and> (\<exists>d. create_or_get_column ''a'' 1 CT_Tag demo_failed_state = (demo_failed_state, Inl (LimitExceeded d)))"
proof
  have "\<exists>d. create_or_get_column ''a'' (t_id (v_value (versioned_from demo_table))) CT_Tag demo_failed_state
      = (demo_failed_state, Inl (LimitExceeded d))"
    by (rule create_or_get_column_at_limit [of _ _ demo_namespace, OF _ _ _ demo_failed_state_inv])
      (simp_all add: demo_failed_state_def demo_namespace_def versioned_from_def demo_table_def column_list_by_table_id_def)
  then show "\<exists>d. create_or_get_column ''a'' 1 CT_Tag demo_failed_state = (demo_failed_state, Inl (LimitExceeded d))"
    by (simp add: versioned_from_def demo_table_def)
qed (simp add: demo_failed_state_def)

text \<open>The tags of a template, and its columns being made up to the limit.\<close>

fun template_tags :: "TemplatePart list \<Rightarrow> string list" where
  "template_tags [] = []"
| "template_tags (TagValue tag_name # parts) = tag_name # template_tags parts"
| "template_tags (_ # parts) = template_tags parts"

lemma create_column_below_limit:
  assumes "find (\<lambda>x. t_id (v_value x) = i) (mc_tables st) = Some t" "find (\<lambda>x. ns_id x = t_namespace_id (v_value t)) (mc_namespaces st) = Some n"
    and "length (column_list_by_table_id i st) < ns_max_columns_per_table n" "name \<notin> set (map col_name (column_list_by_table_id i st))"
  shows "\<exists>c. create_or_get_column name i ct st = (st\<lparr>mc_columns := mc_columns st @ [c]\<rparr>, Inr c) \<and> col_name c = name \<and> col_table_id c = i"
proof -
  have "find (\<lambda>x. col_name x = name \<and> col_table_id x = i) (mc_columns st) = None"
    using assms(4) by (auto simp: find_None_iff column_list_by_table_id_def)
  then show ?thesis
    using assms(1-3) by (simp add: create_or_get_column_def column_limit_check_def column_list_by_table_id_def push_column_def Let_def)
qed

lemma template_columns_limited:
  assumes "find (\<lambda>x. t_id (v_value x) = i) (mc_tables st) = Some t" "find (\<lambda>x. ns_id x = t_namespace_id (v_value t)) (mc_namespaces st) = Some n"
    and "map col_name (column_list_by_table_id i st) = cs" "length cs \<le> ns_max_columns_per_table n"
    and "distinct (cs @ template_tags parts)" "ns_max_columns_per_table n < length (cs @ template_tags parts)"
  shows "\<exists>st' d. create_template_columns i parts st = (st', Inl (LimitExceeded d)) \<and> mc_tables st' = mc_tables st
    \<and> map col_name (column_list_by_table_id i st') = take (ns_max_columns_per_table n) (cs @ template_tags parts)"
  using assms
proof (induction parts arbitrary: st cs rule: template_tags.induct)
  case (2 a parts)
  have len: "length (column_list_by_table_id i st) = length cs" using "2.prems"(3) by (metis length_map)
  show ?case
  proof (cases "length cs = ns_max_columns_per_table n")
    case True
    then have "length (filter (\<lambda>c. col_table_id c = i) (mc_columns st)) = ns_max_columns_per_table n"
      using len by (simp add: column_list_by_table_id_def)
    then have "\<exists>d. create_or_get_column a i CT_Tag st = (st, Inl (LimitExceeded d))"
      using "2.prems"(1,2) by (simp add: create_or_get_column_def column_limit_check_def)
    then show ?thesis using True "2.prems"(3) by auto
  next
    case False
    obtain c where c: "create_or_get_column a i CT_Tag st = (st\<lparr>mc_columns := mc_columns st @ [c]\<rparr>, Inr c)" "col_name c = a" "col_table_id c = i"
      using create_column_below_limit [OF "2.prems"(1,2), of a CT_Tag] len "2.prems"(3-5) False by auto
    have "map col_name (column_list_by_table_id i (st\<lparr>mc_columns := mc_columns st @ [c]\<rparr>)) = cs @ [a]"
      using "2.prems"(3) c by (simp add: column_list_by_table_id_def)
    then show ?thesis
      using "2.IH" [of "st\<lparr>mc_columns := mc_columns st @ [c]\<rparr>" "cs @ [a]"] "2.prems" False c(1) by auto
  qed
qed simp_all

text \<open>
  C36. Creating a table is not atomic: when the partition template names more distinct tags than the namespace allows
  columns in a table, and no columns are stored yet for the id the table gets, the call reports that the limit
  is exceeded, but the new table stays in the catalog with as many of its first tag columns as are allowed.
\<close>

theorem table_create_not_atomic:
  assumes "catalog_inv st" "n \<in> set (mc_namespaces st)"
    and "length (table_list_by_namespace_id (ns_id n) st) < ns_max_tables n"
    and "table_get_by_namespace_and_name (ns_id n) name st = None"
    and "distinct (template_tags (template_parts template))"
    and "ns_max_columns_per_table n < length (template_tags (template_parts template))"
    and "\<forall>c \<in> set (mc_columns st). col_table_id c \<noteq> int (length (mc_tables st)) + 1"
  shows "\<exists>st' d t. table_create name template (ns_id n) st = (st', Inl (LimitExceeded d))
    \<and> table_get_by_namespace_and_name (ns_id n) name st' = Some t
    \<and> map col_name (column_list_by_table_id (t_id t) st') = take (ns_max_columns_per_table n) (template_tags (template_parts template))"
proof -
  let ?i = "int (length (mc_tables st)) + 1"
  define t where "t = \<lparr>t_id = ?i, t_namespace_id = ns_id n, t_name = name, t_partition_template = template\<rparr>"
  define st1 where "st1 = st\<lparr>mc_tables := mc_tables st @ [versioned_from t]\<rparr>"
  have n: "find (\<lambda>x. ns_id x = ns_id n) (mc_namespaces st) = Some n"
    using ns.find_id [of "mc_namespaces st" n] assms(1,2) by (simp add: catalog_inv_def)
  have "find (\<lambda>x. t_id (v_value x) = ?i) (mc_tables st) = None"
    using tb.ids_in_range [of "mc_tables st"] assms(1) by (fastforce simp: catalog_inv_def find_None_iff)
  then have t: "find (\<lambda>x. t_id (v_value x) = ?i) (mc_tables st1) = Some (versioned_from t)"
    by (simp add: st1_def find_snoc_new versioned_from_def t_def)
  have key: "find (\<lambda>x. t_namespace_id (v_value x) = ns_id n \<and> t_name (v_value x) = name) (mc_tables st) = None"
    using assms(4) by (simp add: table_get_by_namespace_and_name_def)
  have "column_list_by_table_id ?i st1 = []"
    using assms(7) by (simp add: column_list_by_table_id_def st1_def filter_empty_conv)
  then obtain st' d where c: "create_template_columns ?i (template_parts template) st1 = (st', Inl (LimitExceeded d))" "mc_tables st' = mc_tables st1"
      "map col_name (column_list_by_table_id ?i st') = take (ns_max_columns_per_table n) (template_tags (template_parts template))"
    using template_columns_limited [OF t, of n "[]" "template_parts template"] n assms(5,6) by (auto simp: versioned_from_def t_def st1_def)
  have "table_create name template (ns_id n) st = (st', Inl (LimitExceeded d))"
    using n key assms(3) c(1)
    by (simp add: table_create_def table_list_by_namespace_id_def Let_def t_def [symmetric] st1_def [symmetric] conj_commute)
      (simp add: t_def)
  moreover have "table_get_by_namespace_and_name (ns_id n) name st' = Some t"
    using key by (simp add: table_get_by_namespace_and_name_def c(2) st1_def find_snoc_new versioned_from_def) (simp add: t_def)
  moreover have "map col_name (column_list_by_table_id (t_id t) st') = take (ns_max_columns_per_table n) (template_tags (template_parts template))"
    using c(3) by (simp add: t_def)
  ultimately show ?thesis by blast
qed

theorem table_create_not_atomic_witness:
  "\<exists>st' d t. table_create ''cpu'' demo_two_tags (ns_id demo_namespace) demo_limited_state = (st', Inl (LimitExceeded d))
    \<and> table_get_by_namespace_and_name (ns_id demo_namespace) ''cpu'' st' = Some t
    \<and> map col_name (column_list_by_table_id (t_id t) st') = [''a'']"
proof -
  have "take (ns_max_columns_per_table demo_namespace) (template_tags (template_parts demo_two_tags)) = [''a'']"
    by (simp add: demo_namespace_def demo_two_tags_def)
  moreover have "\<exists>st' d t. table_create ''cpu'' demo_two_tags (ns_id demo_namespace) demo_limited_state = (st', Inl (LimitExceeded d))
    \<and> table_get_by_namespace_and_name (ns_id demo_namespace) ''cpu'' st' = Some t
    \<and> map col_name (column_list_by_table_id (t_id t) st') = take (ns_max_columns_per_table demo_namespace) (template_tags (template_parts demo_two_tags))"
    by (rule table_create_not_atomic)
      (simp_all add: demo_limited_state_def namespace_create_inv catalog_inv_new,
       simp_all add: namespace_create_def mem_new_def demo_limits_def Let_def demo_namespace_def default_max_tables_def
         table_list_by_namespace_id_def table_get_by_namespace_and_name_def demo_two_tags_def)
  ultimately show ?thesis by simp
qed

subsection \<open>Parquet files\<close>

text \<open>The live files of a partition.\<close>

definition live_file :: "PartitionId \<Rightarrow> ParquetFile list \<Rightarrow> ObjectStoreId \<Rightarrow> bool" where
  "live_file i fs oid \<longleftrightarrow> (\<exists>f \<in> set fs. f_object_store_id f = oid \<and> f_partition_id f = i \<and> f_to_delete f = None)"

text \<open>The deletion mark a file gets, with the clock reading of its position in the list of deletions.\<close>

fun delete_time :: "(nat \<Rightarrow> Timestamp) \<Rightarrow> nat \<Rightarrow> ObjectStoreId list \<Rightarrow> ObjectStoreId \<Rightarrow> Timestamp option" where
  "delete_time clock n [] oid = None"
| "delete_time clock n (d # ds) oid = (if d = oid then Some (clock n) else delete_time clock (n + 1) ds oid)"

definition flagged :: "PartitionId \<Rightarrow> (nat \<Rightarrow> Timestamp) \<Rightarrow> nat \<Rightarrow> ObjectStoreId list \<Rightarrow> ParquetFile \<Rightarrow> ParquetFile" where
  "flagged i clock n dels f =
     (case (if f_partition_id f = i then delete_time clock n dels (f_object_store_id f) else None) of
        None \<Rightarrow> f | Some t \<Rightarrow> f\<lparr>f_to_delete := Some t\<rparr>)"

definition upgraded :: "PartitionId \<Rightarrow> ObjectStoreId list \<Rightarrow> CompactionLevel \<Rightarrow> ParquetFile \<Rightarrow> ParquetFile" where
  "upgraded i ups lvl f = (if f_object_store_id f \<in> set ups \<and> f_partition_id f = i then f\<lparr>f_compaction_level := lvl\<rparr> else f)"

lemma update_first_pair:
  assumes "distinct (map k xs)"
  shows "update_first (\<lambda>y. k y = c \<and> Q y) f xs = map (\<lambda>y. if k y = c \<and> Q y then f y else y) xs"
  using assms
proof (induction xs)
  case (Cons x xs)
  show ?case
  proof (cases "k x = c \<and> Q x")
    case True
    then have "\<forall>y \<in> set xs. \<not> (k y = c \<and> Q y)" using Cons.prems by (auto simp: image_iff)
    then have "map (\<lambda>y. if k y = c \<and> Q y then f y else y) xs = xs" by (intro map_idI) auto
    then show ?thesis using True by simp
  qed (use Cons in auto)
qed simp

lemma find_pair:
  assumes "distinct (map k xs)" "x \<in> set xs" "k x = c" "Q x"
  shows "find (\<lambda>y. k y = c \<and> Q y) xs = Some x"
  using assms by (induction xs) (auto simp: image_iff)

lemma delete_time_None: "delete_time clock n ds oid = None \<longleftrightarrow> oid \<notin> set ds"
  by (induction ds arbitrary: n) auto

lemma flag_for_delete_cases:
  assumes "distinct (map f_object_store_id (mc_parquet_files st))"
  shows "flag_for_delete i oid t st =
    (if live_file i (mc_parquet_files st) oid
     then (st\<lparr>mc_parquet_files := map (\<lambda>f. if f_object_store_id f = oid \<and> f_partition_id f = i then f\<lparr>f_to_delete := Some t\<rparr> else f)
             (mc_parquet_files st)\<rparr>, Inr ())
     else (st, Inl (NotFound (''parquet file '' @ oid @ '' not found for delete''))))"
proof (cases "live_file i (mc_parquet_files st) oid")
  case True
  then obtain f where f: "f \<in> set (mc_parquet_files st)" "f_object_store_id f = oid" "f_partition_id f = i" "f_to_delete f = None"
    by (auto simp: live_file_def)
  then have "find (\<lambda>p. f_object_store_id p = oid \<and> f_partition_id p = i) (mc_parquet_files st) = Some f"
    using assms by (intro find_pair) auto
  then show ?thesis using True f(4) assms by (simp add: flag_for_delete_def update_first_pair)
next
  case False
  then show ?thesis by (auto simp: flag_for_delete_def live_file_def split: option.splits dest!: find_SomeD)
qed

lemma live_file_flag:
  "live_file i (map (\<lambda>f. if f_object_store_id f = d \<and> f_partition_id f = i then f\<lparr>f_to_delete := Some t\<rparr> else f) fs) oid
    \<longleftrightarrow> live_file i fs oid \<and> oid \<noteq> d"
proof -
  define g where "g f = (if f_object_store_id f = d \<and> f_partition_id f = i then f\<lparr>f_to_delete := Some t\<rparr> else f)" for f :: ParquetFile
  have "f_object_store_id (g f) = oid \<and> f_partition_id (g f) = i \<and> f_to_delete (g f) = None
      \<longleftrightarrow> (f_object_store_id f = oid \<and> f_partition_id f = i \<and> f_to_delete f = None) \<and> oid \<noteq> d" for f
    by (auto simp: g_def)
  then have "live_file i (map g fs) oid \<longleftrightarrow> live_file i fs oid \<and> oid \<noteq> d" by (simp add: live_file_def) blast
  then show ?thesis unfolding g_def [abs_def] .
qed

lemma delete_loop_exact:
  assumes "distinct (map f_object_store_id (mc_parquet_files st))"
  shows "if distinct ids \<and> (\<forall>d \<in> set ids. live_file i (mc_parquet_files st) d)
    then delete_loop i clock n ids st = (st\<lparr>mc_parquet_files := map (flagged i clock n ids) (mc_parquet_files st)\<rparr>, Inr ())
    else \<exists>st' e. delete_loop i clock n ids st = (st', Inl (NotFound e))"
  using assms
proof (induction ids arbitrary: n st)
  case Nil
  then show ?case by (simp add: flagged_def map_idI)
next
  case (Cons d ids)
  let ?fs = "mc_parquet_files st"
  show ?case
  proof (cases "live_file i ?fs d")
    case False
    then show ?thesis using flag_for_delete_cases [OF Cons.prems, of i d "clock n"] by simp
  next
    case True
    define fs' where "fs' = map (\<lambda>f. if f_object_store_id f = d \<and> f_partition_id f = i then f\<lparr>f_to_delete := Some (clock n)\<rparr> else f) ?fs"
    define st' where "st' = st\<lparr>mc_parquet_files := fs'\<rparr>"
    have "map f_object_store_id fs' = map f_object_store_id ?fs" by (simp add: fs'_def)
    then have d': "distinct (map f_object_store_id (mc_parquet_files st'))" using Cons.prems by (simp add: st'_def)
    have step: "delete_loop i clock n (d # ids) st = delete_loop i clock (n + 1) ids st'"
      using flag_for_delete_cases [OF Cons.prems, of i d "clock n"] True by (simp add: st'_def fs'_def)
    have live: "live_file i (mc_parquet_files st') o' \<longleftrightarrow> live_file i ?fs o' \<and> o' \<noteq> d" for o'
      by (simp add: st'_def fs'_def live_file_flag)
    have fl: "map (flagged i clock (n + 1) ids) fs' = map (flagged i clock n (d # ids)) ?fs" if "d \<notin> set ids"
      using that delete_time_None [of clock "n + 1" ids d] by (auto simp: fs'_def flagged_def split: option.splits)
    have "distinct ids \<and> (\<forall>x \<in> set ids. live_file i (mc_parquet_files st') x)
        \<longleftrightarrow> distinct (d # ids) \<and> (\<forall>x \<in> set (d # ids). live_file i ?fs x)"
      using live True by auto
    then show ?thesis using Cons.IH [OF d', of "n + 1"] step fl by (auto simp: st'_def split: if_splits)
  qed
qed

lemma update_level_exact:
  "if \<forall>u \<in> set ups. live_file i (mc_parquet_files st) u
   then \<exists>ids. update_compaction_level i ups lvl st = (st\<lparr>mc_parquet_files := map (upgraded i ups lvl) (mc_parquet_files st)\<rparr>, Inr ids)
   else \<exists>e. update_compaction_level i ups lvl st = (st, Inl (NotFound e))"
proof -
  let ?ids = "map f_object_store_id (filter (\<lambda>f. f_partition_id f = i \<and> f_to_delete f = None) (mc_parquet_files st))"
  have live: "live_file i (mc_parquet_files st) u \<longleftrightarrow> u \<in> set ?ids" for u by (auto simp: live_file_def)
  show ?thesis
  proof (cases "find (\<lambda>u. u \<notin> set ?ids) ups")
    case None
    then have "\<forall>u \<in> set ups. live_file i (mc_parquet_files st) u" unfolding live by (auto simp: find_None_iff)
    then show ?thesis using None by (simp add: update_compaction_level_def Let_def upgraded_def [abs_def])
  next
    case (Some u)
    then have "\<not> (\<forall>u \<in> set ups. live_file i (mc_parquet_files st) u)" unfolding live using find_SomeD [OF Some] by blast
    then show ?thesis using Some by (simp add: update_compaction_level_def Let_def)
  qed
qed

text \<open>The files and the partition changes that a list of new files stands for.\<close>

fun new_files :: "nat \<Rightarrow> ParquetFileParams list \<Rightarrow> ParquetFile list" where
  "new_files n [] = []"
| "new_files n (p # ps) = parquet_file_from_params p (int n + 1) # new_files (n + 1) ps"

fun touch_partition :: "PartitionId \<Rightarrow> ParquetFileParams list \<Rightarrow> Partition Versioned list \<Rightarrow> Partition Versioned list" where
  "touch_partition i [] ps = ps"
| "touch_partition i (f # fs) ps = touch_partition i fs (update_first (\<lambda>p. p_id (v_value p) = i)
     (\<lambda>p. p\<lparr>v_value := (v_value p)\<lparr>p_new_file_at := Some (fp_created_at f)\<rparr>\<rparr>) ps)"

definition creatable :: "PartitionId \<Rightarrow> ParquetFileParams list \<Rightarrow> MemCollections \<Rightarrow> bool" where
  "creatable i news st \<longleftrightarrow> (\<forall>p \<in> set news. fp_partition_id p = i) \<and> distinct (map fp_object_store_id news)
     \<and> fp_object_store_id ` set news \<inter> f_object_store_id ` set (mc_parquet_files st) = {}
     \<and> (news \<noteq> [] \<longrightarrow> i \<in> partition_id_of ` set (mc_partitions st))"

lemma create_parquet_file_cases:
  assumes "fp_partition_id p = i"
  shows "create_parquet_file p st =
    (if fp_object_store_id p \<in> f_object_store_id ` set (mc_parquet_files st) then (st, Inl (AlreadyExists (fp_object_store_id p)))
     else if i \<in> partition_id_of ` set (mc_partitions st)
     then (st\<lparr>mc_parquet_files := mc_parquet_files st @ [parquet_file_from_params p (int (length (mc_parquet_files st)) + 1)],
             mc_partitions := touch_partition i [p] (mc_partitions st)\<rparr>,
           Inr (parquet_file_from_params p (int (length (mc_parquet_files st)) + 1)))
     else (st\<lparr>mc_parquet_files := mc_parquet_files st @ [parquet_file_from_params p (int (length (mc_parquet_files st)) + 1)]\<rparr>,
           Inl (NotFound (int_fmt i))))"
proof -
  have ex: "list_ex (\<lambda>f. f_object_store_id f = x) fs \<longleftrightarrow> x \<in> f_object_store_id ` set fs" for x fs
    by (auto simp: list_ex_iff)
  have pid: "f_partition_id (parquet_file_from_params p k) = i" "f_created_at (parquet_file_from_params p k) = fp_created_at p" for k
    using assms by (simp_all add: parquet_file_from_params_def)
  show ?thesis
  proof (cases "find (\<lambda>p. p_id (v_value p) = i) (mc_partitions st)")
    case None
    then have "i \<notin> partition_id_of ` set (mc_partitions st)" by (auto simp: find_None_iff)
    then show ?thesis using None by (simp add: create_parquet_file_def Let_def ex pid)
  next
    case (Some q)
    then have "i \<in> partition_id_of ` set (mc_partitions st)" using find_SomeD [OF Some] by auto
    then show ?thesis using Some by (simp add: create_parquet_file_def Let_def ex pid)
  qed
qed

lemma touch_partition_ids: "partition_id_of ` set (touch_partition i fs ps) = partition_id_of ` set ps"
proof (induction i fs ps rule: touch_partition.induct)
  case (2 i f fs ps)
  then show ?case by (simp add: update_first_image [of partition_id_of])
qed simp

lemma create_loop_exact:
  "if creatable i news st
   then create_loop i news st = (st\<lparr>mc_parquet_files := mc_parquet_files st @ new_files (length (mc_parquet_files st)) news,
       mc_partitions := touch_partition i news (mc_partitions st)\<rparr>, Inr (map f_id (new_files (length (mc_parquet_files st)) news)))
   else \<exists>st' e. create_loop i news st = (st', Inl e)"
proof (induction news arbitrary: st)
  case (Cons p news)
  let ?fs = "mc_parquet_files st"
  define f where "f = parquet_file_from_params p (int (length ?fs) + 1)"
  define st' where "st' = st\<lparr>mc_parquet_files := ?fs @ [f], mc_partitions := touch_partition i [p] (mc_partitions st)\<rparr>"
  have of: "f_object_store_id f = fp_object_store_id p" by (simp add: f_def parquet_file_from_params_def)
  show ?case
  proof (cases "fp_partition_id p = i \<and> fp_object_store_id p \<notin> f_object_store_id ` set ?fs \<and> i \<in> partition_id_of ` set (mc_partitions st)")
    case False
    then have "\<not> creatable i (p # news) st" by (auto simp: creatable_def)
    then show ?thesis using False create_parquet_file_cases [of p i st] by auto
  next
    case True
    have c: "creatable i (p # news) st \<longleftrightarrow> creatable i news st'"
      using True of by (auto simp: creatable_def st'_def touch_partition_ids simp del: touch_partition.simps)
    have l: "create_loop i (p # news) st = apsnd (map_sum id ((#) (f_id f))) (create_loop i news st')"
      using True create_parquet_file_cases [of p i st] by (simp add: st'_def f_def del: touch_partition.simps)
    show ?thesis
    proof (cases "creatable i news st'")
      case True
      have "create_loop i news st' = (st'\<lparr>mc_parquet_files := mc_parquet_files st' @ new_files (length (mc_parquet_files st')) news,
          mc_partitions := touch_partition i news (mc_partitions st')\<rparr>, Inr (map f_id (new_files (length (mc_parquet_files st')) news)))"
        using Cons.IH [of st'] True by simp
      then show ?thesis using c l True by (simp add: st'_def f_def)
    next
      case False
      then obtain st2 e where "create_loop i news st' = (st2, Inl e)" using Cons.IH [of st'] by auto
      then show ?thesis using c l False by simp
    qed
  qed
qed (simp add: creatable_def)

text \<open>
  When a change of a partition is valid: the deletions are distinct live files of the partition, the upgrades
  are live files of it, and the new files belong to it, have fresh and distinct ids, and the partition exists.
\<close>

definition valid_change :: "PartitionId \<Rightarrow> ObjectStoreId list \<Rightarrow> ObjectStoreId list \<Rightarrow> ParquetFileParams list \<Rightarrow> MemCollections \<Rightarrow> bool" where
  "valid_change i dels ups news st \<longleftrightarrow> distinct dels \<and> (\<forall>d \<in> set dels. live_file i (mc_parquet_files st) d)
     \<and> (\<forall>u \<in> set ups. live_file i (mc_parquet_files st) u) \<and> creatable i news st"

lemma live_file_flagged:
  "live_file i (map (flagged i clock n dels) fs) oid \<longleftrightarrow> live_file i fs oid \<and> oid \<notin> set dels"
proof -
  have "f_object_store_id (flagged i clock n dels f) = oid \<and> f_partition_id (flagged i clock n dels f) = i \<and> f_to_delete (flagged i clock n dels f) = None
      \<longleftrightarrow> (f_object_store_id f = oid \<and> f_partition_id f = i \<and> f_to_delete f = None) \<and> oid \<notin> set dels" for f
    using delete_time_None [of clock n dels "f_object_store_id f"] by (auto simp: flagged_def split: option.splits)
  then show ?thesis by (simp add: live_file_def) blast
qed

lemma creatable_frame:
  assumes "map f_object_store_id fs = map f_object_store_id (mc_parquet_files st)"
  shows "creatable i news (st\<lparr>mc_parquet_files := fs\<rparr>) \<longleftrightarrow> creatable i news st"
proof -
  have "f_object_store_id ` set fs = f_object_store_id ` set (mc_parquet_files st)" using assms by (metis list.set_map)
  then show ?thesis by (simp add: creatable_def)
qed

text \<open>
  C14. A combined change of a partition's files is atomic and exact. If its deletions, upgrades and creations
  are all valid, exactly the deleted files are marked with the time of their deletion, exactly the upgraded
  files get the target level, the new files are appended with the next ids and these ids are returned, and
  the partition remembers the creation time of the last new file; nothing else changes. If anything is
  invalid an error is returned and the catalog is exactly as before. It never panics when deletions and
  upgrades are disjoint.
\<close>

theorem create_upgrade_delete_exact:
  assumes "catalog_inv st" "set dels \<inter> set ups = {}"
  shows "if valid_change i dels ups news st
    then create_upgrade_delete clock i dels ups news lvl st =
      Some (st\<lparr>mc_parquet_files := map (upgraded i ups lvl \<circ> flagged i clock 0 dels) (mc_parquet_files st)
                @ new_files (length (mc_parquet_files st)) news,
              mc_partitions := touch_partition i news (mc_partitions st)\<rparr>,
            Inr (map f_id (new_files (length (mc_parquet_files st)) news)))
    else \<exists>e. create_upgrade_delete clock i dels ups news lvl st = Some (st, Inl e)"
proof -
  let ?fs = "mc_parquet_files st"
  have d: "distinct (map f_object_store_id ?fs)" using assms(1) by (simp add: catalog_inv_def)
  define st1 where "st1 = st\<lparr>mc_parquet_files := map (flagged i clock 0 dels) ?fs\<rparr>"
  define st2 where "st2 = st\<lparr>mc_parquet_files := map (upgraded i ups lvl \<circ> flagged i clock 0 dels) ?fs\<rparr>"
  have oid: "f_object_store_id (upgraded i ups lvl (flagged i clock 0 dels f)) = f_object_store_id f" for f
    by (simp add: upgraded_def flagged_def split: option.splits)
  have c2: "creatable i news st2 \<longleftrightarrow> creatable i news st"
    unfolding st2_def by (rule creatable_frame) (simp add: oid)
  have live: "(\<forall>u \<in> set ups. live_file i (mc_parquet_files st1) u) \<longleftrightarrow> (\<forall>u \<in> set ups. live_file i ?fs u)"
    using assms(2) by (auto simp: st1_def live_file_flagged)
  consider (del) "\<not> (distinct dels \<and> (\<forall>d \<in> set dels. live_file i ?fs d))"
    | (up) "distinct dels \<and> (\<forall>d \<in> set dels. live_file i ?fs d)" "\<not> (\<forall>u \<in> set ups. live_file i ?fs u)"
    | (both) "distinct dels \<and> (\<forall>d \<in> set dels. live_file i ?fs d)" "\<forall>u \<in> set ups. live_file i ?fs u" by blast
  then show ?thesis
  proof cases
    case del
    obtain st' e where "delete_loop i clock 0 dels st = (st', Inl (NotFound e))"
      using delete_loop_exact [OF d, of dels i clock 0] unfolding if_not_P [OF del] by blast
    then show ?thesis using del assms(2) by (auto simp: valid_change_def create_upgrade_delete_def)
  next
    case up
    then have "delete_loop i clock 0 dels st = (st1, Inr ())"
      using delete_loop_exact [OF d, of dels i clock 0] by (simp add: st1_def)
    moreover obtain e where "update_compaction_level i ups lvl st1 = (st1, Inl (NotFound e))"
      using update_level_exact [of ups i st1 lvl] up(2) live by auto
    ultimately show ?thesis using up assms(2) by (simp add: valid_change_def create_upgrade_delete_def)
  next
    case both
    then have 1: "delete_loop i clock 0 dels st = (st1, Inr ())"
      using delete_loop_exact [OF d, of dels i clock 0] by (simp add: st1_def)
    obtain ids where 2: "update_compaction_level i ups lvl st1 = (st2, Inr ids)"
      using update_level_exact [of ups i st1 lvl] both(2) live by (auto simp: st1_def st2_def)
    show ?thesis
    proof (cases "creatable i news st2")
      case True
      then show ?thesis
        using create_loop_exact [of i news st2] c2 both assms(2) 1 2
        by (simp add: valid_change_def create_upgrade_delete_def st2_def)
    next
      case False
      then obtain st' e where "create_loop i news st2 = (st', Inl e)" using create_loop_exact [of i news st2] by auto
      then show ?thesis using False c2 both assms(2) 1 2 by (simp add: valid_change_def create_upgrade_delete_def)
    qed
  qed
qed

definition demo_params :: "ObjectStoreId \<Rightarrow> ParquetFileParams" where
  "demo_params oid = \<lparr>fp_namespace_id = 1, fp_table_id = 1, fp_partition_id = 1, fp_partition_hash_id = None,
     fp_object_store_id = oid, fp_min_time = 0, fp_max_time = 9, fp_file_size_bytes = 5, fp_row_count = 3,
     fp_compaction_level = Initial, fp_created_at = 10, fp_column_set = [], fp_max_l0_created_at = 10\<rparr>"

theorem create_upgrade_delete_exact_witness:
  "valid_change 1 [] [] [demo_params ''x''] demo_partition_state
   \<and> create_upgrade_delete (\<lambda>_. 20) 1 [] [] [demo_params ''x''] Final demo_partition_state =
      Some (demo_partition_state\<lparr>mc_parquet_files := map (upgraded 1 [] Final \<circ> flagged 1 (\<lambda>_. 20) 0 []) (mc_parquet_files demo_partition_state)
                @ new_files (length (mc_parquet_files demo_partition_state)) [demo_params ''x''],
              mc_partitions := touch_partition 1 [demo_params ''x''] (mc_partitions demo_partition_state)\<rparr>,
            Inr (map f_id (new_files (length (mc_parquet_files demo_partition_state)) [demo_params ''x''])))"
proof -
  have "valid_change 1 [] [] [demo_params ''x''] demo_partition_state"
    by (simp add: valid_change_def creatable_def demo_params_def demo_partition_state_def partition_create_or_get_def
        mem_new_def Let_def versioned_from_def)
  then show ?thesis
    using create_upgrade_delete_exact [OF demo_partition_state_inv, of "[]" "[]" 1 "[demo_params ''x'']" "\<lambda>_. 20" Final] by simp
qed

subsection \<open>Retention and removal\<close>

text \<open>The retention period that applies to a file, and whether the file has outlived it.\<close>

definition file_retention :: "Namespace list \<Rightarrow> ParquetFile \<Rightarrow> int option" where
  "file_retention nss f = Option.bind (find (\<lambda>n. ns_id n = f_namespace_id f) nss) ns_retention_period_ns"

definition expired :: "Timestamp \<Rightarrow> Namespace list \<Rightarrow> ParquetFile \<Rightarrow> bool" where
  "expired now nss f \<longleftrightarrow> f_to_delete f = None \<and> (case file_retention nss f of None \<Rightarrow> False | Some rp \<Rightarrow> f_max_time f < now - rp)"

definition mark_expired :: "Timestamp \<Rightarrow> Namespace list \<Rightarrow> ParquetFile \<Rightarrow> ParquetFile" where
  "mark_expired now nss f = (if expired now nss f then f\<lparr>f_to_delete := Some now\<rparr> else f)"

definition file_ref :: "ParquetFile \<Rightarrow> PartitionId \<times> ObjectStoreId" where
  "file_ref f = (f_partition_id f, f_object_store_id f)"

definition retention_result where
  "retention_result now nss k fs m ids r \<longleftrightarrow> r = Some (map (mark_expired now nss) (take m fs) @ drop m fs, ids)
     \<and> ids = map file_ref (filter (expired now nss) (take m fs))
     \<and> length ids \<le> k \<and> (length ids = k \<or> length fs \<le> m)"

lemma retention_loop_step:
  assumes "k \<noteq> 0" "\<And>rp. file_retention nss f = Some rp \<Longrightarrow> timestamp_sub now rp = Some (now - rp)"
  shows "retention_loop now nss k (f # fs) =
    (if expired now nss f then map_option (\<lambda>(fs, ids). (mark_expired now nss f # fs, file_ref f # ids)) (retention_loop now nss (k - 1) fs)
     else map_option (apfst ((#) f)) (retention_loop now nss k fs))"
  using assms by (auto simp: expired_def file_retention_def mark_expired_def file_ref_def split: option.splits)

lemma retention_loop_exact:
  assumes "\<And>n rp. n \<in> set nss \<Longrightarrow> ns_retention_period_ns n = Some rp \<Longrightarrow> in_i64 (now - rp)"
  shows "\<exists>m ids. retention_result now nss k fs m ids (retention_loop now nss k fs)"
proof (induction fs arbitrary: k)
  case Nil
  show ?case by (intro exI [of _ 0] exI [of _ "[]"]) (simp add: retention_result_def)
next
  case (Cons f fs)
  have sub: "timestamp_sub now rp = Some (now - rp)" if "file_retention nss f = Some rp" for rp
    using that assms by (auto simp: file_retention_def timestamp_sub_def i64_sub_def split: bind_splits dest!: find_SomeD)
  consider "k = 0" | "k \<noteq> 0" "expired now nss f" | "k \<noteq> 0" "\<not> expired now nss f" by blast
  then show ?case
  proof cases
    case 1
    then show ?thesis by (intro exI [of _ 0] exI [of _ "[]"]) (simp add: retention_result_def)
  next
    case 2
    from Cons.IH [of "k - 1"] obtain m ids where m: "retention_result now nss (k - 1) fs m ids (retention_loop now nss (k - 1) fs)" by blast
    have "retention_result now nss k (f # fs) (Suc m) (file_ref f # ids) (retention_loop now nss k (f # fs))"
      using m 2 by (auto simp: retention_loop_step [OF 2(1) sub] retention_result_def simp del: retention_loop.simps)
    then show ?thesis by blast
  next
    case 3
    from Cons.IH [of k] obtain m ids where m: "retention_result now nss k fs m ids (retention_loop now nss k fs)" by blast
    have "retention_result now nss k (f # fs) (Suc m) ids (retention_loop now nss k (f # fs))"
      using m 3 by (auto simp: retention_loop_step [OF 3(1) sub] retention_result_def mark_expired_def simp del: retention_loop.simps)
    then show ?thesis by blast
  qed
qed

text \<open>
  C18. Flagging by retention marks with the current time exactly the unmarked files of the scanned prefix whose
  newest data is older than the retention period of their namespace, and returns exactly these; it marks at
  most 1,000 files and scans all of them if it marks fewer. It does not panic as long as the current time
  minus each retention period is a 64-bit number.
\<close>

theorem retention_flagging_exact:
  assumes "\<And>n rp. n \<in> set (mc_namespaces st) \<Longrightarrow> ns_retention_period_ns n = Some rp \<Longrightarrow> in_i64 (now - rp)"
  shows "\<exists>m ids. flag_for_delete_by_retention now st =
      Some (st\<lparr>mc_parquet_files := map (mark_expired now (mc_namespaces st)) (take m (mc_parquet_files st))
          @ drop m (mc_parquet_files st)\<rparr>, ids)
    \<and> ids = map file_ref (filter (expired now (mc_namespaces st)) (take m (mc_parquet_files st)))
    \<and> length ids \<le> 1000 \<and> (length ids = 1000 \<or> length (mc_parquet_files st) \<le> m)"
proof -
  have "\<exists>m ids. retention_result now (mc_namespaces st) 1000 (mc_parquet_files st) m ids
      (retention_loop now (mc_namespaces st) 1000 (mc_parquet_files st))"
    by (rule retention_loop_exact) (rule assms)
  then obtain m ids where r: "retention_result now (mc_namespaces st) 1000 (mc_parquet_files st) m ids
      (retention_loop now (mc_namespaces st) 1000 (mc_parquet_files st))" by blast
  then show ?thesis
    unfolding retention_result_def
    by (intro exI [of _ m] exI [of _ ids]) (auto simp: flag_for_delete_by_retention_def MAX_PARQUET_FILES_SELECTED_ONCE_FOR_RETENTION_def)
qed

text \<open>A namespace that keeps data for 50 units of time, a file whose newest data is of time 9, and one marked already.\<close>

definition demo_retention_state :: MemCollections where
  "demo_retention_state = demo_partition_state\<lparr>mc_namespaces := [demo_namespace\<lparr>ns_retention_period_ns := Some 50\<rparr>],
     mc_parquet_files := [parquet_file_from_params (demo_params ''x'') 1,
       (parquet_file_from_params (demo_params ''y'') 2)\<lparr>f_to_delete := Some 60\<rparr>]\<rparr>"

theorem retention_flagging_exact_witness:
  "catalog_inv demo_retention_state \<and> (\<exists>st'. flag_for_delete_by_retention 100 demo_retention_state = Some (st', [(1, ''x'')])
    \<and> map f_to_delete (mc_parquet_files st') = [Some 100, Some 60])"
proof
  show "catalog_inv demo_retention_state"
    using demo_partition_state_inv
    by (simp add: catalog_inv_def demo_retention_state_def rows_ok_def parquet_file_from_params_def demo_params_def demo_namespace_def)
      (simp add: demo_partition_state_def partition_create_or_get_def mem_new_def Let_def versioned_from_def)
  let ?st = demo_retention_state
  have "\<exists>m ids. flag_for_delete_by_retention 100 ?st =
      Some (?st\<lparr>mc_parquet_files := map (mark_expired 100 (mc_namespaces ?st)) (take m (mc_parquet_files ?st)) @ drop m (mc_parquet_files ?st)\<rparr>, ids)
    \<and> ids = map file_ref (filter (expired 100 (mc_namespaces ?st)) (take m (mc_parquet_files ?st)))
    \<and> length ids \<le> 1000 \<and> (length ids = 1000 \<or> length (mc_parquet_files ?st) \<le> m)"
    by (rule retention_flagging_exact) (simp add: demo_retention_state_def in_i64_def i64_min_def i64_max_def)
  then obtain m ids where r: "flag_for_delete_by_retention 100 ?st =
      Some (?st\<lparr>mc_parquet_files := map (mark_expired 100 (mc_namespaces ?st)) (take m (mc_parquet_files ?st)) @ drop m (mc_parquet_files ?st)\<rparr>, ids)"
      "ids = map file_ref (filter (expired 100 (mc_namespaces ?st)) (take m (mc_parquet_files ?st)))"
      "length ids = 1000 \<or> length (mc_parquet_files ?st) \<le> m" by blast
  have two: "length (mc_parquet_files ?st) = 2" by (simp add: demo_retention_state_def)
  have "length ids \<le> 2" unfolding r(2) using length_filter_le [of "expired 100 (mc_namespaces ?st)" "take m (mc_parquet_files ?st)"] two by simp
  then have m: "take m (mc_parquet_files ?st) = mc_parquet_files ?st" "drop m (mc_parquet_files ?st) = []" using r(3) by auto
  show "\<exists>st'. flag_for_delete_by_retention 100 ?st = Some (st', [(1, ''x'')]) \<and> map f_to_delete (mc_parquet_files st') = [Some 100, Some 60]"
    using r(1,2) unfolding m
    by (simp add: demo_retention_state_def demo_namespace_def mark_expired_def expired_def file_retention_def file_ref_def
        parquet_file_from_params_def demo_params_def)
qed

lemma distinct_map_nth_take: "distinct (map g xs) \<Longrightarrow> n < length xs \<Longrightarrow> g (xs ! n) \<notin> set (map g (take n xs))"
  by (subst (asm) id_take_nth_drop) auto

text \<open>
  C37. Removing old files deletes from the catalog every file marked before the given time, but the returned
  list stops after 10,000 ids: when more files are due, the others are gone from the catalog without their
  ids ever being reported.
\<close>

theorem delete_old_ids_loses_ids:
  assumes "delete_old_ids_only t st = (st', ids)"
    and "length (filter (\<lambda>f. \<exists>d. f_to_delete f = Some d \<and> d < t) (mc_parquet_files st)) > 10000"
    and "catalog_inv st"
  shows "(\<forall>f \<in> set (mc_parquet_files st'). \<not> (\<exists>d. f_to_delete f = Some d \<and> d < t))
    \<and> length ids = 10000
    \<and> (\<exists>f \<in> set (mc_parquet_files st). f \<notin> set (mc_parquet_files st') \<and> f_object_store_id f \<notin> set ids)"
proof -
  let ?P = "\<lambda>f. \<exists>d. f_to_delete f = Some d \<and> d < t"
  let ?del = "filter ?P (mc_parquet_files st)"
  have P: "(case f_to_delete f of None \<Rightarrow> False | Some m \<Rightarrow> m < t) = ?P f" for f by (auto split: option.splits)
  have st': "mc_parquet_files st' = filter (\<lambda>f. \<not> ?P f) (mc_parquet_files st)"
    and ids: "ids = map f_object_store_id (take 10000 ?del)"
    using assms(1) by (auto simp: delete_old_ids_only_def Let_def P MAX_PARQUET_FILES_SELECTED_ONCE_FOR_DELETE_def)
  define f where "f = ?del ! 10000"
  have f: "f \<in> set (mc_parquet_files st)" "?P f" using assms(2) nth_mem [of 10000 ?del] by (auto simp: f_def)
  have "distinct (map f_object_store_id ?del)" using assms(3) by (simp add: catalog_inv_def distinct_map_filter)
  then have "f_object_store_id f \<notin> set ids" unfolding f_def ids by (rule distinct_map_nth_take) (rule assms(2))
  moreover have "length ids = 10000" using assms(2) by (simp add: ids)
  moreover have "f \<notin> set (mc_parquet_files st')" using f(2) by (simp add: st')
  moreover have "\<forall>f \<in> set (mc_parquet_files st'). \<not> ?P f" by (simp add: st')
  ultimately show ?thesis using f(1) by blast
qed

text \<open>A catalog with 10,001 files that are due for removal.\<close>

definition demo_due_file :: "nat \<Rightarrow> ParquetFile" where
  "demo_due_file i = (parquet_file_from_params (demo_params (replicate i CHR ''x'')) (int i + 1))\<lparr>f_to_delete := Some 5\<rparr>"

definition demo_due_state :: MemCollections where
  "demo_due_state = demo_partition_state\<lparr>mc_parquet_files := map demo_due_file [0..<10001]\<rparr>"

lemma demo_due_file_simps:
  "f_to_delete (demo_due_file i) = Some 5" "f_object_store_id (demo_due_file i) = replicate i CHR ''x''" "f_partition_id (demo_due_file i) = 1"
  by (simp_all add: demo_due_file_def parquet_file_from_params_def demo_params_def)

lemma demo_due_state_inv: "catalog_inv demo_due_state"
proof -
  have "distinct (map (\<lambda>i. replicate i CHR ''x'') [0..<10001])"
    unfolding distinct_map by (auto simp: inj_on_def dest: arg_cong [where f = length] simp del: upt_rec_numeral)
  then have "distinct (map f_object_store_id (mc_parquet_files demo_due_state))"
    by (simp add: demo_due_state_def o_def demo_due_file_simps del: upt_rec_numeral)
  moreover have "\<exists>p \<in> set (mc_partitions demo_partition_state). partition_id_of p = 1"
    by (simp add: demo_partition_state_def partition_create_or_get_def mem_new_def Let_def versioned_from_def)
  ultimately show ?thesis
    using demo_partition_state_inv
    by (auto simp: catalog_inv_def demo_due_state_def demo_due_file_simps simp del: upt_rec_numeral)
qed

theorem delete_old_ids_loses_ids_witness:
  "\<exists>st' ids. delete_old_ids_only 9 demo_due_state = (st', ids) \<and> length ids = 10000
    \<and> (\<exists>f \<in> set (mc_parquet_files demo_due_state). f \<notin> set (mc_parquet_files st') \<and> f_object_store_id f \<notin> set ids)"
proof -
  obtain st' ids where d: "delete_old_ids_only 9 demo_due_state = (st', ids)" by fastforce
  have "length (filter (\<lambda>f. \<exists>d. f_to_delete f = Some d \<and> d < 9) (mc_parquet_files demo_due_state)) > 10000"
    by (simp add: demo_due_state_def filter_map o_def demo_due_file_simps del: upt_rec_numeral)
  from delete_old_ids_loses_ids [OF d this demo_due_state_inv] d show ?thesis by blast
qed

lemma create_upgrade_delete_runs:
  "set d \<inter> set u = {} \<Longrightarrow> \<exists>st' r. create_upgrade_delete clock i d u c lvl st = Some (st', r)"
  by (cases "create_upgrade_delete clock i d u c lvl st") (auto simp: create_upgrade_delete_def)

text \<open>
  C38. The id of a new parquet file is the number of stored files plus one. After a removal this number is
  taken again: a reachable catalog holds two files with the same id.
\<close>

theorem parquet_file_ids_reused: "\<exists>st. (mem_step id)\<^sup>*\<^sup>* mem_new st \<and> \<not> distinct (map f_id (mc_parquet_files st))"
proof -
  let ?cud = "\<lambda>del new. create_upgrade_delete (\<lambda>_. 20) 1 del [] new Final"
  have "\<exists>r. partition_create_or_get id ''k'' 1 mem_new = (demo_partition_state, r)"
    by (simp add: demo_partition_state_def prod_eq_iff)
  then have 1: "(mem_step id)\<^sup>*\<^sup>* mem_new demo_partition_state" by (blast intro: step_partition)
  obtain st2 r2 where 2: "?cud [] [demo_params ''x'', demo_params ''y''] demo_partition_state = Some (st2, r2)"
    using create_upgrade_delete_runs by fastforce
  obtain st3 r3 where 3: "?cud [''x''] [] st2 = Some (st3, r3)" using create_upgrade_delete_runs by fastforce
  obtain st4 r4 where 4: "delete_old_ids_only 30 st3 = (st4, r4)" by fastforce
  obtain st5 r5 where 5: "?cud [] [demo_params ''z''] st4 = Some (st5, r5)" using create_upgrade_delete_runs by fastforce
  note eval = create_upgrade_delete_def update_compaction_level_def create_parquet_file_def demo_params_def
    demo_partition_state_def partition_create_or_get_def mem_new_def Let_def versioned_from_def
    parquet_file_from_params_def flag_for_delete_def update_first.simps delete_old_ids_only_def
  from 2 3 4 5 have "map f_id (mc_parquet_files st5) = [2, 2]" by (auto simp: eval)
  moreover have "(mem_step id)\<^sup>*\<^sup>* mem_new st5"
    using 1 step_files [OF 2] step_files [OF 3] step_delete [OF 4] step_files [OF 5] by (meson rtranclp.rtrancl_into_rtrancl)
  ultimately show ?thesis by (intro exI [of _ st5]) simp
qed

end
