(* ===== verification/Addressable_Heap.thy ===== *)
theory Addressable_Heap
  imports Prelude "HOL-Library.Product_Lexorder"
begin

text \<open>
  The addressable heap of \<^verbatim>\<open>cache_system/src/addressable_heap.rs\<close>: a hash map from keys to values and
  orders beside an ordered set of (order, key) pairs. The ordered set (\<^verbatim>\<open>BTreeSet\<close>) is its ascending list
  of elements, the hash map a partial function. An assertion that the two are in step is a possible panic.
\<close>

section \<open>The ordered set\<close>

definition btree_insert :: "'a::linorder \<Rightarrow> 'a list \<Rightarrow> 'a list \<times> bool" where
  "btree_insert x xs = (if x \<in> set xs then (xs, False) else (insort x xs, True))"

definition btree_remove :: "'a::linorder \<Rightarrow> 'a list \<Rightarrow> 'a list \<times> bool" where
  "btree_remove x xs = (remove1 x xs, x \<in> set xs)"

fun btree_pop_first :: "'a list \<Rightarrow> 'a list \<times> 'a option" where
  "btree_pop_first [] = ([], None)"
| "btree_pop_first (x # xs) = (xs, Some x)"

section \<open>The heap\<close>

record ('k, 'v, 'o) AddressableHeap =
  key_to_order_and_value :: "'k \<rightharpoonup> 'v \<times> 'o"
  queue :: "('o \<times> 'k) list"

definition ah_new :: "('k, 'v, 'o) AddressableHeap" where
  "ah_new = \<lparr>key_to_order_and_value = Map.empty, queue = []\<rparr>"

definition ah_is_empty :: "('k, 'v, 'o) AddressableHeap \<Rightarrow> bool option" where
  "ah_is_empty self = (let res1 = (key_to_order_and_value self = Map.empty); res2 = (queue self = [])
     in do { assert_that (res1 = res2); Some res1 })"

definition ah_insert :: "('k::linorder, 'v, 'o::linorder) AddressableHeap \<Rightarrow> 'k \<Rightarrow> 'v \<Rightarrow> 'o \<Rightarrow>
    (('k, 'v, 'o) AddressableHeap \<times> ('v \<times> 'o) option) option" where
  "ah_insert self k v ord = do {
     (q, result) \<leftarrow> (case key_to_order_and_value self k of
         Some (v_old, o_old) \<Rightarrow>
           (let (q, existed) = btree_remove (o_old, k) (queue self)
            in do { assert_that existed; Some (q, Some (v_old, o_old)) })
       | None \<Rightarrow> Some (queue self, None));
     let (q, inserted) = btree_insert (ord, k) q;
     assert_that inserted;
     Some (\<lparr>key_to_order_and_value = (key_to_order_and_value self)(k \<mapsto> (v, ord)), queue = q\<rparr>, result)
   }"

text \<open>The items of the iterator; one that finds the map out of step panics.\<close>

definition ah_iter :: "('k, 'v, 'o) AddressableHeap \<Rightarrow> ('k \<times> 'v \<times> 'o) option list" where
  "ah_iter self = map (\<lambda>(ord, k). do {
     (v, o2) \<leftarrow> key_to_order_and_value self k;
     assert_that (ord = o2);
     Some (k, v, ord)
   }) (queue self)"

definition ah_peek :: "('k, 'v, 'o) AddressableHeap \<Rightarrow> ('k \<times> 'v \<times> 'o) option option" where
  "ah_peek self = (case ah_iter self of [] \<Rightarrow> Some None | item # _ \<Rightarrow> map_option Some item)"

definition ah_pop :: "('k, 'v, 'o) AddressableHeap \<Rightarrow> (('k, 'v, 'o) AddressableHeap \<times> ('k \<times> 'v \<times> 'o) option) option" where
  "ah_pop self = (case btree_pop_first (queue self) of
      (q, Some (ord, k)) \<Rightarrow> do {
        (v, o2) \<leftarrow> key_to_order_and_value self k;
        assert_that (ord = o2);
        Some (\<lparr>key_to_order_and_value = (key_to_order_and_value self)(k := None), queue = q\<rparr>, Some (k, v, ord))
      }
    | (q, None) \<Rightarrow> Some (self, None))"

definition ah_get :: "('k, 'v, 'o) AddressableHeap \<Rightarrow> 'k \<Rightarrow> ('v \<times> 'o) option" where
  "ah_get self k = key_to_order_and_value self k"

definition ah_remove :: "('k::linorder, 'v, 'o::linorder) AddressableHeap \<Rightarrow> 'k \<Rightarrow>
    (('k, 'v, 'o) AddressableHeap \<times> ('v \<times> 'o) option) option" where
  "ah_remove self k = (case key_to_order_and_value self k of
      Some (v, ord) \<Rightarrow>
        (let (q, existed) = btree_remove (ord, k) (queue self)
         in do { assert_that existed;
                 Some (\<lparr>key_to_order_and_value = (key_to_order_and_value self)(k := None), queue = q\<rparr>, Some (v, ord)) })
    | None \<Rightarrow> Some (self, None))"

definition ah_update_order :: "('k::linorder, 'v, 'o::linorder) AddressableHeap \<Rightarrow> 'k \<Rightarrow> 'o \<Rightarrow>
    (('k, 'v, 'o) AddressableHeap \<times> 'o option) option" where
  "ah_update_order self k ord = (case key_to_order_and_value self k of
      Some (v, o_old) \<Rightarrow>
        (let (q, existed) = btree_remove (o_old, k) (queue self)
         in do {
           assert_that existed;
           let (q, inserted) = btree_insert (ord, k) q;
           assert_that inserted;
           Some (\<lparr>key_to_order_and_value = (key_to_order_and_value self)(k \<mapsto> (v, ord)), queue = q\<rparr>, Some o_old)
         })
    | None \<Rightarrow> Some (self, None))"

section \<open>The contract\<close>

text \<open>The queue holds exactly one pair per key, in ascending order.\<close>

definition heap_ok :: "('k::linorder, 'v, 'o::linorder) AddressableHeap \<Rightarrow> bool" where
  "heap_ok h \<longleftrightarrow> sorted (queue h) \<and> distinct (queue h)
     \<and> set (queue h) = {(ord, k). \<exists>v. key_to_order_and_value h k = Some (v, ord)}"

text \<open>
  What users of the heap rely on: an abstract map from keys to values and orders, with the
  least entry by order, then key, taken first.
\<close>

definition least_entry :: "('k::linorder \<rightharpoonup> 'v \<times> 'o::linorder) \<Rightarrow> 'k \<Rightarrow> 'v \<Rightarrow> 'o \<Rightarrow> bool" where
  "least_entry m k v ord \<longleftrightarrow> m k = Some (v, ord) \<and> (\<forall>k' v' o'. m k' = Some (v', o') \<longrightarrow> (ord, k) \<le> (o', k'))"

locale priority_map =
  fixes ok :: "'h \<Rightarrow> bool" and abs :: "'h \<Rightarrow> ('k::linorder \<rightharpoonup> 'v \<times> 'o::linorder)"
    and new :: 'h
    and insert :: "'h \<Rightarrow> 'k \<Rightarrow> 'v \<Rightarrow> 'o \<Rightarrow> ('h \<times> ('v \<times> 'o) option) option"
    and peek :: "'h \<Rightarrow> ('k \<times> 'v \<times> 'o) option option"
    and pop :: "'h \<Rightarrow> ('h \<times> ('k \<times> 'v \<times> 'o) option) option"
    and remove :: "'h \<Rightarrow> 'k \<Rightarrow> ('h \<times> ('v \<times> 'o) option) option"
    and update_order :: "'h \<Rightarrow> 'k \<Rightarrow> 'o \<Rightarrow> ('h \<times> 'o option) option"
  assumes new_ok: "ok new" "abs new = Map.empty"
    and finite_abs: "ok h \<Longrightarrow> finite (dom (abs h))"
    and insert_law: "ok h \<Longrightarrow> \<exists>h'. insert h k v ord = Some (h', abs h k) \<and> ok h' \<and> abs h' = (abs h)(k \<mapsto> (v, ord))"
    and peek_none: "ok h \<Longrightarrow> abs h = Map.empty \<Longrightarrow> peek h = Some None"
    and peek_some: "ok h \<Longrightarrow> abs h \<noteq> Map.empty \<Longrightarrow> \<exists>k v ord. peek h = Some (Some (k, v, ord)) \<and> least_entry (abs h) k v ord"
    and pop_none: "ok h \<Longrightarrow> abs h = Map.empty \<Longrightarrow> pop h = Some (h, None)"
    and pop_some: "ok h \<Longrightarrow> peek h = Some (Some (k, v, ord)) \<Longrightarrow>
      \<exists>h'. pop h = Some (h', Some (k, v, ord)) \<and> ok h' \<and> abs h' = (abs h)(k := None)"
    and remove_law: "ok h \<Longrightarrow> \<exists>h'. remove h k = Some (h', abs h k) \<and> ok h' \<and> abs h' = (abs h)(k := None)"
    and update_law: "ok h \<Longrightarrow> \<exists>h'. update_order h k ord = Some (h', map_option snd (abs h k)) \<and> ok h'
      \<and> abs h' = (case abs h k of None \<Rightarrow> abs h | Some (v, _) \<Rightarrow> (abs h)(k \<mapsto> (v, ord)))"
begin

text \<open>Taking entries while the least one is due, the loop of a policy that evicts by time.\<close>

lemma drain_exact:
  assumes eq: "\<And>h. drain h = do {
      top \<leftarrow> peek h;
      (case top of
         Some (k, v, ord) \<Rightarrow> if ord \<le> now then do {
             (h, item) \<leftarrow> pop h;
             (k, _, _) \<leftarrow> item;
             (h, ks) \<leftarrow> drain h;
             Some (h, k # ks)
           } else Some (h, [])
       | None \<Rightarrow> Some (h, []))
    }"
    and h: "ok h"
  shows "\<exists>h' ks. drain h = Some (h', ks) \<and> ok h' \<and> distinct ks
    \<and> set ks = {k. \<exists>v ord. abs h k = Some (v, ord) \<and> ord \<le> now} \<and> abs h' = (abs h) |` (- set ks)"
  using h
proof (induction "card (dom (abs h))" arbitrary: h rule: less_induct)
  case less
  show ?case
  proof (cases "abs h = Map.empty")
    case True
    then show ?thesis using less.prems peek_none [OF less.prems True] by (subst eq) simp
  next
    case False
    obtain k v ord where top: "peek h = Some (Some (k, v, ord))" "least_entry (abs h) k v ord"
      using peek_some [OF less.prems False] by blast
    have hk: "abs h k = Some (v, ord)" using top(2) by (simp add: least_entry_def)
    have least: "ord \<le> o'" if "abs h k' = Some (v', o')" for k' v' o'
      using top(2) that unfolding least_entry_def less_eq_prod_def by (metis fst_conv less_imp_le)
    show ?thesis
    proof (cases "ord \<le> now")
      case True
      obtain h1 where h1: "pop h = Some (h1, Some (k, v, ord))" "ok h1" "abs h1 = (abs h)(k := None)"
        using pop_some [OF less.prems top(1)] by blast
      have "card (dom (abs h1)) < card (dom (abs h))"
        using hk finite_abs [OF less.prems] by (auto simp: h1 intro!: psubset_card_mono)
      from less.hyps [OF this h1(2)] obtain h' ks where
        r: "drain h1 = Some (h', ks)" "ok h'" "distinct ks"
          "set ks = {k. \<exists>v ord. abs h1 k = Some (v, ord) \<and> ord \<le> now}" "abs h' = (abs h1) |` (- set ks)" by blast
      have "drain h = Some (h', k # ks)" using top(1) True h1(1) r(1) by (subst eq) simp
      moreover have "k \<notin> set ks" by (simp add: r(4) h1(3))
      moreover have "set (k # ks) = {k. \<exists>v ord. abs h k = Some (v, ord) \<and> ord \<le> now}"
        using hk True by (auto simp: r(4) h1(3) split: if_splits)
      moreover have "abs h' = (abs h) |` (- set (k # ks))"
        by (rule ext) (auto simp: r(5) h1(3) restrict_map_def)
      ultimately show ?thesis using r(2,3) by auto
    next
      case False
      then have "\<And>k' v' o'. abs h k' = Some (v', o') \<Longrightarrow> \<not> o' \<le> now" using least by (meson order_trans)
      then show ?thesis using top(1) False less.prems by (subst eq) (auto intro!: exI [of _ h])
    qed
  qed
qed

end

section \<open>The heap satisfies the contract\<close>

lemma heap_ok_queue: "heap_ok h \<Longrightarrow> (ord, k) \<in> set (queue h) \<longleftrightarrow> (\<exists>v. key_to_order_and_value h k = Some (v, ord))"
  by (simp add: heap_ok_def)

lemma heap_ok_finite: "heap_ok h \<Longrightarrow> finite (dom (key_to_order_and_value h))"
proof -
  assume "heap_ok h"
  then have "dom (key_to_order_and_value h) = snd ` set (queue h)" by (force simp: heap_ok_def)
  then show ?thesis by simp
qed

lemma heap_ok_new: "heap_ok ah_new"
  by (simp add: heap_ok_def ah_new_def)

lemma ah_remove_law:
  assumes "heap_ok h"
  shows "\<exists>h'. ah_remove h k = Some (h', key_to_order_and_value h k) \<and> heap_ok h'
    \<and> key_to_order_and_value h' = (key_to_order_and_value h)(k := None)"
proof (cases "key_to_order_and_value h k")
  case None
  then show ?thesis using assms by (auto simp: ah_remove_def fun_upd_idem)
next
  case (Some e)
  obtain v ord where e: "e = (v, ord)" by (cases e)
  then have "(ord, k) \<in> set (queue h)" using Some assms by (simp add: heap_ok_queue)
  moreover have "heap_ok \<lparr>key_to_order_and_value = (key_to_order_and_value h)(k := None), queue = remove1 (ord, k) (queue h)\<rparr>"
    using assms Some e by (auto simp: heap_ok_def sorted_remove1 split: if_splits)
  ultimately show ?thesis using Some e by (auto simp: ah_remove_def btree_remove_def)
qed

lemma heap_ok_push:
  assumes "heap_ok h" "key_to_order_and_value h k = None"
  shows "heap_ok \<lparr>key_to_order_and_value = (key_to_order_and_value h)(k \<mapsto> (v, ord)), queue = insort (ord, k) (queue h)\<rparr>"
    and "(ord, k) \<notin> set (queue h)"
  using assms by (auto simp: heap_ok_def sorted_insort distinct_insort set_insort_key split: if_splits)

lemma heap_ok_delete:
  assumes "heap_ok h" "key_to_order_and_value h k = Some (v, ord)"
  shows "(ord, k) \<in> set (queue h)"
    and "heap_ok \<lparr>key_to_order_and_value = (key_to_order_and_value h)(k := None), queue = remove1 (ord, k) (queue h)\<rparr>"
  using assms by (auto simp: heap_ok_def sorted_remove1 split: if_splits)

lemma ah_insert_law:
  assumes "heap_ok h"
  shows "\<exists>h'. ah_insert h k v ord = Some (h', key_to_order_and_value h k) \<and> heap_ok h'
    \<and> key_to_order_and_value h' = (key_to_order_and_value h)(k \<mapsto> (v, ord))"
proof (cases "key_to_order_and_value h k")
  case None
  then show ?thesis using heap_ok_push(1) [OF assms None, of v ord] heap_ok_push(2) [OF assms None, of ord] by (simp add: ah_insert_def btree_insert_def)
next
  case (Some e)
  obtain v' o' where e: "key_to_order_and_value h k = Some (v', o')" using Some by (cases e) simp
  show ?thesis
    using heap_ok_delete [OF assms e] heap_ok_push(1) [OF heap_ok_delete(2) [OF assms e], of k v ord]
      heap_ok_push(2) [OF heap_ok_delete(2) [OF assms e], of k ord] e
    by (simp add: ah_insert_def btree_insert_def btree_remove_def)
qed

lemma ah_update_law:
  assumes "heap_ok h"
  shows "\<exists>h'. ah_update_order h k ord = Some (h', map_option snd (key_to_order_and_value h k)) \<and> heap_ok h'
    \<and> key_to_order_and_value h' = (case key_to_order_and_value h k of None \<Rightarrow> key_to_order_and_value h
        | Some (v, _) \<Rightarrow> (key_to_order_and_value h)(k \<mapsto> (v, ord)))"
proof (cases "key_to_order_and_value h k")
  case None
  then show ?thesis using assms by (simp add: ah_update_order_def)
next
  case (Some e)
  obtain v' o' where e: "key_to_order_and_value h k = Some (v', o')" using Some by (cases e) simp
  show ?thesis
    using heap_ok_delete [OF assms e] heap_ok_push(1) [OF heap_ok_delete(2) [OF assms e], of k v' ord]
      heap_ok_push(2) [OF heap_ok_delete(2) [OF assms e], of k ord] e
    by (simp add: ah_update_order_def btree_insert_def btree_remove_def)
qed

lemma heap_ok_Nil: "heap_ok h \<Longrightarrow> queue h = [] \<longleftrightarrow> key_to_order_and_value h = Map.empty"
  by (auto simp: heap_ok_def fun_eq_iff) (metis option.exhaust surj_pair)

lemma ah_peek_Cons:
  assumes "heap_ok h" "queue h = (ord, k) # q"
  shows "\<exists>v. ah_peek h = Some (Some (k, v, ord)) \<and> least_entry (key_to_order_and_value h) k v ord"
proof -
  obtain v where v: "key_to_order_and_value h k = Some (v, ord)" using assms heap_ok_queue [OF assms(1), of ord k] by auto
  have "(ord, k) \<le> (o', k')" if "key_to_order_and_value h k' = Some (v', o')" for k' v' o'
  proof -
    have "(o', k') \<in> set (queue h)" using heap_ok_queue [OF assms(1), of o' k'] that by auto
    then show ?thesis using assms by (auto simp: heap_ok_def)
  qed
  then show ?thesis using v assms(2) by (auto simp: ah_peek_def ah_iter_def least_entry_def)
qed

lemma ah_peek_some:
  assumes "heap_ok h" "key_to_order_and_value h \<noteq> Map.empty"
  shows "\<exists>k v ord. ah_peek h = Some (Some (k, v, ord)) \<and> least_entry (key_to_order_and_value h) k v ord"
proof -
  obtain ord k q where "queue h = (ord, k) # q" using assms heap_ok_Nil [OF assms(1)] by (cases "queue h") auto
  then show ?thesis using ah_peek_Cons [OF assms(1)] by blast
qed

lemma ah_pop_some:
  assumes "heap_ok h" "ah_peek h = Some (Some (k, v, ord))"
  shows "\<exists>h'. ah_pop h = Some (h', Some (k, v, ord)) \<and> heap_ok h' \<and> key_to_order_and_value h' = (key_to_order_and_value h)(k := None)"
proof -
  obtain q where q: "queue h = (ord, k) # q"
    using assms by (cases "queue h") (auto simp: ah_peek_def ah_iter_def split: bind_splits)
  obtain v' where "ah_peek h = Some (Some (k, v', ord))" "least_entry (key_to_order_and_value h) k v' ord"
    using ah_peek_Cons [OF assms(1) q] by blast
  then have v: "key_to_order_and_value h k = Some (v, ord)" using assms(2) by (simp add: least_entry_def)
  show ?thesis using heap_ok_delete(2) [OF assms(1) v] v by (simp add: ah_pop_def q)
qed

interpretation ah: priority_map heap_ok key_to_order_and_value ah_new ah_insert ah_peek ah_pop ah_remove ah_update_order
proof unfold_locales
  show "heap_ok h \<Longrightarrow> key_to_order_and_value h = Map.empty \<Longrightarrow> ah_peek h = Some None" for h :: "('a, 'b, 'c) AddressableHeap"
    by (simp add: ah_peek_def ah_iter_def heap_ok_Nil [symmetric])
  show "heap_ok h \<Longrightarrow> key_to_order_and_value h = Map.empty \<Longrightarrow> ah_pop h = Some (h, None)" for h :: "('a, 'b, 'c) AddressableHeap"
    by (simp add: ah_pop_def heap_ok_Nil [symmetric])
qed (simp_all add: heap_ok_new heap_ok_new [unfolded ah_new_def] ah_new_def heap_ok_finite ah_insert_law ah_peek_some ah_pop_some ah_remove_law ah_update_law)


section \<open>Sequences of operations\<close>

datatype ('k, 'v, 'o) heap_op = HInsert 'k 'v 'o | HPeek | HPop | HIter | HGet 'k | HRemove 'k | HUpdateOrder 'k 'o | HIsEmpty

datatype ('k, 'v, 'o) heap_result =
  Entry "('v \<times> 'o) option" | Item "('k \<times> 'v \<times> 'o) option" | Items "('k \<times> 'v \<times> 'o) list" | Order "'o option" | Flag bool

fun heap_step :: "('k::linorder, 'v, 'o::linorder) AddressableHeap \<Rightarrow> ('k, 'v, 'o) heap_op \<Rightarrow>
    (('k, 'v, 'o) AddressableHeap \<times> ('k, 'v, 'o) heap_result) option" where
  "heap_step h (HInsert k v ord) = map_option (apsnd Entry) (ah_insert h k v ord)"
| "heap_step h HPeek = map_option (\<lambda>i. (h, Item i)) (ah_peek h)"
| "heap_step h HPop = map_option (apsnd Item) (ah_pop h)"
| "heap_step h HIter = map_option (\<lambda>is. (h, Items is)) (those (ah_iter h))"
| "heap_step h (HGet k) = Some (h, Entry (ah_get h k))"
| "heap_step h (HRemove k) = map_option (apsnd Entry) (ah_remove h k)"
| "heap_step h (HUpdateOrder k ord) = map_option (apsnd Order) (ah_update_order h k ord)"
| "heap_step h HIsEmpty = map_option (\<lambda>b. (h, Flag b)) (ah_is_empty h)"

fun heap_run :: "('k::linorder, 'v, 'o::linorder) AddressableHeap \<Rightarrow> ('k, 'v, 'o) heap_op list \<Rightarrow>
    (('k, 'v, 'o) AddressableHeap \<times> ('k, 'v, 'o) heap_result list) option" where
  "heap_run h [] = Some (h, [])"
| "heap_run h (x # xs) = do { (h, r) \<leftarrow> heap_step h x; (h, rs) \<leftarrow> heap_run h xs; Some (h, r # rs) }"

text \<open>The same operations on a map from keys to values and orders.\<close>

fun heap_spec :: "('k::linorder \<rightharpoonup> 'v \<times> 'o::linorder) \<Rightarrow> ('k, 'v, 'o) heap_op \<Rightarrow> ('k \<rightharpoonup> 'v \<times> 'o) \<Rightarrow> ('k, 'v, 'o) heap_result \<Rightarrow> bool" where
  "heap_spec m (HInsert k v ord) m' r \<longleftrightarrow> m' = m(k \<mapsto> (v, ord)) \<and> r = Entry (m k)"
| "heap_spec m HPeek m' r \<longleftrightarrow> m' = m \<and> (if m = Map.empty then r = Item None else \<exists>k v ord. least_entry m k v ord \<and> r = Item (Some (k, v, ord)))"
| "heap_spec m HPop m' r \<longleftrightarrow> (if m = Map.empty then m' = m \<and> r = Item None
     else \<exists>k v ord. least_entry m k v ord \<and> m' = m(k := None) \<and> r = Item (Some (k, v, ord)))"
| "heap_spec m HIter m' r \<longleftrightarrow> m' = m \<and> (\<exists>is. r = Items is \<and> set is = {(k, v, ord). m k = Some (v, ord)}
     \<and> sorted_wrt (\<lambda>(k, v, ord) (k', v', o'). (ord, k) < (o', k')) is)"
| "heap_spec m (HGet k) m' r \<longleftrightarrow> m' = m \<and> r = Entry (m k)"
| "heap_spec m (HRemove k) m' r \<longleftrightarrow> m' = m(k := None) \<and> r = Entry (m k)"
| "heap_spec m (HUpdateOrder k ord) m' r \<longleftrightarrow> m' = (case m k of None \<Rightarrow> m | Some (v, _) \<Rightarrow> m(k \<mapsto> (v, ord))) \<and> r = Order (map_option snd (m k))"
| "heap_spec m HIsEmpty m' r \<longleftrightarrow> m' = m \<and> r = Flag (m = Map.empty)"

fun heap_spec_run :: "('k::linorder \<rightharpoonup> 'v \<times> 'o::linorder) \<Rightarrow> ('k, 'v, 'o) heap_op list \<Rightarrow> ('k \<rightharpoonup> 'v \<times> 'o) \<Rightarrow> ('k, 'v, 'o) heap_result list \<Rightarrow> bool" where
  "heap_spec_run m [] m' rs \<longleftrightarrow> m' = m \<and> rs = []"
| "heap_spec_run m (x # xs) m' rs \<longleftrightarrow> (\<exists>m1 r rs'. heap_spec m x m1 r \<and> heap_spec_run m1 xs m' rs' \<and> rs = r # rs')"

lemma those_map_Some: "those (map f xs) = Some ys" if "list_all2 (\<lambda>x y. f x = Some y) xs ys"
  using that by (induction rule: list_all2_induct) auto

lemma ah_iter_exact:
  assumes "heap_ok h"
  shows "\<exists>is. those (ah_iter h) = Some is \<and> set is = {(k, v, ord). key_to_order_and_value h k = Some (v, ord)}
    \<and> sorted_wrt (\<lambda>(k, v, ord) (k', v', o'). (ord, k) < (o', k')) is"
proof -
  let ?m = "key_to_order_and_value h"
  define item where "item = (\<lambda>(ord, k). (k, fst (the (?m k)), ord :: 'c))"
  have item: "(case x of (ord, k) \<Rightarrow> ?m k \<bind> (\<lambda>(v, o2). assert_that (ord = o2) \<bind> (\<lambda>_. Some (k, v, ord)))) = Some (item x)"
    if "x \<in> set (queue h)" for x
  proof -
    obtain v where "?m (snd x) = Some (v, fst x)" using heap_ok_queue [OF assms, of "fst x" "snd x"] \<open>x \<in> set (queue h)\<close> by auto
    then show ?thesis by (simp add: item_def case_prod_beta)
  qed
  have "those (ah_iter h) = Some (map item (queue h))"
    unfolding ah_iter_def
    by (rule those_map_Some) (simp add: list.rel_map list.rel_refl_strong item)
  moreover have "set (map item (queue h)) = {(k, v, ord). ?m k = Some (v, ord)}"
    using heap_ok_queue [OF assms] by (auto simp: item_def image_iff) force+
  moreover have "sorted_wrt (<) (queue h)" using assms by (simp add: heap_ok_def strict_sorted_iff)
  then have "sorted_wrt (\<lambda>(k, v, ord) (k', v', o'). (ord, k) < (o', k')) (map item (queue h))"
    unfolding sorted_wrt_map by (rule sorted_wrt_mono_rel [rotated]) (auto simp: item_def case_prod_beta less_prod_def)
  ultimately show ?thesis by blast
qed

lemma heap_step_refines:
  assumes "heap_ok h"
  shows "\<exists>h' r. heap_step h x = Some (h', r) \<and> heap_ok h' \<and> heap_spec (key_to_order_and_value h) x (key_to_order_and_value h') r"
proof (cases x)
  case (HInsert k v ord)
  then show ?thesis using ah.insert_law [OF assms, of k v ord] by auto
next
  case HPeek
  then show ?thesis using assms ah.peek_none [OF assms] ah.peek_some [OF assms] by fastforce
next
  case HPop
  then show ?thesis using assms ah.pop_none [OF assms] ah.peek_some [OF assms] ah.pop_some [OF assms] by fastforce
next
  case HIter
  then show ?thesis using assms ah_iter_exact [OF assms] by auto
next
  case (HGet k)
  then show ?thesis using assms by (simp add: ah_get_def)
next
  case (HRemove k)
  then show ?thesis using ah.remove_law [OF assms, of k] by auto
next
  case (HUpdateOrder k ord)
  then show ?thesis using ah.update_law [OF assms, of k ord] by (auto split: option.splits)
next
  case HIsEmpty
  then show ?thesis using assms heap_ok_Nil [OF assms] by (simp add: ah_is_empty_def Let_def)
qed

lemma heap_run_refines_from:
  "heap_ok h \<Longrightarrow> \<exists>h' rs. heap_run h xs = Some (h', rs) \<and> heap_ok h'
    \<and> heap_spec_run (key_to_order_and_value h) xs (key_to_order_and_value h') rs"
proof (induction xs arbitrary: h)
  case (Cons x xs)
  obtain h1 r where 1: "heap_step h x = Some (h1, r)" "heap_ok h1"
      "heap_spec (key_to_order_and_value h) x (key_to_order_and_value h1) r"
    using heap_step_refines [OF Cons.prems] by blast
  obtain h' rs where 2: "heap_run h1 xs = Some (h', rs)" "heap_ok h'"
      "heap_spec_run (key_to_order_and_value h1) xs (key_to_order_and_value h') rs"
    using Cons.IH [OF 1(2)] by blast
  have "heap_run h (x # xs) = Some (h', r # rs)" using 1(1) 2(1) by simp
  moreover have "heap_spec_run (key_to_order_and_value h) (x # xs) (key_to_order_and_value h') (r # rs)"
    using 1(3) 2(3) by auto
  ultimately show ?case using 2(2) by blast
qed simp

text \<open>
  C9. Any sequence of operations on a fresh addressable heap runs without reaching an assertion that its two
  data structures are out of step, and gives the results of a plain map from keys to values and orders:
  the first element is always the one with the least order, the least key among equal orders, and the
  iterator lists all elements in this order.
\<close>

theorem heap_run_refines:
  "\<exists>h rs. heap_run ah_new xs = Some (h, rs) \<and> heap_spec_run Map.empty xs (key_to_order_and_value h) rs"
  using heap_run_refines_from [OF ah.new_ok(1), of xs] by (auto simp: ah.new_ok(2))

end
