(* ===== verification/Cache_Policy.thy ===== *)
theory Cache_Policy
  imports Addressable_Heap "HOL-Library.List_Lexorder" "HOL-Library.Char_ord"
begin

text \<open>
  The policy-driven cache of \<^verbatim>\<open>cache_system/src/backend/policy\<close>: change requests and the loop that performs
  them (\<^verbatim>\<open>mod.rs\<close>), the time-to-live policy (\<^verbatim>\<open>ttl.rs\<close>), the least-recently-used policy and its resource pool
  (\<^verbatim>\<open>lru.rs\<close>), removal by predicate (\<^verbatim>\<open>remove_if.rs\<close>), on the hash-map backend (\<^verbatim>\<open>hash_map.rs\<close>).

  A cached map is a partial function. A change request is a closure over the recording backend, so it is a
  function on it that may panic. The pool is shared by several caches through reference-counted pointers: it is
  passed along explicitly, with the use orders of its members in it. A resource size is a natural number below
  \<open>2 ^ 64\<close>, as its conversion into \<^verbatim>\<open>u64\<close> demands; addition beyond that and subtraction below zero panic, as they do in the
  implementations of \<^verbatim>\<open>Resource\<close>. Metrics and traces are left out.
\<close>

type_synonym Time = int
type_synonym Duration = nat

section \<open>Change requests\<close>

datatype ('k, 'v) Record = Record_Get 'k | Record_Set 'k 'v | Record_Remove 'k

record ('k, 'v) Recorder =
  rc_inner :: "'k \<rightharpoonup> 'v"
  rc_records :: "('k, 'v) Record list"

definition recorder_get_untracked :: "('k, 'v) Recorder \<Rightarrow> 'k \<Rightarrow> 'v option" where
  "recorder_get_untracked self k = rc_inner self k"

definition recorder_get :: "('k, 'v) Recorder \<Rightarrow> 'k \<Rightarrow> ('k, 'v) Recorder \<times> 'v option" where
  "recorder_get self k = (self\<lparr>rc_records := rc_records self @ [Record_Get k]\<rparr>, rc_inner self k)"

definition recorder_set :: "('k, 'v) Recorder \<Rightarrow> 'k \<Rightarrow> 'v \<Rightarrow> ('k, 'v) Recorder" where
  "recorder_set self k v = \<lparr>rc_inner = (rc_inner self)(k \<mapsto> v), rc_records = rc_records self @ [Record_Set k v]\<rparr>"

definition recorder_remove :: "('k, 'v) Recorder \<Rightarrow> 'k \<Rightarrow> ('k, 'v) Recorder" where
  "recorder_remove self k = \<lparr>rc_inner = (rc_inner self)(k := None), rc_records = rc_records self @ [Record_Remove k]\<rparr>"

definition recorder_is_empty :: "('k, 'v) Recorder \<Rightarrow> bool" where
  "recorder_is_empty self \<longleftrightarrow> rc_inner self = Map.empty"

type_synonym ('k, 'v) ChangeRequest = "('k, 'v) Recorder \<Rightarrow> ('k, 'v) Recorder option"

definition cr_get :: "'k \<Rightarrow> ('k, 'v) ChangeRequest" where
  "cr_get k = (\<lambda>backend. Some (fst (recorder_get backend k)))"

definition cr_set :: "'k \<Rightarrow> 'v \<Rightarrow> ('k, 'v) ChangeRequest" where
  "cr_set k v = (\<lambda>backend. Some (recorder_set backend k v))"

definition cr_remove :: "'k \<Rightarrow> ('k, 'v) ChangeRequest" where
  "cr_remove k = (\<lambda>backend. Some (recorder_remove backend k))"

definition cr_ensure_empty :: "('k, 'v) ChangeRequest" where
  "cr_ensure_empty = (\<lambda>backend. do { assert_that (recorder_is_empty backend); Some backend })"

section \<open>Time to live\<close>

text \<open>
  The provider of durations and the addition of a duration to a time, which gives no result on overflow of
  the calendar, are parameters of the policy.
\<close>

record ('k, 'v) TtlPolicy =
  ttl_provider :: "'k \<Rightarrow> 'v \<Rightarrow> Duration option"
  ttl_checked_add :: "Time \<Rightarrow> Duration \<Rightarrow> Time option"
  ttl_expiration :: "('k, unit, Time) AddressableHeap"

text \<open>The providers that come with the cache.\<close>

definition never_expires_in :: "'k \<Rightarrow> 'v \<Rightarrow> Duration option" where
  "never_expires_in k v = None"

definition constant_expires_in :: "Duration option \<Rightarrow> 'k \<Rightarrow> 'v \<Rightarrow> Duration option" where
  "constant_expires_in ttl k v = ttl"

definition optional_expires_in :: "Duration option \<Rightarrow> Duration option \<Rightarrow> 'k \<Rightarrow> 'v option \<Rightarrow> Duration option" where
  "optional_expires_in ttl_none ttl_some k v = (case v of None \<Rightarrow> ttl_none | Some _ \<Rightarrow> ttl_some)"

text \<open>The loop of \<^verbatim>\<open>evict_expired\<close>: the keys it pops.\<close>

function evict_loop :: "Time \<Rightarrow> ('k, unit, Time) AddressableHeap \<Rightarrow> (('k, unit, Time) AddressableHeap \<times> 'k list) option" where
  "evict_loop now h = (case ah_peek h of
      None \<Rightarrow> None
    | Some None \<Rightarrow> Some (h, [])
    | Some (Some (k, _, t)) \<Rightarrow>
        if t \<le> now
        then (case ah_pop h of
            Some (h, Some (k, _, _)) \<Rightarrow> map_option (apsnd ((#) k)) (evict_loop now h)
          | _ \<Rightarrow> None)
        else Some (h, []))"
  by pat_completeness auto
termination
  by (relation "measure (\<lambda>(_, h). length (queue h))")
    (auto simp: ah_pop_def split: prod.splits option.splits bind_splits elim!: btree_pop_first.elims)

declare evict_loop.simps [simp del]

definition evict_expired :: "Time \<Rightarrow> ('k, 'v) TtlPolicy \<Rightarrow> (('k, 'v) TtlPolicy \<times> ('k, 'v) ChangeRequest list) option" where
  "evict_expired now self = do {
     (h, ks) \<leftarrow> evict_loop now (ttl_expiration self);
     Some (self\<lparr>ttl_expiration := h\<rparr>, map cr_remove ks)
   }"

definition ttl_get :: "Time \<Rightarrow> ('k, 'v) TtlPolicy \<Rightarrow> 'k \<Rightarrow> (('k, 'v) TtlPolicy \<times> ('k, 'v) ChangeRequest list) option" where
  "ttl_get now self k = evict_expired now self"

definition ttl_set :: "Time \<Rightarrow> ('k::linorder, 'v) TtlPolicy \<Rightarrow> 'k \<Rightarrow> 'v \<Rightarrow> (('k, 'v) TtlPolicy \<times> ('k, 'v) ChangeRequest list) option" where
  "ttl_set now self k v = do {
     (self, requests) \<leftarrow> evict_expired now self;
     (case ttl_provider self k v of
        Some ttl \<Rightarrow> do {
          let requests = (if ttl = 0 then requests @ [cr_remove k] else requests);
          h \<leftarrow> (case ttl_checked_add self now ttl of
              Some t \<Rightarrow> map_option fst (ah_insert (ttl_expiration self) k () t)
            | None \<Rightarrow> map_option fst (ah_remove (ttl_expiration self) k));
          Some (self\<lparr>ttl_expiration := h\<rparr>, requests)
        }
      | None \<Rightarrow> do {
          (h, _) \<leftarrow> ah_remove (ttl_expiration self) k;
          Some (self\<lparr>ttl_expiration := h\<rparr>, requests)
        })
   }"

definition ttl_remove :: "Time \<Rightarrow> ('k::linorder, 'v) TtlPolicy \<Rightarrow> 'k \<Rightarrow> (('k, 'v) TtlPolicy \<times> ('k, 'v) ChangeRequest list) option" where
  "ttl_remove now self k = do {
     (h, _) \<leftarrow> ah_remove (ttl_expiration self) k;
     evict_expired now (self\<lparr>ttl_expiration := h\<rparr>)
   }"

section \<open>Least recently used\<close>

text \<open>
  The pool: its limit, the usage counted so far, the wake-up permit of the clean-up loop, and for
  each member the order in which its keys were last used with their sizes.
\<close>

record 'k ResourcePool =
  rp_limit :: nat
  rp_current :: nat
  rp_notify :: bool
  rp_members :: "(string \<times> ('k, nat, Time) AddressableHeap) list"

definition pool_new :: "nat \<Rightarrow> 'k ResourcePool" where
  "pool_new limit = \<lparr>rp_limit = limit, rp_current = 0, rp_notify = False, rp_members = []\<rparr>"

text \<open>Addition of resource sizes: \<^verbatim>\<open>checked_add(..).expect("overflow")\<close>.\<close>

definition resource_add :: "nat \<Rightarrow> nat \<Rightarrow> nat option" where
  "resource_add a b = (if a + b < 2 ^ 64 then Some (a + b) else None)"

definition pool_add :: "nat \<Rightarrow> 'k ResourcePool \<Rightarrow> 'k ResourcePool option" where
  "pool_add s pool = do {
     c \<leftarrow> resource_add (rp_current pool) s;
     let pool = pool\<lparr>rp_current := c\<rparr>;
     Some (if rp_current pool > rp_limit pool then pool\<lparr>rp_notify := True\<rparr> else pool)
   }"

definition pool_remove :: "nat \<Rightarrow> 'k ResourcePool \<Rightarrow> 'k ResourcePool option" where
  "pool_remove s pool = do { c \<leftarrow> checked_sub (rp_current pool) s; Some (pool\<lparr>rp_current := c\<rparr>) }"

definition register_member :: "string \<Rightarrow> ('k, nat, Time) AddressableHeap \<Rightarrow> 'k ResourcePool \<Rightarrow> 'k ResourcePool option" where
  "register_member i h pool = do {
     assert_that (i \<notin> fst ` set (rp_members pool));
     Some (pool\<lparr>rp_members := insort_key fst (i, h) (rp_members pool)\<rparr>)
   }"

text \<open>The use order a member shares with its pool.\<close>

definition pool_last_used :: "string \<Rightarrow> 'k ResourcePool \<Rightarrow> ('k, nat, Time) AddressableHeap option" where
  "pool_last_used i pool = map_of (rp_members pool) i"

definition pool_put_last_used :: "string \<Rightarrow> ('k, nat, Time) AddressableHeap \<Rightarrow> 'k ResourcePool \<Rightarrow> 'k ResourcePool" where
  "pool_put_last_used i h pool = pool\<lparr>rp_members := map (\<lambda>(j, h'). if j = i then (j, h) else (j, h')) (rp_members pool)\<rparr>"

record ('k, 'v) LruPolicy =
  lru_member :: string
  lru_resource_estimator :: "'k \<Rightarrow> 'v \<Rightarrow> nat"

definition lru_get :: "Time \<Rightarrow> ('k::linorder, 'v) LruPolicy \<Rightarrow> 'k \<Rightarrow> 'k ResourcePool \<Rightarrow> ('k ResourcePool \<times> ('k, 'v) ChangeRequest list) option" where
  "lru_get now self k pool = do {
     last_used \<leftarrow> pool_last_used (lru_member self) pool;
     (last_used, _) \<leftarrow> ah_update_order last_used k now;
     Some (pool_put_last_used (lru_member self) last_used pool, [])
   }"

definition lru_set :: "Time \<Rightarrow> ('k::linorder, 'v) LruPolicy \<Rightarrow> 'k \<Rightarrow> 'v \<Rightarrow> 'k ResourcePool \<Rightarrow> ('k ResourcePool \<times> ('k, 'v) ChangeRequest list) option" where
  "lru_set now self k v pool =
     (let consumption = lru_resource_estimator self k v
      in if consumption > rp_limit pool then Some (pool, [cr_remove k])
         else do {
           last_used \<leftarrow> pool_last_used (lru_member self) pool;
           (last_used, old) \<leftarrow> ah_remove last_used k;
           (pool, last_used_t) \<leftarrow> (case old of
               Some (c, t) \<Rightarrow> map_option (\<lambda>p. (p, t)) (pool_remove c pool)
             | None \<Rightarrow> Some (pool, now));
           (last_used, _) \<leftarrow> ah_insert last_used k consumption last_used_t;
           pool \<leftarrow> pool_add consumption (pool_put_last_used (lru_member self) last_used pool);
           Some (pool, [])
         })"

definition lru_remove :: "Time \<Rightarrow> ('k::linorder, 'v) LruPolicy \<Rightarrow> 'k \<Rightarrow> 'k ResourcePool \<Rightarrow> ('k ResourcePool \<times> ('k, 'v) ChangeRequest list) option" where
  "lru_remove now self k pool = do {
     last_used \<leftarrow> pool_last_used (lru_member self) pool;
     (last_used, old) \<leftarrow> ah_remove last_used k;
     pool \<leftarrow> (case old of Some (c, _) \<Rightarrow> pool_remove c pool | None \<Rightarrow> Some pool);
     Some (pool_put_last_used (lru_member self) last_used pool, [])
   }"

section \<open>The backend\<close>

datatype ('k, 'v) Subscriber = Ttl "('k, 'v) TtlPolicy" | Lru "('k, 'v) LruPolicy" | RemoveIf

record ('k, 'v) PolicyBackend =
  pb_inner :: "'k \<rightharpoonup> 'v"
  pb_subscribers :: "('k, 'v) Subscriber list"

text \<open>What one subscriber does about one record.\<close>

fun subscriber_notify :: "Time \<Rightarrow> ('k::linorder, 'v) Record \<Rightarrow> 'k ResourcePool \<Rightarrow> ('k, 'v) Subscriber \<Rightarrow>
    ('k ResourcePool \<times> ('k, 'v) Subscriber \<times> ('k, 'v) ChangeRequest list) option" where
  "subscriber_notify now (Record_Get k) pool (Ttl p) = map_option (\<lambda>(p, rs). (pool, Ttl p, rs)) (ttl_get now p k)"
| "subscriber_notify now (Record_Set k v) pool (Ttl p) = map_option (\<lambda>(p, rs). (pool, Ttl p, rs)) (ttl_set now p k v)"
| "subscriber_notify now (Record_Remove k) pool (Ttl p) = map_option (\<lambda>(p, rs). (pool, Ttl p, rs)) (ttl_remove now p k)"
| "subscriber_notify now (Record_Get k) pool (Lru p) = map_option (\<lambda>(pool, rs). (pool, Lru p, rs)) (lru_get now p k pool)"
| "subscriber_notify now (Record_Set k v) pool (Lru p) = map_option (\<lambda>(pool, rs). (pool, Lru p, rs)) (lru_set now p k v pool)"
| "subscriber_notify now (Record_Remove k) pool (Lru p) = map_option (\<lambda>(pool, rs). (pool, Lru p, rs)) (lru_remove now p k pool)"
| "subscriber_notify now r pool RemoveIf = Some (pool, RemoveIf, [])"

fun notify_subscribers :: "Time \<Rightarrow> ('k::linorder, 'v) Record \<Rightarrow> 'k ResourcePool \<Rightarrow> ('k, 'v) Subscriber list \<Rightarrow>
    ('k ResourcePool \<times> ('k, 'v) Subscriber list \<times> ('k, 'v) ChangeRequest list) option" where
  "notify_subscribers now r pool [] = Some (pool, [], [])"
| "notify_subscribers now r pool (s # ss) = do {
     (pool, s, rs1) \<leftarrow> subscriber_notify now r pool s;
     (pool, ss, rs2) \<leftarrow> notify_subscribers now r pool ss;
     Some (pool, s # ss, rs1 @ rs2)
   }"

fun notify_records :: "Time \<Rightarrow> ('k::linorder, 'v) Record list \<Rightarrow> 'k ResourcePool \<Rightarrow> ('k, 'v) Subscriber list \<Rightarrow>
    ('k ResourcePool \<times> ('k, 'v) Subscriber list \<times> ('k, 'v) ChangeRequest list) option" where
  "notify_records now [] pool ss = Some (pool, ss, [])"
| "notify_records now (r # rs) pool ss = do {
     (pool, ss, tasks1) \<leftarrow> notify_subscribers now r pool ss;
     (pool, ss, tasks2) \<leftarrow> notify_records now rs pool ss;
     Some (pool, ss, tasks1 @ tasks2)
   }"

text \<open>
  The loop that performs changes breadth first. Nothing bounds the requests policies may ask for, so that
  the loop is a partial function; a run that panics or does not end has no result.
\<close>

partial_function (option) perform_changes :: "Time \<Rightarrow> 'k::linorder ResourcePool \<Rightarrow> ('k, 'v) PolicyBackend \<Rightarrow>
    ('k, 'v) ChangeRequest list \<Rightarrow> ('k ResourcePool \<times> ('k, 'v) PolicyBackend) option" where
  "perform_changes now pool inner tasks = (case tasks of
      [] \<Rightarrow> Some (pool, inner)
    | change_request # tasks \<Rightarrow> do {
        recorder \<leftarrow> change_request \<lparr>rc_inner = pb_inner inner, rc_records = []\<rparr>;
        (pool, subscribers, requests) \<leftarrow> notify_records now (rc_records recorder) pool (pb_subscribers inner);
        perform_changes now pool \<lparr>pb_inner = rc_inner recorder, pb_subscribers = subscribers\<rparr> (tasks @ requests)
      })"

declare perform_changes.simps [code]

definition backend_new :: "('k, 'v) PolicyBackend" where
  "backend_new = \<lparr>pb_inner = Map.empty, pb_subscribers = []\<rparr>"

definition backend_get :: "Time \<Rightarrow> 'k::linorder ResourcePool \<Rightarrow> ('k, 'v) PolicyBackend \<Rightarrow> 'k \<Rightarrow>
    ('k ResourcePool \<times> ('k, 'v) PolicyBackend \<times> 'v option) option" where
  "backend_get now pool self k = do {
     (pool, self) \<leftarrow> perform_changes now pool self [cr_get k];
     Some (pool, self, pb_inner self k)
   }"

definition backend_set :: "Time \<Rightarrow> 'k::linorder ResourcePool \<Rightarrow> ('k, 'v) PolicyBackend \<Rightarrow> 'k \<Rightarrow> 'v \<Rightarrow>
    ('k ResourcePool \<times> ('k, 'v) PolicyBackend) option" where
  "backend_set now pool self k v = perform_changes now pool self [cr_set k v]"

definition backend_remove :: "Time \<Rightarrow> 'k::linorder ResourcePool \<Rightarrow> ('k, 'v) PolicyBackend \<Rightarrow> 'k \<Rightarrow>
    ('k ResourcePool \<times> ('k, 'v) PolicyBackend) option" where
  "backend_remove now pool self k = perform_changes now pool self [cr_remove k]"

definition backend_is_empty :: "('k, 'v) PolicyBackend \<Rightarrow> bool" where
  "backend_is_empty self \<longleftrightarrow> pb_inner self = Map.empty"

definition add_ttl_policy :: "Time \<Rightarrow> ('k::linorder \<Rightarrow> 'v \<Rightarrow> Duration option) \<Rightarrow> (Time \<Rightarrow> Duration \<Rightarrow> Time option) \<Rightarrow>
    'k ResourcePool \<Rightarrow> ('k, 'v) PolicyBackend \<Rightarrow> ('k ResourcePool \<times> ('k, 'v) PolicyBackend) option" where
  "add_ttl_policy now provider checked_add pool self = do {
     (pool, self) \<leftarrow> perform_changes now pool self [cr_ensure_empty];
     Some (pool, self\<lparr>pb_subscribers := pb_subscribers self @
       [Ttl \<lparr>ttl_provider = provider, ttl_checked_add = checked_add, ttl_expiration = ah_new\<rparr>]\<rparr>)
   }"

definition add_lru_policy :: "Time \<Rightarrow> string \<Rightarrow> ('k::linorder \<Rightarrow> 'v \<Rightarrow> nat) \<Rightarrow> 'k ResourcePool \<Rightarrow> ('k, 'v) PolicyBackend \<Rightarrow>
    ('k ResourcePool \<times> ('k, 'v) PolicyBackend) option" where
  "add_lru_policy now i estimator pool self = do {
     (pool, self) \<leftarrow> perform_changes now pool self [cr_ensure_empty];
     pool \<leftarrow> register_member i ah_new pool;
     Some (pool, self\<lparr>pb_subscribers := pb_subscribers self @ [Lru \<lparr>lru_member = i, lru_resource_estimator = estimator\<rparr>]\<rparr>)
   }"

definition add_remove_if_policy :: "('k, 'v) PolicyBackend \<Rightarrow> ('k, 'v) PolicyBackend" where
  "add_remove_if_policy self = self\<lparr>pb_subscribers := pb_subscribers self @ [RemoveIf]\<rparr>"

section \<open>Removal by predicate and by the pool\<close>

definition cr_remove_if :: "'k \<Rightarrow> ('v \<Rightarrow> bool) \<Rightarrow> ('k, 'v) ChangeRequest" where
  "cr_remove_if k predicate = (\<lambda>backend. Some (case recorder_get_untracked backend k of
      Some v \<Rightarrow> if predicate v then recorder_remove backend k else backend
    | None \<Rightarrow> backend))"

text \<open>The closure sees the cache as it is when the call gets the lock; it reports whether it has removed.\<close>

definition remove_if :: "Time \<Rightarrow> 'k::linorder ResourcePool \<Rightarrow> ('k, 'v) PolicyBackend \<Rightarrow> 'k \<Rightarrow> ('v \<Rightarrow> bool) \<Rightarrow>
    ('k ResourcePool \<times> ('k, 'v) PolicyBackend \<times> bool) option" where
  "remove_if now pool self k predicate = do {
     let removed = (case pb_inner self k of Some v \<Rightarrow> predicate v | None \<Rightarrow> False);
     (pool, self) \<leftarrow> perform_changes now pool self [cr_remove_if k predicate];
     Some (pool, self, removed)
   }"

definition cr_remove_keys :: "'k list \<Rightarrow> ('k, 'v) ChangeRequest" where
  "cr_remove_keys ks = (\<lambda>backend. Some (foldl recorder_remove backend ks))"

definition member_remove_keys :: "Time \<Rightarrow> 'k::linorder ResourcePool \<Rightarrow> ('k, 'v) PolicyBackend \<Rightarrow> 'k list \<Rightarrow>
    ('k ResourcePool \<times> ('k, 'v) PolicyBackend) option" where
  "member_remove_keys now pool self ks = perform_changes now pool self [cr_remove_keys ks]"

end
