(* ===== verification/Cache_Facts.thy ===== *)
theory Cache_Facts
  imports Cache_Policy
begin

text \<open>
  Invariants of the policy-driven cache: what every policy keeps true of the cached map after each record, that
  the loop over change requests ends without a panic, and what the time-to-live policy makes of a cache.
\<close>

section \<open>Records\<close>

fun apply_record :: "('k, 'v) Record \<Rightarrow> ('k \<rightharpoonup> 'v) \<Rightarrow> ('k \<rightharpoonup> 'v)" where
  "apply_record (Record_Get k) m = m"
| "apply_record (Record_Set k v) m = m(k \<mapsto> v)"
| "apply_record (Record_Remove k) m = m(k := None)"

definition apply_records :: "('k, 'v) Record list \<Rightarrow> ('k \<rightharpoonup> 'v) \<Rightarrow> ('k \<rightharpoonup> 'v)" where
  "apply_records rs m = fold apply_record rs m"

lemma apply_records_simps [simp]:
  "apply_records [] m = m" "apply_records (r # rs) m = apply_records rs (apply_record r m)"
  "apply_records (rs @ rs') m = apply_records rs' (apply_records rs m)"
  by (simp_all add: apply_records_def)

lemma foldl_recorder_remove:
  "foldl recorder_remove b ks = \<lparr>rc_inner = apply_records (map Record_Remove ks) (rc_inner b),
     rc_records = rc_records b @ map Record_Remove ks\<rparr>"
  by (induction ks arbitrary: b) (simp_all add: recorder_remove_def)

section \<open>The pool\<close>

text \<open>What the keys of a member use together.\<close>

definition heap_usage :: "('k, nat, Time) AddressableHeap \<Rightarrow> nat" where
  "heap_usage h = (\<Sum>k \<in> dom (key_to_order_and_value h). fst (the (key_to_order_and_value h k)))"

definition pool_ok :: "'k::linorder ResourcePool \<Rightarrow> bool" where
  "pool_ok pool \<longleftrightarrow> distinct (map fst (rp_members pool)) \<and> rp_current pool < 2 ^ 64
     \<and> (\<forall>(i, h) \<in> set (rp_members pool). heap_ok h \<and> (\<forall>k c t. key_to_order_and_value h k = Some (c, t) \<longrightarrow> c \<le> rp_limit pool))
     \<and> rp_current pool = sum_list (map (heap_usage \<circ> snd) (rp_members pool))"

lemma pool_ok_current: "pool_ok pool \<Longrightarrow> rp_current pool < 2 ^ 64"
  by (simp add: pool_ok_def)

text \<open>Usage above the limit is announced to the clean-up loop.\<close>

definition pool_announced :: "'k ResourcePool \<Rightarrow> bool" where
  "pool_announced pool \<longleftrightarrow> (rp_current pool > rp_limit pool \<longrightarrow> rp_notify pool)"

definition pool_frame :: "string set \<Rightarrow> 'k ResourcePool \<Rightarrow> 'k ResourcePool \<Rightarrow> bool" where
  "pool_frame ids pool pool' \<longleftrightarrow> rp_limit pool' = rp_limit pool \<and> map fst (rp_members pool') = map fst (rp_members pool)
     \<and> (\<forall>i. i \<notin> ids \<longrightarrow> pool_last_used i pool' = pool_last_used i pool) \<and> (pool_announced pool \<longrightarrow> pool_announced pool')"

lemma pool_frame_refl [simp]: "pool_frame ids pool pool"
  by (simp add: pool_frame_def)

lemma pool_frame_trans: "pool_frame a p q \<Longrightarrow> pool_frame b q r \<Longrightarrow> pool_frame (a \<union> b) p r"
  by (simp add: pool_frame_def)

lemma sum_dom_fun_upd:
  assumes "finite (dom m)" "m k = Some x"
  shows "(\<Sum>j \<in> dom (m(k := None)). f (the ((m(k := None)) j))) + f x = (\<Sum>j \<in> dom m. f (the (m j)) :: nat)"
proof -
  have "(\<Sum>j \<in> dom m. f (the (m j))) = f (the (m k)) + (\<Sum>j \<in> dom m - {k}. f (the (m j)))"
    using assms by (intro sum.remove) auto
  moreover have "(\<Sum>j \<in> dom (m(k := None)). f (the ((m(k := None)) j))) = (\<Sum>j \<in> dom m - {k}. f (the (m j)))"
    by (rule sum.cong) (auto split: if_splits)
  ultimately show ?thesis using assms by simp
qed

lemma heap_usage_remove:
  assumes "heap_ok h" "key_to_order_and_value h k = Some (c, t)" "key_to_order_and_value h' = (key_to_order_and_value h)(k := None)"
  shows "heap_usage h' + c = heap_usage h"
  using sum_dom_fun_upd [OF heap_ok_finite [OF assms(1)] assms(2), of fst] by (simp add: heap_usage_def assms(3))

lemma heap_usage_drop:
  assumes "heap_ok h" "key_to_order_and_value h' = (key_to_order_and_value h)(k := None)"
  shows "heap_usage h' + (case key_to_order_and_value h k of None \<Rightarrow> 0 | Some (c, _) \<Rightarrow> c) = heap_usage h"
proof (cases "key_to_order_and_value h k")
  case None
  then have "key_to_order_and_value h' = key_to_order_and_value h" using assms(2) by (simp add: fun_upd_idem)
  then show ?thesis using None by (simp add: heap_usage_def)
next
  case (Some e)
  then show ?thesis using heap_usage_remove [OF assms(1) _ assms(2), of "fst e" "snd e"] by (simp add: case_prod_beta)
qed

lemma heap_usage_insert:
  assumes "heap_ok h" "key_to_order_and_value h k = None" "key_to_order_and_value h' = (key_to_order_and_value h)(k \<mapsto> (c, t))"
  shows "heap_usage h' = heap_usage h + c"
proof -
  have "(\<Sum>j \<in> dom (key_to_order_and_value h). fst (the (if j = k then Some (c, t) else key_to_order_and_value h j))) = heap_usage h"
    unfolding heap_usage_def by (rule sum.cong) (use assms(2) in auto)
  then show ?thesis using heap_ok_finite [OF assms(1)] assms(2) by (simp add: heap_usage_def assms(3) domIff)
qed

lemma heap_usage_order:
  assumes "key_to_order_and_value h k = Some (c, t)" "key_to_order_and_value h' = (key_to_order_and_value h)(k \<mapsto> (c, t'))"
  shows "heap_usage h' = heap_usage h"
proof -
  have "insert k (dom (key_to_order_and_value h)) = dom (key_to_order_and_value h)" using assms(1) by auto
  then show ?thesis unfolding heap_usage_def assms(2) by (intro sum.cong) (use assms(1) in auto)
qed

lemma last_used_put [simp]:
  "pool_last_used i (pool_put_last_used j h pool) = (if i = j then map_option (\<lambda>_. h) (pool_last_used i pool) else pool_last_used i pool)"
proof -
  have "map_of (map (\<lambda>(a, h'). if a = j then (a, h) else (a, h')) xs) i = (if i = j then map_option (\<lambda>_. h) (map_of xs i) else map_of xs i)"
    for xs :: "(string \<times> ('a, nat, Time) AddressableHeap) list" by (induction xs) auto
  then show ?thesis by (simp add: pool_last_used_def pool_put_last_used_def)
qed

lemma put_last_used_ids [simp]: "map fst (rp_members (pool_put_last_used i h pool)) = map fst (rp_members pool)"
  by (simp add: pool_put_last_used_def comp_def case_prod_beta if_distrib)

lemma sum_list_put:
  assumes "distinct (map fst xs)" "map_of xs i = Some h0"
  shows "sum_list (map (f \<circ> snd) (map (\<lambda>(a, h'). if a = i then (a, h) else (a, h')) xs)) + f h0 = sum_list (map (f \<circ> snd) xs) + (f h :: nat)"
  using assms
proof (induction xs)
  case (Cons x xs)
  obtain a b where x: "x = (a, b)" by (cases x)
  show ?case
  proof (cases "a = i")
    case True
    then have "map (\<lambda>(a, h'). if a = i then (a, h) else (a, h')) xs = xs" using Cons.prems(1) x by (intro map_idI) force
    then show ?thesis using True Cons.prems(2) x by simp
  next
    case False
    then show ?thesis using Cons x by simp
  qed
qed simp

text \<open>Replacing the use order of one member by one that is in order and whose usage has been accounted for.\<close>

lemma pool_ok_put:
  assumes "pool_ok pool" "pool_last_used i pool = Some h" "heap_ok h'"
    and "\<And>k c t. key_to_order_and_value h' k = Some (c, t) \<Longrightarrow> c \<le> rp_limit pool"
    and "c + heap_usage h = rp_current pool + heap_usage h'" "c < 2 ^ 64"
  shows "pool_ok ((pool_put_last_used i h' pool)\<lparr>rp_current := c\<rparr>)"
proof -
  have d: "distinct (map fst (rp_members pool))" and cur: "rp_current pool = sum_list (map (heap_usage \<circ> snd) (rp_members pool))"
    using assms(1) by (simp_all add: pool_ok_def)
  have "sum_list (map (heap_usage \<circ> snd) (rp_members (pool_put_last_used i h' pool))) + heap_usage h = rp_current pool + heap_usage h'"
    using sum_list_put [OF d assms(2) [unfolded pool_last_used_def], of heap_usage h'] by (simp add: pool_put_last_used_def cur)
  moreover have "distinct (map fst (rp_members (pool_put_last_used i h' pool)))" using d by simp
  moreover have "\<forall>(j, g) \<in> set (rp_members (pool_put_last_used i h' pool)). heap_ok g
      \<and> (\<forall>k c t. key_to_order_and_value g k = Some (c, t) \<longrightarrow> c \<le> rp_limit pool)"
    using assms(1,3,4) by (fastforce simp: pool_ok_def pool_put_last_used_def split: if_splits)
  ultimately show ?thesis using assms(5,6) by (simp add: pool_ok_def pool_put_last_used_def)
qed

lemma pool_ok_member:
  assumes "pool_ok pool" "pool_last_used i pool = Some h"
  shows "heap_ok h" "key_to_order_and_value h k = Some (c, t) \<Longrightarrow> c \<le> rp_limit pool" "heap_usage h \<le> rp_current pool"
proof -
  have m: "(i, h) \<in> set (rp_members pool)" using assms(2) by (simp add: pool_last_used_def map_of_SomeD)
  then show "heap_ok h" "key_to_order_and_value h k = Some (c, t) \<Longrightarrow> c \<le> rp_limit pool"
    using assms(1) by (fastforce simp: pool_ok_def)+
  have "heap_usage h \<in> set (map (heap_usage \<circ> snd) (rp_members pool))" using m by force
  then show "heap_usage h \<le> rp_current pool" using assms(1) member_le_sum_list by (fastforce simp: pool_ok_def)
qed


section \<open>Policies follow the cached map\<close>

text \<open>
  Each policy tracks the keys of the cached map, except for those it has asked to be removed (\<open>pend\<close>).
\<close>

fun sub_ids :: "('k, 'v) Subscriber \<Rightarrow> string set" where
  "sub_ids (Lru p) = {lru_member p}"
| "sub_ids _ = {}"

fun ttl_count :: "('k, 'v) Subscriber \<Rightarrow> nat" where
  "ttl_count (Ttl p) = card (dom (key_to_order_and_value (ttl_expiration p)))"
| "ttl_count _ = 0"

fun sub_sync :: "'k::linorder ResourcePool \<Rightarrow> ('k \<rightharpoonup> 'v) \<Rightarrow> 'k set \<Rightarrow> ('k, 'v) Subscriber \<Rightarrow> bool" where
  "sub_sync pool m pend (Ttl p) \<longleftrightarrow> heap_ok (ttl_expiration p) \<and> dom (key_to_order_and_value (ttl_expiration p)) \<subseteq> dom m"
| "sub_sync pool m pend (Lru p) \<longleftrightarrow> (\<exists>h. pool_last_used (lru_member p) pool = Some h
     \<and> dom (key_to_order_and_value h) \<subseteq> dom m
     \<and> (\<forall>k v. m k = Some v \<longrightarrow> k \<notin> pend \<longrightarrow> (\<exists>t. key_to_order_and_value h k = Some (lru_resource_estimator p k v, t))))"
| "sub_sync pool m pend RemoveIf \<longleftrightarrow> True"

definition subs_sync :: "'k::linorder ResourcePool \<Rightarrow> ('k \<rightharpoonup> 'v) \<Rightarrow> 'k set \<Rightarrow> ('k, 'v) Subscriber list \<Rightarrow> bool" where
  "subs_sync pool m pend ss \<longleftrightarrow> (\<forall>s \<in> set ss. sub_sync pool m pend s)"

lemma sub_sync_mono: "sub_sync pool m pend s \<Longrightarrow> pend \<inter> dom m \<subseteq> pend' \<Longrightarrow> sub_sync pool m pend' s"
  by (cases s) (force simp: domIff)+

lemma sub_sync_frame: "sub_sync pool m pend s \<Longrightarrow> pool_frame ids pool pool' \<Longrightarrow> ids \<inter> sub_ids s = {} \<Longrightarrow> sub_sync pool' m pend s"
  by (cases s) (auto simp: pool_frame_def)

lemma evict_loop_exact:
  assumes "heap_ok h"
  shows "\<exists>h' ks. evict_loop now h = Some (h', ks) \<and> heap_ok h' \<and> distinct ks
    \<and> set ks = {k. \<exists>t. key_to_order_and_value h k = Some ((), t) \<and> t \<le> now}
    \<and> key_to_order_and_value h' = (key_to_order_and_value h) |` (- set ks)"
proof -
  have "evict_loop now h = do {
      top \<leftarrow> ah_peek h;
      (case top of
         Some (k, v, ord) \<Rightarrow> if ord \<le> now then do {
             (h, item) \<leftarrow> ah_pop h;
             (k, _, _) \<leftarrow> item;
             (h, ks) \<leftarrow> evict_loop now h;
             Some (h, k # ks)
           } else Some (h, [])
       | None \<Rightarrow> Some (h, []))
    }" for h :: "('a, unit, Time) AddressableHeap"
    by (subst evict_loop.simps) (auto split: option.splits prod.splits bind_splits)
  from ah.drain_exact [OF this assms] show ?thesis by simp
qed

lemma ttl_count_evict:
  assumes "heap_ok h" "key_to_order_and_value h' = (key_to_order_and_value h) |` (- set ks)" "distinct ks"
    "set ks \<subseteq> dom (key_to_order_and_value h)"
  shows "card (dom (key_to_order_and_value h')) + length ks = card (dom (key_to_order_and_value h))"
proof -
  have "dom (key_to_order_and_value h') = dom (key_to_order_and_value h) - set ks" using assms(2) by auto
  then show ?thesis
    using card_Diff_subset [OF _ assms(4)] card_mono [OF heap_ok_finite [OF assms(1)] assms(4)] distinct_card [OF assms(3)] by simp
qed

lemma evict_expired_exact:
  assumes "heap_ok (ttl_expiration p)"
  shows "\<exists>h ks. evict_expired now p = Some (p\<lparr>ttl_expiration := h\<rparr>, map cr_remove ks) \<and> heap_ok h \<and> distinct ks
    \<and> set ks = {k. \<exists>t. key_to_order_and_value (ttl_expiration p) k = Some ((), t) \<and> t \<le> now}
    \<and> key_to_order_and_value h = (key_to_order_and_value (ttl_expiration p)) |` (- set ks)
    \<and> card (dom (key_to_order_and_value h)) + length ks = card (dom (key_to_order_and_value (ttl_expiration p)))"
proof -
  obtain h ks where h: "evict_loop now (ttl_expiration p) = Some (h, ks)" "heap_ok h" "distinct ks"
      "set ks = {k. \<exists>t. key_to_order_and_value (ttl_expiration p) k = Some ((), t) \<and> t \<le> now}"
      "key_to_order_and_value h = (key_to_order_and_value (ttl_expiration p)) |` (- set ks)"
    using evict_loop_exact [OF assms] by blast
  have "card (dom (key_to_order_and_value h)) + length ks = card (dom (key_to_order_and_value (ttl_expiration p)))"
    by (rule ttl_count_evict [OF assms h(5,3)]) (auto simp: h(4))
  then show ?thesis using h by (intro exI [of _ h] exI [of _ ks]) (simp add: evict_expired_def)
qed


text \<open>What a record adds to the usage of the pool at most: only least-recently-used policies count, and only what fits.\<close>

fun record_need :: "nat \<Rightarrow> ('k, 'v) Record \<Rightarrow> ('k, 'v) Subscriber \<Rightarrow> nat" where
  "record_need limit (Record_Set k v) (Lru p) = (let s = lru_resource_estimator p k v in if s > limit then 0 else s)"
| "record_need limit _ _ = 0"

definition records_need :: "nat \<Rightarrow> ('k, 'v) Record list \<Rightarrow> ('k, 'v) Subscriber list \<Rightarrow> nat" where
  "records_need limit rs ss = (\<Sum>r \<leftarrow> rs. \<Sum>s \<leftarrow> ss. record_need limit r s)"

lemma record_need_other [simp]: "record_need limit r (Ttl p) = 0" "record_need limit r RemoveIf = 0"
  by (cases r; simp)+

lemma records_need_zero [simp]:
  "records_need limit [] ss = 0" "records_need limit [Record_Get k] ss = 0" "records_need limit [Record_Remove k] ss = 0"
  "records_need limit (map Record_Remove ks) ss = 0"
proof -
  have "record_need limit (Record_Get k) s = 0" "record_need limit (Record_Remove k) s = 0" for k s by (cases s; simp)+
  then show "records_need limit [] ss = 0" "records_need limit [Record_Get k] ss = 0" "records_need limit [Record_Remove k] ss = 0"
      "records_need limit (map Record_Remove ks) ss = 0"
    by (simp_all add: records_need_def comp_def)
qed

text \<open>One subscriber has dealt with one record, asking for the keys \<open>es\<close> to be removed.\<close>

definition follows :: "Time \<Rightarrow> ('k::linorder, 'v) Record \<Rightarrow> 'k ResourcePool \<Rightarrow> ('k \<rightharpoonup> 'v) \<Rightarrow> 'k set \<Rightarrow> ('k, 'v) Subscriber \<Rightarrow>
    'k ResourcePool \<Rightarrow> ('k, 'v) Subscriber \<Rightarrow> 'k list \<Rightarrow> bool" where
  "follows now r pool m pend s pool' s' es \<longleftrightarrow> subscriber_notify now r pool s = Some (pool', s', map cr_remove es)
     \<and> pool_ok pool' \<and> sub_sync pool' (apply_record r m) (pend \<union> set es) s' \<and> pool_frame (sub_ids s) pool pool'
     \<and> sub_ids s' = sub_ids s \<and> rp_current pool' \<le> rp_current pool + record_need (rp_limit pool) r s
     \<and> (\<forall>limit r. record_need limit r s' = record_need limit r s) \<and> (\<forall>k. r = Record_Remove k \<longrightarrow> ttl_count s' + length es \<le> ttl_count s)"

lemma ttl_get_follows:
  assumes "pool_ok pool" "sub_sync pool m pend (Ttl p)"
  shows "\<exists>p' es. follows now (Record_Get k) pool m pend (Ttl p) pool (Ttl p') es"
proof -
  obtain h ks where "evict_expired now p = Some (p\<lparr>ttl_expiration := h\<rparr>, map cr_remove ks)" "heap_ok h"
      "key_to_order_and_value h = (key_to_order_and_value (ttl_expiration p)) |` (- set ks)"
    using evict_expired_exact [of p now] assms(2) by auto
  then show ?thesis
    using assms by (intro exI [of _ "p\<lparr>ttl_expiration := h\<rparr>"] exI [of _ ks]) (auto simp: follows_def ttl_get_def)
qed

lemma ttl_remove_follows:
  assumes "pool_ok pool" "sub_sync pool m pend (Ttl p)"
  shows "\<exists>p' es. follows now (Record_Remove k) pool m pend (Ttl p) pool (Ttl p') es"
proof -
  let ?m = "key_to_order_and_value (ttl_expiration p)"
  have ok: "heap_ok (ttl_expiration p)" and dom: "dom ?m \<subseteq> dom m" using assms(2) by simp_all
  obtain h where h: "ah_remove (ttl_expiration p) k = Some (h, ?m k)" "heap_ok h" "key_to_order_and_value h = ?m(k := None)"
    using ah.remove_law [OF ok] by blast
  obtain h' ks where e: "evict_expired now (p\<lparr>ttl_expiration := h\<rparr>) = Some (p\<lparr>ttl_expiration := h'\<rparr>, map cr_remove ks)" "heap_ok h'"
      "key_to_order_and_value h' = (key_to_order_and_value h) |` (- set ks)"
      "card (dom (key_to_order_and_value h')) + length ks = card (dom (key_to_order_and_value h))"
    using evict_expired_exact [of "p\<lparr>ttl_expiration := h\<rparr>" now] h(2) by auto
  have "card (dom (key_to_order_and_value h)) \<le> card (dom ?m)"
    by (rule card_mono) (use heap_ok_finite [OF ok] h(3) in auto)
  then show ?thesis
    using assms h e dom
    by (intro exI [of _ "p\<lparr>ttl_expiration := h'\<rparr>"] exI [of _ ks])
      (auto simp: follows_def ttl_remove_def domIff split: if_splits)
qed

lemma ttl_set_follows:
  assumes "pool_ok pool" "sub_sync pool m pend (Ttl p)"
  shows "\<exists>p' es. follows now (Record_Set k v) pool m pend (Ttl p) pool (Ttl p') es"
proof -
  let ?m = "key_to_order_and_value (ttl_expiration p)"
  have dom: "dom ?m \<subseteq> dom m" using assms(2) by simp
  obtain h ks where e: "evict_expired now p = Some (p\<lparr>ttl_expiration := h\<rparr>, map cr_remove ks)" "heap_ok h"
      "key_to_order_and_value h = ?m |` (- set ks)"
    using evict_expired_exact [of p now] assms(2) by auto
  have dom': "dom (key_to_order_and_value h) \<subseteq> dom m" using dom e(3) by auto
  obtain h1 where h1: "ah_remove h k = Some (h1, key_to_order_and_value h k)" "heap_ok h1"
      "key_to_order_and_value h1 = (key_to_order_and_value h)(k := None)"
    using ah.remove_law [OF e(2)] by blast
  have "\<exists>h2. ah_insert h k () t = Some (h2, key_to_order_and_value h k) \<and> heap_ok h2
      \<and> key_to_order_and_value h2 = (key_to_order_and_value h)(k \<mapsto> ((), t))" for t
    using ah.insert_law [OF e(2)] by blast
  then obtain h2 where h2: "\<And>t. ah_insert h k () t = Some (h2 t, key_to_order_and_value h k)" "\<And>t. heap_ok (h2 t)"
      "\<And>t. key_to_order_and_value (h2 t) = (key_to_order_and_value h)(k \<mapsto> ((), t))" by metis
  define es where "es = ks @ (if ttl_provider p k v = Some 0 then [k] else [])"
  define h' where "h' = (case Option.bind (ttl_provider p k v) (ttl_checked_add p now) of None \<Rightarrow> h1 | Some t \<Rightarrow> h2 t)"
  have "ttl_set now p k v = Some (p\<lparr>ttl_expiration := h'\<rparr>, map cr_remove es)"
    by (auto simp: ttl_set_def e(1) h1 h2 es_def h'_def split: option.split)
  moreover have "heap_ok h'" "dom (key_to_order_and_value h') \<subseteq> insert k (dom m)"
    using dom' by (auto simp: h'_def h1 h2 split: option.splits)
  ultimately show ?thesis
    using assms(1) by (intro exI [of _ "p\<lparr>ttl_expiration := h'\<rparr>"] exI [of _ es]) (auto simp: follows_def)
qed

lemma put_last_used_fields [simp]:
  "rp_limit (pool_put_last_used i h pool) = rp_limit pool" "rp_current (pool_put_last_used i h pool) = rp_current pool"
  "rp_notify (pool_put_last_used i h pool) = rp_notify pool"
  by (simp_all add: pool_put_last_used_def)

lemma last_used_update [simp]:
  "pool_last_used i (pool\<lparr>rp_current := c\<rparr>) = pool_last_used i pool" "pool_last_used i (pool\<lparr>rp_notify := b\<rparr>) = pool_last_used i pool"
  by (simp_all add: pool_last_used_def)

text \<open>A member's use order and the pool's counter have changed together.\<close>

lemma lru_follows:
  assumes "pool_ok pool" "pool_last_used (lru_member p) pool = Some h"
    and "subscriber_notify now r pool (Lru p) = Some (pool', Lru p, [])"
    and "pool' = (pool_put_last_used (lru_member p) h' pool)\<lparr>rp_current := c, rp_notify := n\<rparr>"
    and "heap_ok h'" "c + heap_usage h = rp_current pool + heap_usage h'" "c < 2 ^ 64" "c \<le> rp_current pool + record_need (rp_limit pool) r (Lru p)"
    and "\<And>k c t. key_to_order_and_value h' k = Some (c, t) \<Longrightarrow> c \<le> rp_limit pool"
    and "dom (key_to_order_and_value h') \<subseteq> dom (apply_record r m)"
    and "\<And>k v. apply_record r m k = Some v \<Longrightarrow> k \<notin> pend \<Longrightarrow> \<exists>t. key_to_order_and_value h' k = Some (lru_resource_estimator p k v, t)"
    and "pool_announced pool \<Longrightarrow> pool_announced pool'"
  shows "follows now r pool m pend (Lru p) pool' (Lru p) []"
proof -
  have "pool_ok ((pool_put_last_used (lru_member p) h' pool)\<lparr>rp_current := c\<rparr>)"
    using pool_ok_put [OF assms(1,2,5,9,6,7)] .
  then have "pool_ok pool'" by (simp add: assms(4) pool_ok_def)
  moreover have "pool_frame (sub_ids (Lru p)) pool pool'" using assms(12) by (simp add: pool_frame_def assms(4))
  moreover have "sub_sync pool' (apply_record r m) pend (Lru p)" using assms(2,10,11) by (simp add: assms(4))
  moreover have "rp_current pool' \<le> rp_current pool + record_need (rp_limit pool) r (Lru p)" using assms(8) by (simp add: assms(4))
  ultimately show ?thesis using assms(3) by (simp add: follows_def)
qed

lemma lru_get_follows:
  assumes "pool_ok pool" "sub_sync pool m pend (Lru p)"
  shows "\<exists>pool' es. follows now (Record_Get k) pool m pend (Lru p) pool' (Lru p) es"
proof -
  obtain h where h: "pool_last_used (lru_member p) pool = Some h" "dom (key_to_order_and_value h) \<subseteq> dom m"
      "\<And>k v. m k = Some v \<Longrightarrow> k \<notin> pend \<Longrightarrow> \<exists>t. key_to_order_and_value h k = Some (lru_resource_estimator p k v, t)"
    using assms(2) by auto
  obtain h' where u: "ah_update_order h k now = Some (h', map_option snd (key_to_order_and_value h k))" "heap_ok h'"
      "key_to_order_and_value h' = (case key_to_order_and_value h k of None \<Rightarrow> key_to_order_and_value h
        | Some (v, _) \<Rightarrow> (key_to_order_and_value h)(k \<mapsto> (v, now)))"
    using ah.update_law [OF pool_ok_member(1) [OF assms(1) h(1)], of k now] by blast
  have usage: "heap_usage h' = heap_usage h"
  proof (cases "key_to_order_and_value h k")
    case None
    then show ?thesis using u(3) by (simp add: heap_usage_def)
  next
    case (Some e)
    then show ?thesis using u(3) heap_usage_order [of h k "fst e" "snd e" h' now] by (cases e) simp
  qed
  let ?pool' = "pool_put_last_used (lru_member p) h' pool"
  have "follows now (Record_Get k) pool m pend (Lru p) ?pool' (Lru p) []"
  proof (rule lru_follows [OF assms(1) h(1) _ _ u(2), where c = "rp_current pool" and n = "rp_notify pool"])
    show "?pool' = ?pool'\<lparr>rp_current := rp_current pool, rp_notify := rp_notify pool\<rparr>" by (simp add: pool_put_last_used_def)
    show "c \<le> rp_limit pool" if "key_to_order_and_value h' j = Some (c, t)" for j c t
      using that pool_ok_member(2) [OF assms(1) h(1)] u(3) by (auto split: option.splits if_splits)
    show "dom (key_to_order_and_value h') \<subseteq> dom (apply_record (Record_Get k) m)"
      using h(2) u(3) by (auto split: option.splits if_splits)
    show "\<exists>t. key_to_order_and_value h' j = Some (lru_resource_estimator p j v, t)"
      if "apply_record (Record_Get k) m j = Some v" "j \<notin> pend" for j v
      using h(3) [of j v] that u(3) by (auto split: option.splits)
  qed (use h(1) u(1) usage assms(1) in \<open>simp_all add: lru_get_def pool_announced_def pool_ok_def\<close>)
  then show ?thesis by blast
qed

lemma lru_remove_follows:
  assumes "pool_ok pool" "sub_sync pool m pend (Lru p)"
  shows "\<exists>pool' es. follows now (Record_Remove k) pool m pend (Lru p) pool' (Lru p) es"
proof -
  obtain h where h: "pool_last_used (lru_member p) pool = Some h" "dom (key_to_order_and_value h) \<subseteq> dom m"
      "\<And>k v. m k = Some v \<Longrightarrow> k \<notin> pend \<Longrightarrow> \<exists>t. key_to_order_and_value h k = Some (lru_resource_estimator p k v, t)"
    using assms(2) by auto
  have ok: "heap_ok h" using pool_ok_member(1) [OF assms(1) h(1)] .
  obtain h' where u: "ah_remove h k = Some (h', key_to_order_and_value h k)" "heap_ok h'"
      "key_to_order_and_value h' = (key_to_order_and_value h)(k := None)"
    using ah.remove_law [OF ok, of k] by blast
  define c0 where "c0 = (case key_to_order_and_value h k of None \<Rightarrow> 0 | Some (c, _) \<Rightarrow> c)"
  have usage: "heap_usage h' + c0 = heap_usage h" unfolding c0_def by (rule heap_usage_drop [OF ok u(3)])
  then have le: "c0 \<le> rp_current pool" using pool_ok_member(3) [OF assms(1) h(1)] by simp
  let ?pool' = "(pool_put_last_used (lru_member p) h' pool)\<lparr>rp_current := rp_current pool - c0\<rparr>"
  have notify: "subscriber_notify now (Record_Remove k) pool (Lru p) = Some (?pool', Lru p, [])"
    using h(1) u(1) le by (auto simp: lru_remove_def pool_remove_def c0_def pool_put_last_used_def split: option.splits)
  have "follows now (Record_Remove k) pool m pend (Lru p) ?pool' (Lru p) []"
  proof (rule lru_follows [OF assms(1) h(1) notify _ u(2), where c = "rp_current pool - c0" and n = "rp_notify pool"])
    show "?pool' = (pool_put_last_used (lru_member p) h' pool)\<lparr>rp_current := rp_current pool - c0, rp_notify := rp_notify pool\<rparr>"
      by (simp add: pool_put_last_used_def)
    show "c \<le> rp_limit pool" if "key_to_order_and_value h' j = Some (c, t)" for j c t
      using that pool_ok_member(2) [OF assms(1) h(1)] u(3) by (auto split: if_splits)
    show "dom (key_to_order_and_value h') \<subseteq> dom (apply_record (Record_Remove k) m)"
      using h(2) u(3) by auto
    show "\<exists>t. key_to_order_and_value h' j = Some (lru_resource_estimator p j v, t)"
      if "apply_record (Record_Remove k) m j = Some v" "j \<notin> pend" for j v
      using h(3) [of j v] that u(3) by (auto split: if_splits)
    show "rp_current pool - c0 + heap_usage h = rp_current pool + heap_usage h'" using usage le by simp
    show "pool_announced pool \<Longrightarrow> pool_announced ?pool'" by (simp add: pool_announced_def)
    show "rp_current pool - c0 < 2 ^ 64" using pool_ok_current [OF assms(1)] by simp
    show "rp_current pool - c0 \<le> rp_current pool + record_need (rp_limit pool) (Record_Remove k) (Lru p)" by simp
  qed
  then show ?thesis by blast
qed


lemma lru_set_follows:
  assumes "pool_ok pool" "sub_sync pool m pend (Lru p)"
    and room: "rp_current pool + record_need (rp_limit pool) (Record_Set k v) (Lru p) < 2 ^ 64 \<or> subscriber_notify now (Record_Set k v) pool (Lru p) \<noteq> None"
  shows "\<exists>pool' es. follows now (Record_Set k v) pool m pend (Lru p) pool' (Lru p) es"
proof (cases "lru_resource_estimator p k v > rp_limit pool")
  case True
  obtain h where "pool_last_used (lru_member p) pool = Some h" "dom (key_to_order_and_value h) \<subseteq> dom m"
      "\<And>k v. m k = Some v \<Longrightarrow> k \<notin> pend \<Longrightarrow> \<exists>t. key_to_order_and_value h k = Some (lru_resource_estimator p k v, t)"
    using assms(2) by auto
  then have "sub_sync pool (m(k \<mapsto> v)) (insert k pend) (Lru p)" by auto
  then have "follows now (Record_Set k v) pool m pend (Lru p) pool (Lru p) [k]"
    using True assms(1) by (simp add: follows_def lru_set_def)
  then show ?thesis by blast
next
  case False
  let ?s = "lru_resource_estimator p k v"
  obtain h where h: "pool_last_used (lru_member p) pool = Some h" "dom (key_to_order_and_value h) \<subseteq> dom m"
      "\<And>k v. m k = Some v \<Longrightarrow> k \<notin> pend \<Longrightarrow> \<exists>t. key_to_order_and_value h k = Some (lru_resource_estimator p k v, t)"
    using assms(2) by auto
  have ok: "heap_ok h" using pool_ok_member(1) [OF assms(1) h(1)] .
  obtain h1 where u: "ah_remove h k = Some (h1, key_to_order_and_value h k)" "heap_ok h1"
      "key_to_order_and_value h1 = (key_to_order_and_value h)(k := None)"
    using ah.remove_law [OF ok, of k] by blast
  define c0 where "c0 = (case key_to_order_and_value h k of None \<Rightarrow> 0 | Some (c, _) \<Rightarrow> c)"
  define t0 where "t0 = (case key_to_order_and_value h k of None \<Rightarrow> now | Some (_, t) \<Rightarrow> t)"
  have usage: "heap_usage h1 + c0 = heap_usage h" unfolding c0_def by (rule heap_usage_drop [OF ok u(3)])
  then have le: "c0 \<le> rp_current pool" using pool_ok_member(3) [OF assms(1) h(1)] by simp
  obtain h' where i: "ah_insert h1 k ?s t0 = Some (h', key_to_order_and_value h1 k)" "heap_ok h'"
      "key_to_order_and_value h' = (key_to_order_and_value h1)(k \<mapsto> (?s, t0))"
    using ah.insert_law [OF u(2)] by blast
  have usage': "heap_usage h' = heap_usage h1 + ?s" by (rule heap_usage_insert [OF u(2) _ i(3)]) (simp add: u(3))
  define c where "c = rp_current pool - c0 + ?s"
  define pool' where "pool' = (pool_put_last_used (lru_member p) h' pool)\<lparr>rp_current := c,
      rp_notify := (rp_notify pool \<or> c > rp_limit pool)\<rparr>"
  have set: "subscriber_notify now (Record_Set k v) pool (Lru p) = (if c < 2 ^ 64 then Some (pool', Lru p, []) else None)"
    using False h(1) u(1) i(1) le
    by (auto simp: lru_set_def pool_remove_def pool_add_def resource_add_def pool'_def c_def c0_def t0_def pool_put_last_used_def Let_def
        split: option.splits prod.splits)
  have grow: "c \<le> rp_current pool + record_need (rp_limit pool) (Record_Set k v) (Lru p)" using False by (simp add: c_def Let_def)
  then have c64: "c < 2 ^ 64" using room set by (auto split: if_splits)
  then have notify: "subscriber_notify now (Record_Set k v) pool (Lru p) = Some (pool', Lru p, [])" using set by simp
  have "follows now (Record_Set k v) pool m pend (Lru p) pool' (Lru p) []"
  proof (rule lru_follows [OF assms(1) h(1) notify pool'_def i(2) _ c64 grow])
    show "c + heap_usage h = rp_current pool + heap_usage h'" using usage usage' le by (simp add: c_def)
    show "c \<le> rp_limit pool" if "key_to_order_and_value h' j = Some (c, t)" for j c t
      using that False pool_ok_member(2) [OF assms(1) h(1)] u(3) i(3) by (auto split: if_splits)
    show "dom (key_to_order_and_value h') \<subseteq> dom (apply_record (Record_Set k v) m)"
      using h(2) u(3) i(3) by auto
    show "\<exists>t. key_to_order_and_value h' j = Some (lru_resource_estimator p j w, t)"
      if "apply_record (Record_Set k v) m j = Some w" "j \<notin> pend" for j w
      using h(3) [of j w] that u(3) i(3) by (auto split: if_splits)
    show "pool_announced pool \<Longrightarrow> pool_announced pool'" by (simp add: pool_announced_def pool'_def)
  qed
  then show ?thesis by blast
qed

lemma subscriber_follows:
  assumes "pool_ok pool" "sub_sync pool m pend s"
    and room: "rp_current pool + record_need (rp_limit pool) r s < 2 ^ 64 \<or> subscriber_notify now r pool s \<noteq> None"
  shows "\<exists>pool' s' es. follows now r pool m pend s pool' s' es"
proof (cases s)
  case (Ttl p)
  have sync: "sub_sync pool m pend (Ttl p)" using assms(2) Ttl by simp
  show ?thesis
    unfolding Ttl
    using ttl_get_follows [OF assms(1) sync, of now] ttl_set_follows [OF assms(1) sync, of now] ttl_remove_follows [OF assms(1) sync, of now]
    by (cases r) (simp_all only:, meson+)
next
  case (Lru p)
  have sync: "sub_sync pool m pend (Lru p)" using assms(2) Lru by simp
  show ?thesis
    unfolding Lru
  proof (cases r)
    case (Record_Set k v)
    show "\<exists>pool' s' es. follows now r pool m pend (Lru p) pool' s' es"
      using lru_set_follows [OF assms(1) sync room [unfolded Lru Record_Set]] unfolding Record_Set by blast
  qed (use lru_get_follows [OF assms(1) sync, of now] lru_remove_follows [OF assms(1) sync, of now] in \<open>simp_all only:, meson+\<close>)
next
  case RemoveIf
  then show ?thesis using assms by (intro exI [of _ pool] exI [of _ RemoveIf] exI [of _ "[]"]) (simp add: follows_def)
qed


fun lru_ids :: "('k, 'v) Subscriber list \<Rightarrow> string list" where
  "lru_ids [] = []"
| "lru_ids (Lru p # ss) = lru_member p # lru_ids ss"
| "lru_ids (Ttl p # ss) = lru_ids ss"
| "lru_ids (RemoveIf # ss) = lru_ids ss"

lemma lru_ids_Cons: "set (lru_ids (s # ss)) = sub_ids s \<union> set (lru_ids ss)"
  by (cases s) auto

lemma sub_ids_lru_ids: "s \<in> set ss \<Longrightarrow> sub_ids s \<subseteq> set (lru_ids ss)"
  by (induction ss) (auto simp: lru_ids_Cons)

lemma distinct_lru_ids_Cons: "distinct (lru_ids (s # ss)) \<longleftrightarrow> sub_ids s \<inter> set (lru_ids ss) = {} \<and> distinct (lru_ids ss)"
  by (cases s) auto

definition subs_inv :: "'k::linorder ResourcePool \<Rightarrow> ('k \<rightharpoonup> 'v) \<Rightarrow> 'k set \<Rightarrow> ('k, 'v) Subscriber list \<Rightarrow> bool" where
  "subs_inv pool m pend ss \<longleftrightarrow> pool_ok pool \<and> distinct (lru_ids ss) \<and> subs_sync pool m pend ss"

lemma subs_sync_frame:
  "subs_sync pool m pend ss \<Longrightarrow> pool_frame ids pool pool' \<Longrightarrow> ids \<inter> set (lru_ids ss) = {} \<Longrightarrow> subs_sync pool' m pend ss"
  unfolding subs_sync_def using sub_sync_frame sub_ids_lru_ids by (metis (no_types, lifting) disjoint_iff subsetD)

lemma subs_sync_mono: "subs_sync pool m pend ss \<Longrightarrow> pend \<inter> dom m \<subseteq> pend' \<Longrightarrow> subs_sync pool m pend' ss"
  unfolding subs_sync_def using sub_sync_mono by blast

lemma notify_subscribers_ok:
  assumes "subs_inv pool m pend ss"
    and "rp_current pool + records_need (rp_limit pool) [r] ss < 2 ^ 64 \<or> notify_subscribers now r pool ss \<noteq> None"
  shows "\<exists>pool' ss' es. notify_subscribers now r pool ss = Some (pool', ss', map cr_remove es)
    \<and> subs_inv pool' (apply_record r m) (pend \<union> set es) ss' \<and> pool_frame (set (lru_ids ss)) pool pool' \<and> lru_ids ss' = lru_ids ss
    \<and> rp_current pool' \<le> rp_current pool + records_need (rp_limit pool) [r] ss
    \<and> (\<forall>limit rs. records_need limit rs ss' = records_need limit rs ss)
    \<and> ((\<exists>k. r = Record_Remove k) \<longrightarrow> sum_list (map ttl_count ss') + length es \<le> sum_list (map ttl_count ss))"
  using assms
proof (induction ss arbitrary: pool)
  case Nil
  then show ?case by (intro exI [of _ pool] exI [of _ "[]"]) (simp add: subs_inv_def subs_sync_def)
next
  case (Cons s ss)
  have d: "sub_ids s \<inter> set (lru_ids ss) = {}" "distinct (lru_ids ss)"
    using Cons.prems by (simp_all add: subs_inv_def distinct_lru_ids_Cons)
  have "rp_current pool + record_need (rp_limit pool) r s < 2 ^ 64 \<or> subscriber_notify now r pool s \<noteq> None"
    using Cons.prems(2) by (auto simp: records_need_def split: bind_splits)
  then obtain pool1 s' es1 where 1: "follows now r pool m pend s pool1 s' es1"
    using subscriber_follows [of pool m pend s r now] Cons.prems by (auto simp: subs_inv_def subs_sync_def)
  have f1: "pool_frame (sub_ids s) pool pool1" "sub_ids s' = sub_ids s" "pool_ok pool1"
      "sub_sync pool1 (apply_record r m) (pend \<union> set es1) s'" "rp_current pool1 \<le> rp_current pool + record_need (rp_limit pool) r s"
      "\<And>limit r. record_need limit r s' = record_need limit r s" "rp_limit pool1 = rp_limit pool"
    using 1 by (simp_all add: follows_def pool_frame_def)
  have "subs_sync pool1 m pend ss"
    by (rule subs_sync_frame [OF _ f1(1) d(1)]) (use Cons.prems in \<open>simp add: subs_inv_def subs_sync_def\<close>)
  then have "subs_inv pool1 m pend ss" using f1(3) d(2) by (simp add: subs_inv_def)
  moreover have "rp_current pool1 + records_need (rp_limit pool1) [r] ss < 2 ^ 64 \<or> notify_subscribers now r pool1 ss \<noteq> None"
    using Cons.prems(2) 1 f1(5,7) by (auto simp: records_need_def follows_def split: bind_splits)
  ultimately obtain pool2 ss' es2 where 2: "notify_subscribers now r pool1 ss = Some (pool2, ss', map cr_remove es2)"
      "subs_inv pool2 (apply_record r m) (pend \<union> set es2) ss'" "pool_frame (set (lru_ids ss)) pool1 pool2" "lru_ids ss' = lru_ids ss"
      "(\<exists>k. r = Record_Remove k) \<longrightarrow> sum_list (map ttl_count ss') + length es2 \<le> sum_list (map ttl_count ss)"
      "rp_current pool2 \<le> rp_current pool1 + records_need (rp_limit pool1) [r] ss" "\<And>limit rs. records_need limit rs ss' = records_need limit rs ss"
    using Cons.IH by blast
  have "sub_sync pool2 (apply_record r m) (pend \<union> set es1) s'"
    by (rule sub_sync_frame [OF f1(4) 2(3)]) (use d(1) f1(2) in auto)
  then have "subs_sync pool2 (apply_record r m) (pend \<union> set (es1 @ es2)) (s' # ss')"
    using 2(2) by (auto simp: subs_inv_def subs_sync_def elim: sub_sync_mono)
  moreover have "lru_ids (s' # ss') = lru_ids (s # ss)" using f1(2) 2(4) by (cases s; cases s') auto
  moreover have "notify_subscribers now r pool (s # ss) = Some (pool2, s' # ss', map cr_remove (es1 @ es2))"
    using 1 2(1) by (simp add: follows_def)
  moreover have "pool_frame (set (lru_ids (s # ss))) pool pool2"
    using pool_frame_trans [OF f1(1) 2(3)] by (simp add: lru_ids_Cons)
  moreover have "(\<exists>k. r = Record_Remove k) \<longrightarrow> sum_list (map ttl_count (s' # ss')) + length (es1 @ es2) \<le> sum_list (map ttl_count (s # ss))"
    using 1 2(5) by (auto simp: follows_def)
  moreover have "rp_current pool2 \<le> rp_current pool + records_need (rp_limit pool) [r] (s # ss)"
    using f1(5,7) 2(6) by (simp add: records_need_def)
  moreover have "records_need limit rs (s' # ss') = records_need limit rs (s # ss)" for limit rs
    using 2(7) [of limit rs] by (simp add: records_need_def sum_list_addf f1(6))
  moreover have "pool_ok pool2" "distinct (lru_ids (s # ss))" using 2(2) Cons.prems by (simp_all add: subs_inv_def)
  ultimately show ?case
    by (intro exI [of _ pool2] exI [of _ "s' # ss'"] exI [of _ "es1 @ es2"]) (simp add: subs_inv_def)
qed

lemma notify_records_ok:
  assumes "subs_inv pool m pend ss"
    and "rp_current pool + records_need (rp_limit pool) rs ss < 2 ^ 64 \<or> notify_records now rs pool ss \<noteq> None"
  shows "\<exists>pool' ss' es. notify_records now rs pool ss = Some (pool', ss', map cr_remove es)
    \<and> subs_inv pool' (apply_records rs m) (pend \<union> set es) ss' \<and> pool_frame (set (lru_ids ss)) pool pool' \<and> lru_ids ss' = lru_ids ss"
  using assms
proof (induction rs arbitrary: pool m pend ss)
  case Nil
  then show ?case by (intro exI [of _ pool] exI [of _ ss] exI [of _ "[]"]) simp
next
  case (Cons r rs)
  have "rp_current pool + records_need (rp_limit pool) [r] ss < 2 ^ 64 \<or> notify_subscribers now r pool ss \<noteq> None"
    using Cons.prems(2) by (auto simp: records_need_def split: bind_splits)
  then obtain pool1 ss1 es1 where 1: "notify_subscribers now r pool ss = Some (pool1, ss1, map cr_remove es1)"
      "subs_inv pool1 (apply_record r m) (pend \<union> set es1) ss1" "pool_frame (set (lru_ids ss)) pool pool1" "lru_ids ss1 = lru_ids ss"
      "rp_current pool1 \<le> rp_current pool + records_need (rp_limit pool) [r] ss" "\<And>limit rs. records_need limit rs ss1 = records_need limit rs ss"
    using notify_subscribers_ok [OF Cons.prems(1), of r now] by blast
  have "rp_current pool1 + records_need (rp_limit pool1) rs ss1 < 2 ^ 64 \<or> notify_records now rs pool1 ss1 \<noteq> None"
    using Cons.prems(2) 1 by (auto simp: records_need_def pool_frame_def split: bind_splits)
  then obtain pool2 ss2 es2 where 2: "notify_records now rs pool1 ss1 = Some (pool2, ss2, map cr_remove es2)"
      "subs_inv pool2 (apply_records rs (apply_record r m)) (pend \<union> set es1 \<union> set es2) ss2"
      "pool_frame (set (lru_ids ss1)) pool1 pool2" "lru_ids ss2 = lru_ids ss1"
    using Cons.IH [OF 1(2)] by blast
  have "pool_frame (set (lru_ids ss)) pool pool2" using pool_frame_trans [OF 1(3) 2(3)] 1(4) by simp
  then show ?case
    using 1 2 by (intro exI [of _ pool2] exI [of _ ss2] exI [of _ "es1 @ es2"]) (simp add: Un_assoc)
qed

text \<open>The loop over requests for removal ends: each entry a policy gives up pays for one more request.\<close>

definition settles :: "Time \<Rightarrow> 'k::linorder ResourcePool \<Rightarrow> ('k, 'v) PolicyBackend \<Rightarrow> ('k, 'v) ChangeRequest list \<Rightarrow>
    'k ResourcePool \<Rightarrow> ('k, 'v) PolicyBackend \<Rightarrow> bool" where
  "settles now pool b tasks pool' b' \<longleftrightarrow> perform_changes now pool b tasks = Some (pool', b')
     \<and> subs_inv pool' (pb_inner b') {} (pb_subscribers b') \<and> pool_frame (set (lru_ids (pb_subscribers b))) pool pool'
     \<and> lru_ids (pb_subscribers b') = lru_ids (pb_subscribers b)"

lemma perform_changes_Nil [simp]: "perform_changes now pool b [] = Some (pool, b)"
  by (simp add: perform_changes.simps)

lemma perform_changes_Cons:
  assumes "r \<lparr>rc_inner = pb_inner b, rc_records = []\<rparr> = Some \<lparr>rc_inner = m', rc_records = rs\<rparr>"
    and "notify_records now rs pool (pb_subscribers b) = Some (pool', ss', es)"
  shows "perform_changes now pool b (r # tasks) = perform_changes now pool' \<lparr>pb_inner = m', pb_subscribers = ss'\<rparr> (tasks @ es)"
  by (subst perform_changes.simps) (simp add: assms)

lemma settles_Cons:
  assumes "r \<lparr>rc_inner = pb_inner b, rc_records = []\<rparr> = Some \<lparr>rc_inner = m', rc_records = rs\<rparr>"
    and "notify_records now rs pool (pb_subscribers b) = Some (pool1, ss', es)"
    and "pool_frame (set (lru_ids (pb_subscribers b))) pool pool1" "lru_ids ss' = lru_ids (pb_subscribers b)"
    and "settles now pool1 \<lparr>pb_inner = m', pb_subscribers = ss'\<rparr> (tasks @ es) pool' b'"
  shows "settles now pool b (r # tasks) pool' b'"
  using assms(5) perform_changes_Cons [where r = r and b = b, OF assms(1,2)] pool_frame_trans [OF assms(3)] assms(4)
  by (simp add: settles_def) (metis Un_absorb)

lemma perform_removals:
  assumes "subs_inv pool (pb_inner b) (set ks) (pb_subscribers b)"
  shows "\<exists>pool' b' D. settles now pool b (map cr_remove ks) pool' b' \<and> set ks \<subseteq> D \<and> pb_inner b' = pb_inner b |` (- D)"
  using assms
proof (induction "2 * sum_list (map ttl_count (pb_subscribers b)) + length ks" arbitrary: pool b ks rule: less_induct)
  case less
  show ?case
  proof (cases ks)
    case Nil
    then show ?thesis
      using less.prems by (intro exI [of _ pool] exI [of _ b] exI [of _ "{}"]) (simp add: settles_def restrict_map_def)
  next
    case (Cons k ks')
    let ?m' = "(pb_inner b)(k := None)"
    obtain pool1 ss' es where n: "notify_subscribers now (Record_Remove k) pool (pb_subscribers b) = Some (pool1, ss', map cr_remove es)"
        "subs_inv pool1 ?m' (set ks \<union> set es) ss'" "pool_frame (set (lru_ids (pb_subscribers b))) pool pool1"
        "lru_ids ss' = lru_ids (pb_subscribers b)"
        "sum_list (map ttl_count ss') + length es \<le> sum_list (map ttl_count (pb_subscribers b))"
      using notify_subscribers_ok [OF less.prems, of "Record_Remove k" now] pool_ok_current [of pool] less.prems by (auto simp: subs_inv_def)
    let ?b' = "\<lparr>pb_inner = ?m', pb_subscribers = ss'\<rparr>"
    have "subs_inv pool1 (pb_inner ?b') (set (ks' @ es)) (pb_subscribers ?b')"
      using n(2) Cons by (auto simp: subs_inv_def elim!: subs_sync_mono)
    moreover have "2 * sum_list (map ttl_count (pb_subscribers ?b')) + length (ks' @ es)
        < 2 * sum_list (map ttl_count (pb_subscribers b)) + length ks" using n(5) Cons by simp
    ultimately obtain pool' b' D where s: "settles now pool1 ?b' (map cr_remove (ks' @ es)) pool' b'"
        "set (ks' @ es) \<subseteq> D" "pb_inner b' = pb_inner ?b' |` (- D)"
      using less.hyps by blast
    have "settles now pool b (map cr_remove ks) pool' b'"
      unfolding Cons list.map
      by (rule settles_Cons [where m' = ?m' and rs = "[Record_Remove k]" and es = "map cr_remove es" and ?pool1.0 = pool1 and ss' = ss'])
        (use n s in \<open>simp_all add: cr_remove_def recorder_remove_def\<close>)
    moreover have "pb_inner b' = pb_inner b |` (- insert k D)" using s(3) by (auto simp: restrict_map_def)
    moreover have "set ks \<subseteq> insert k D" using s(2) Cons by auto
    ultimately show ?thesis by blast
  qed
qed

lemma perform_request:
  assumes "subs_inv pool (pb_inner b) {} (pb_subscribers b)"
    and r: "r \<lparr>rc_inner = pb_inner b, rc_records = []\<rparr> = Some \<lparr>rc_inner = apply_records recs (pb_inner b), rc_records = recs\<rparr>"
    and room: "rp_current pool + records_need (rp_limit pool) recs (pb_subscribers b) < 2 ^ 64 \<or> perform_changes now pool b [r] \<noteq> None"
  shows "\<exists>pool' b'. settles now pool b [r] pool' b'"
proof -
  have "rp_current pool + records_need (rp_limit pool) recs (pb_subscribers b) < 2 ^ 64 \<or> notify_records now recs pool (pb_subscribers b) \<noteq> None"
    using room by (auto simp: perform_changes.simps [of now pool b "[r]"] r split: bind_splits)
  from notify_records_ok [OF assms(1) this]
  obtain pool1 ss' es where n: "notify_records now recs pool (pb_subscribers b) = Some (pool1, ss', map cr_remove es)"
      "subs_inv pool1 (apply_records recs (pb_inner b)) (set es) ss'"
      "pool_frame (set (lru_ids (pb_subscribers b))) pool pool1" "lru_ids ss' = lru_ids (pb_subscribers b)" by auto
  let ?b' = "\<lparr>pb_inner = apply_records recs (pb_inner b), pb_subscribers = ss'\<rparr>"
  obtain pool' b' where "settles now pool1 ?b' ([] @ map cr_remove es) pool' b'"
    using perform_removals [of pool1 ?b' es now] n(2) by auto
  then show ?thesis using settles_Cons [where r = r and b = b, OF r n(1,3,4)] by blast
qed


section \<open>Every call returns\<close>

definition backend_inv :: "'k::linorder ResourcePool \<Rightarrow> ('k, 'v) PolicyBackend \<Rightarrow> bool" where
  "backend_inv pool b \<longleftrightarrow> subs_inv pool (pb_inner b) {} (pb_subscribers b)"

datatype ('k, 'v) cache_call = Get 'k | Set 'k 'v | Remove 'k | Remove_If 'k "'v \<Rightarrow> bool" | Evict "'k list"

fun cache_step :: "Time \<Rightarrow> ('k::linorder, 'v) cache_call \<Rightarrow> 'k ResourcePool \<Rightarrow> ('k, 'v) PolicyBackend \<Rightarrow>
    ('k ResourcePool \<times> ('k, 'v) PolicyBackend) option" where
  "cache_step now (Get k) pool b = map_option (\<lambda>(pool, b, _). (pool, b)) (backend_get now pool b k)"
| "cache_step now (Set k v) pool b = backend_set now pool b k v"
| "cache_step now (Remove k) pool b = backend_remove now pool b k"
| "cache_step now (Remove_If k P) pool b = map_option (\<lambda>(pool, b, _). (pool, b)) (remove_if now pool b k P)"
| "cache_step now (Evict ks) pool b = member_remove_keys now pool b ks"

fun call_request :: "('k, 'v) cache_call \<Rightarrow> ('k, 'v) ChangeRequest" where
  "call_request (Get k) = cr_get k"
| "call_request (Set k v) = cr_set k v"
| "call_request (Remove k) = cr_remove k"
| "call_request (Remove_If k P) = cr_remove_if k P"
| "call_request (Evict ks) = cr_remove_keys ks"

lemma cache_step_request: "cache_step now c pool b = perform_changes now pool b [call_request c]"
  by (cases c) (auto simp: backend_get_def backend_set_def backend_remove_def remove_if_def member_remove_keys_def
      map_option_case split: option.splits bind_splits)

text \<open>The records a call makes on a cached map.\<close>

fun call_records :: "('k, 'v) cache_call \<Rightarrow> ('k \<rightharpoonup> 'v) \<Rightarrow> ('k, 'v) Record list" where
  "call_records (Get k) m = [Record_Get k]"
| "call_records (Set k v) m = [Record_Set k v]"
| "call_records (Remove k) m = [Record_Remove k]"
| "call_records (Remove_If k P) m = (if \<exists>v. m k = Some v \<and> P v then [Record_Remove k] else [])"
| "call_records (Evict ks) m = map Record_Remove ks"

lemma call_request_records:
  "call_request c \<lparr>rc_inner = m, rc_records = []\<rparr> = Some \<lparr>rc_inner = apply_records (call_records c m) m, rc_records = call_records c m\<rparr>"
  by (cases c) (auto simp: cr_get_def cr_set_def cr_remove_def cr_remove_if_def cr_remove_keys_def recorder_get_def recorder_get_untracked_def
      recorder_set_def recorder_remove_def foldl_recorder_remove split: option.split)

text \<open>
  There is room for a call: only setting a value adds to the usage of the pool, by the sizes that the
  least-recently-used policies of the cache estimate for it, and the sum must be a size.
\<close>

fun call_room :: "('k, 'v) cache_call \<Rightarrow> 'k ResourcePool \<Rightarrow> ('k, 'v) PolicyBackend \<Rightarrow> bool" where
  "call_room (Set k v) pool b \<longleftrightarrow> rp_current pool + records_need (rp_limit pool) [Record_Set k v] (pb_subscribers b) < 2 ^ 64"
| "call_room _ pool b \<longleftrightarrow> True"

lemma call_room_records:
  "pool_ok pool \<Longrightarrow> call_room c pool b \<Longrightarrow> rp_current pool + records_need (rp_limit pool) (call_records c m) (pb_subscribers b) < 2 ^ 64"
  using pool_ok_current [of pool] by (cases c) simp_all

lemma cache_step_settles:
  assumes "backend_inv pool b" "call_room c pool b \<or> cache_step now c pool b \<noteq> None"
  shows "\<exists>pool' b'. settles now pool b [call_request c] pool' b'"
proof (rule perform_request [where r = "call_request c" and recs = "call_records c (pb_inner b)" and b = b, OF _ call_request_records])
  show "subs_inv pool (pb_inner b) {} (pb_subscribers b)" using assms(1) by (simp add: backend_inv_def)
  then have "pool_ok pool" by (simp add: subs_inv_def)
  then show "rp_current pool + records_need (rp_limit pool) (call_records c (pb_inner b)) (pb_subscribers b) < 2 ^ 64
      \<or> perform_changes now pool b [call_request c] \<noteq> None"
    using assms(2) call_room_records by (auto simp: cache_step_request)
qed

text \<open>
  A key is cached exactly if the pool accounts for it, with the size the estimator gives for its value; the keys
  that may expire are cached; and the usage of the pool is the sum of the sizes of all keys of its members.
\<close>

lemma backend_inv_lru:
  assumes "backend_inv pool b" "Lru p \<in> set (pb_subscribers b)"
  shows "\<exists>h. pool_last_used (lru_member p) pool = Some h
    \<and> (\<forall>k. map_option fst (key_to_order_and_value h k) = map_option (lru_resource_estimator p k) (pb_inner b k))"
proof -
  obtain h where h: "pool_last_used (lru_member p) pool = Some h" "dom (key_to_order_and_value h) \<subseteq> dom (pb_inner b)"
      "\<And>k v. pb_inner b k = Some v \<Longrightarrow> \<exists>t. key_to_order_and_value h k = Some (lru_resource_estimator p k v, t)"
    using assms by (fastforce simp: backend_inv_def subs_inv_def subs_sync_def)
  have "map_option fst (key_to_order_and_value h k) = map_option (lru_resource_estimator p k) (pb_inner b k)" for k
  proof (cases "pb_inner b k")
    case None
    then have "key_to_order_and_value h k = None" using h(2) by auto
    then show ?thesis using None by simp
  next
    case (Some v)
    then show ?thesis using h(3) by fastforce
  qed
  then show ?thesis using h(1) by blast
qed

lemma backend_inv_new:
  assumes "pool_ok pool"
  shows "backend_inv pool backend_new"
  using assms by (simp add: backend_inv_def subs_inv_def subs_sync_def backend_new_def)

lemma ah_new_empty [simp]: "heap_ok ah_new" "key_to_order_and_value ah_new = Map.empty"
  by (rule heap_ok_new) (simp add: ah_new_def)

lemma ensure_empty_performs:
  "pb_inner b = Map.empty \<Longrightarrow> perform_changes now pool b [cr_ensure_empty] = Some (pool, b)"
  by (subst perform_changes.simps) (simp add: cr_ensure_empty_def recorder_is_empty_def)

lemma lru_ids_append: "lru_ids (ss @ ss') = lru_ids ss @ lru_ids ss'"
  by (induction ss rule: lru_ids.induct) auto

lemma set_lru_ids: "set (lru_ids ss) = lru_member ` {p. Lru p \<in> set ss}"
  by (induction ss rule: lru_ids.induct) auto

lemma add_ttl_policy_inv:
  assumes "backend_inv pool b" "pb_inner b = Map.empty"
  shows "\<exists>b'. add_ttl_policy now provider add pool b = Some (pool, b') \<and> backend_inv pool b' \<and> pb_inner b' = Map.empty
    \<and> lru_ids (pb_subscribers b') = lru_ids (pb_subscribers b)"
  using assms
  by (auto simp: add_ttl_policy_def ensure_empty_performs backend_inv_def subs_inv_def subs_sync_def lru_ids_append)

lemma sum_list_insort_key: "sum_list (map f (insort_key g x xs)) = f x + (sum_list (map f xs) :: nat)"
  by (induction xs) auto

lemma distinct_map_insort_key: "distinct (map g (insort_key g x xs)) \<longleftrightarrow> g x \<notin> g ` set xs \<and> distinct (map g xs)"
  by (induction xs) (auto simp: set_insort_key)

lemma map_of_insort_key:
  "i \<notin> fst ` set xs \<Longrightarrow> map_of (insort_key fst (i, h) xs) j = (if j = i then Some h else map_of xs j)"
  by (induction xs) auto

lemma add_lru_policy_inv:
  assumes "backend_inv pool b" "pb_inner b = Map.empty" "i \<notin> fst ` set (rp_members pool)"
  shows "\<exists>pool' b'. add_lru_policy now i est pool b = Some (pool', b') \<and> backend_inv pool' b' \<and> pb_inner b' = Map.empty
    \<and> pool' = pool\<lparr>rp_members := insort_key fst (i, ah_new) (rp_members pool)\<rparr>
    \<and> lru_ids (pb_subscribers b') = lru_ids (pb_subscribers b) @ [i]"
proof -
  let ?pool = "pool\<lparr>rp_members := insort_key fst (i, ah_new) (rp_members pool)\<rparr>"
  let ?b = "b\<lparr>pb_subscribers := pb_subscribers b @ [Lru \<lparr>lru_member = i, lru_resource_estimator = est\<rparr>]\<rparr>"
  have lu: "pool_last_used j ?pool = (if j = i then Some ah_new else pool_last_used j pool)" for j
    using map_of_insort_key [OF assms(3)] by (simp add: pool_last_used_def)
  have "lru_member p \<noteq> i" if sub: "Lru p \<in> set (pb_subscribers b)" for p
  proof -
    obtain h where "map_of (rp_members pool) (lru_member p) = Some h"
      using backend_inv_lru [OF assms(1) sub] unfolding pool_last_used_def by blast
    then show ?thesis using assms(3) map_of_SomeD by force
  qed
  then have fresh: "i \<notin> set (lru_ids (pb_subscribers b))" by (auto simp: set_lru_ids)
  have "pool_ok ?pool"
    using assms(1,3)
    by (auto simp: pool_ok_def backend_inv_def subs_inv_def distinct_map_insort_key set_insort_key sum_list_insort_key heap_usage_def [of ah_new])
  moreover have "sub_sync ?pool m {} s" if "s \<in> set (pb_subscribers b)" "sub_sync pool m {} s" for s m
    using that(2) fresh sub_ids_lru_ids [OF that(1)] by (cases s rule: Subscriber.exhaust) (auto simp: lu)
  ultimately have "backend_inv ?pool ?b"
    using assms(1,2) fresh by (auto simp: backend_inv_def subs_inv_def subs_sync_def lru_ids_append lu)
  then show ?thesis
    using assms by (simp add: add_lru_policy_def ensure_empty_performs register_member_def lru_ids_append)
qed


lemma pool_ok_new: "pool_ok (pool_new limit)"
  by (simp add: pool_ok_def pool_new_def)

text \<open>
  C6. Every call on a cache returns, at any time and whatever time-to-live, least-recently-used and removal
  policies it has, provided that for a call that sets a value the usage of the pool and the sizes estimated for the value
  add up to less than \<open>2 ^ 64\<close>: the loop over change requests ends, no assertion fails, no sum of sizes overflows and no
  usage is taken below zero.
  Afterwards each policy tracks exactly the cached keys again, and the usage of the pool is the sum of the
  estimated sizes of what its members hold.
\<close>

theorem cache_calls_return:
  assumes "backend_inv pool b" "call_room c pool b"
  shows "\<exists>pool' b'. cache_step now c pool b = Some (pool', b') \<and> backend_inv pool' b'"
  using cache_step_settles [OF assms(1), of c now] assms(2) by (auto simp: cache_step_request settles_def backend_inv_def)

theorem cache_calls_return_witness:
  "\<exists>pool b. add_lru_policy 0 ''a'' (\<lambda>k v. v) (pool_new 10) (backend_new :: (nat, nat) PolicyBackend) = Some (pool, b)
    \<and> (\<exists>pool' b'. cache_step 5 (Set 3 4) pool b = Some (pool', b') \<and> backend_inv pool' b')"
proof -
  obtain pool b where pb: "add_lru_policy 0 ''a'' (\<lambda>k v. v) (pool_new 10) (backend_new :: (nat, nat) PolicyBackend) = Some (pool, b)" "backend_inv pool b"
    using add_lru_policy_inv [OF backend_inv_new [OF pool_ok_new [of 10]], where i = "''a''" and now = 0 and est = "\<lambda>k v. v"] by (auto simp: backend_new_def pool_new_def)
  moreover from pb(1) have "call_room (Set 3 4) pool b"
    by (auto simp: add_lru_policy_def ensure_empty_performs backend_new_def register_member_def pool_new_def records_need_def assert_that_def
        split: bind_splits if_splits)
  ultimately show ?thesis using cache_calls_return by blast
qed

end
