(* ===== verification/Cache_Ttl.thy ===== *)
theory Cache_Ttl
  imports Cache_Facts
begin

text \<open>
  What a cache with a time-to-live policy does, call by call, as a map from keys to values and deadlines.
\<close>

section \<open>The cache as a map with deadlines\<close>

text \<open>A key is due if its deadline has come.\<close>

definition due :: "Time \<Rightarrow> ('k \<rightharpoonup> unit \<times> Time) \<Rightarrow> 'k set" where
  "due now e = {k. \<exists>t. e k = Some ((), t) \<and> t \<le> now}"

lemma due_simps [simp]:
  "due now (e |` A) = due now e \<inter> A" "due now (e(k := None)) = due now e - {k}"
  "due now (e(k \<mapsto> ((), t))) = (if t \<le> now then insert k (due now e) else due now e - {k})"
  by (auto simp: due_def restrict_map_def split: if_splits)

definition ttl_backend :: "('k::linorder, 'v) TtlPolicy \<Rightarrow> ('k \<rightharpoonup> 'v) \<Rightarrow> ('k, 'v) PolicyBackend \<Rightarrow> ('k \<rightharpoonup> unit \<times> Time) \<Rightarrow> bool" where
  "ttl_backend p m b e \<longleftrightarrow> pb_inner b = m \<and> (\<exists>h. pb_subscribers b = [Ttl (p\<lparr>ttl_expiration := h\<rparr>)] \<and> heap_ok h \<and> key_to_order_and_value h = e)"

lemma perform_one:
  assumes "r \<lparr>rc_inner = pb_inner b, rc_records = []\<rparr> = Some \<lparr>rc_inner = m', rc_records = [rec]\<rparr>"
    and "pb_subscribers b = [s]" "subscriber_notify now rec pool s = Some (pool, s', es)"
  shows "perform_changes now pool b (r # tasks) = perform_changes now pool \<lparr>pb_inner = m', pb_subscribers = [s']\<rparr> (tasks @ es)"
  by (rule perform_changes_Cons [where rs = "[rec]"]) (simp_all add: assms)

lemma ttl_removals:
  assumes "ttl_backend p m b e" "ks \<noteq> []"
  shows "\<exists>b'. perform_changes now pool b (map cr_remove ks) = Some (pool, b')
    \<and> ttl_backend p (m |` (- (set ks \<union> due now e))) b' (e |` (- (set ks \<union> due now e)))"
  using assms
proof (induction "2 * card (dom e) + length ks" arbitrary: m b e ks rule: less_induct)
  case less
  obtain k ks' where ks: "ks = k # ks'" using less.prems(2) by (cases ks) auto
  obtain h where h: "pb_subscribers b = [Ttl (p\<lparr>ttl_expiration := h\<rparr>)]" "heap_ok h" "key_to_order_and_value h = e" "pb_inner b = m"
    using less.prems(1) by (auto simp: ttl_backend_def)
  obtain h1 where h1: "ah_remove h k = Some (h1, e k)" "heap_ok h1" "key_to_order_and_value h1 = e(k := None)"
    using ah.remove_law [OF h(2), of k] h(3) by auto
  obtain h2 es where e: "evict_expired now (p\<lparr>ttl_expiration := h1\<rparr>) = Some (p\<lparr>ttl_expiration := h2\<rparr>, map cr_remove es)"
      "heap_ok h2" "set es = due now (e(k := None))" "key_to_order_and_value h2 = (e(k := None)) |` (- set es)"
      "card (dom (key_to_order_and_value h2)) + length es = card (dom (e(k := None)))"
    using evict_expired_exact [of "p\<lparr>ttl_expiration := h1\<rparr>" now] h1(2,3) by (auto simp: due_def simp del: dom_fun_upd)
  let ?b = "\<lparr>pb_inner = m(k := None), pb_subscribers = [Ttl (p\<lparr>ttl_expiration := h2\<rparr>)]\<rparr>"
  have step: "perform_changes now pool b (map cr_remove ks) = perform_changes now pool ?b (map cr_remove (ks' @ es))"
    unfolding ks list.map map_append
  proof (rule perform_one [where rec = "Record_Remove k"])
    show "subscriber_notify now (Record_Remove k) pool (Ttl (p\<lparr>ttl_expiration := h\<rparr>)) = Some (pool, Ttl (p\<lparr>ttl_expiration := h2\<rparr>), map cr_remove es)"
      using h1(1) e(1) by (simp add: ttl_remove_def)
  qed (use h in \<open>simp_all add: cr_remove_def recorder_remove_def\<close>)
  have t: "ttl_backend p (m(k := None)) ?b ((e(k := None)) |` (- set es))" using e(2,4) by (auto simp: ttl_backend_def)
  show ?case
  proof (cases "ks' @ es = []")
    case True
    then have "perform_changes now pool b (map cr_remove ks) = Some (pool, ?b)" using step by simp
    moreover have "due now e \<subseteq> {k}" using True e(3) by auto
    then have "m |` (- (set ks \<union> due now e)) = m(k := None)" "e |` (- (set ks \<union> due now e)) = (e(k := None)) |` (- set es)"
      using True ks by (auto simp: restrict_map_def fun_eq_iff)
    ultimately show ?thesis using t by auto
  next
    case False
    have "card (dom (e(k := None))) \<le> card (dom e)"
      by (rule card_mono) (use heap_ok_finite [OF h(2)] h(3) in auto)
    then have "2 * card (dom ((e(k := None)) |` (- set es))) + length (ks' @ es) < 2 * card (dom e) + length ks"
      using e(4,5) ks by simp
    from less.hyps [OF this t False] obtain b' where b': "perform_changes now pool ?b (map cr_remove (ks' @ es)) = Some (pool, b')"
        "ttl_backend p ((m(k := None)) |` (- (set (ks' @ es) \<union> due now ((e(k := None)) |` (- set es))))) b'
          ((e(k := None)) |` (- set es) |` (- (set (ks' @ es) \<union> due now ((e(k := None)) |` (- set es)))))" by blast
    have none: "due now ((e(k := None)) |` (- set es)) = {}" using e(3) by auto
    have "(m(k := None)) |` (- (set (ks' @ es) \<union> due now ((e(k := None)) |` (- set es)))) = m |` (- (set ks \<union> due now e))"
      "(e(k := None)) |` (- set es) |` (- (set (ks' @ es) \<union> due now ((e(k := None)) |` (- set es)))) = e |` (- (set ks \<union> due now e))"
      unfolding none by (rule ext, auto simp: restrict_map_def ks e(3))+
    then show ?thesis using b' step by auto
  qed
qed


section \<open>The specification\<close>

type_synonym ('k, 'v) deadline_map = "'k \<rightharpoonup> 'v \<times> Time option"

definition overdue :: "Time \<Rightarrow> ('k, 'v) deadline_map \<Rightarrow> 'k set" where
  "overdue now S = {k. \<exists>v t. S k = Some (v, Some t) \<and> t \<le> now}"

definition live :: "Time \<Rightarrow> ('k, 'v) deadline_map \<Rightarrow> ('k, 'v) deadline_map" where
  "live now S = S |` (- overdue now S)"

datatype ('k, 'v) ttl_call = TGet 'k | TSet 'k 'v | TRemove 'k | TRemove_If 'k "'v \<Rightarrow> bool"

datatype 'v ttl_answer = Value "'v option" | Done | Removed bool

fun ttl_call_step :: "Time \<Rightarrow> ('k::linorder, 'v) ttl_call \<Rightarrow> 'k ResourcePool \<Rightarrow> ('k, 'v) PolicyBackend \<Rightarrow>
    (('k ResourcePool \<times> ('k, 'v) PolicyBackend) \<times> 'v ttl_answer) option" where
  "ttl_call_step now (TGet k) pool b = map_option (\<lambda>(pool, b, v). ((pool, b), Value v)) (backend_get now pool b k)"
| "ttl_call_step now (TSet k v) pool b = map_option (\<lambda>s. (s, Done)) (backend_set now pool b k v)"
| "ttl_call_step now (TRemove k) pool b = map_option (\<lambda>s. (s, Done)) (backend_remove now pool b k)"
| "ttl_call_step now (TRemove_If k P) pool b = map_option (\<lambda>(pool, b, r). ((pool, b), Removed r)) (remove_if now pool b k P)"

text \<open>
  What each call does to the map. Setting a key that is overdue drops it together with the new value.
\<close>

fun ttl_spec :: "('k, 'v) TtlPolicy \<Rightarrow> Time \<Rightarrow> ('k, 'v) ttl_call \<Rightarrow> ('k, 'v) deadline_map \<Rightarrow> ('k, 'v) deadline_map \<times> 'v ttl_answer" where
  "ttl_spec p now (TGet k) S = (live now S, Value (map_option fst (live now S k)))"
| "ttl_spec p now (TSet k v) S =
     (if k \<in> overdue now S \<or> ttl_provider p k v = Some 0 then (live now S)(k := None)
      else (live now S)(k \<mapsto> (v, Option.bind (ttl_provider p k v) (ttl_checked_add p now))), Done)"
| "ttl_spec p now (TRemove k) S = ((live now S)(k := None), Done)"
| "ttl_spec p now (TRemove_If k P) S =
     (if \<exists>v d. S k = Some (v, d) \<and> P v then ((live now S)(k := None), Removed True) else (S, Removed False))"

fun ttl_run :: "'k::linorder ResourcePool \<Rightarrow> ('k, 'v) PolicyBackend \<Rightarrow> (Time \<times> ('k, 'v) ttl_call) list \<Rightarrow> 'v ttl_answer list option" where
  "ttl_run pool b [] = Some []"
| "ttl_run pool b ((now, c) # cs) = do {
     ((pool, b), a) \<leftarrow> ttl_call_step now c pool b;
     as \<leftarrow> ttl_run pool b cs;
     Some (a # as)
   }"

fun ttl_spec_run :: "('k, 'v) TtlPolicy \<Rightarrow> ('k, 'v) deadline_map \<Rightarrow> (Time \<times> ('k, 'v) ttl_call) list \<Rightarrow> 'v ttl_answer list" where
  "ttl_spec_run p S [] = []"
| "ttl_spec_run p S ((now, c) # cs) = (let (S, a) = ttl_spec p now c S in a # ttl_spec_run p S cs)"

section \<open>Refinement\<close>

definition with_deadlines :: "('k \<rightharpoonup> 'v) \<Rightarrow> ('k \<rightharpoonup> unit \<times> Time) \<Rightarrow> ('k, 'v) deadline_map" where
  "with_deadlines m e = (\<lambda>k. map_option (\<lambda>v. (v, map_option snd (e k))) (m k))"

definition ttl_refines :: "('k::linorder, 'v) TtlPolicy \<Rightarrow> ('k, 'v) PolicyBackend \<Rightarrow> ('k, 'v) deadline_map \<Rightarrow> bool" where
  "ttl_refines p b S \<longleftrightarrow> (\<exists>m e. ttl_backend p m b e \<and> dom e \<subseteq> dom m \<and> S = with_deadlines m e)"

lemma overdue_with_deadlines: "dom e \<subseteq> dom m \<Longrightarrow> overdue now (with_deadlines m e) = due now e"
  by (fastforce simp: overdue_def due_def with_deadlines_def)

lemma with_deadlines_simps:
  "with_deadlines (m |` A) (e |` A) = with_deadlines m e |` A"
  "with_deadlines (m(k := None)) (e(k := None)) = (with_deadlines m e)(k := None)"
  "with_deadlines (m(k \<mapsto> v)) (e(k := d)) = (with_deadlines m e)(k \<mapsto> (v, map_option snd d))"
  by (auto simp: with_deadlines_def restrict_map_def)

lemma ttl_refines_removed:
  assumes "ttl_backend p (m |` (- D)) b (e |` (- D))" "dom e \<subseteq> dom m" "S = with_deadlines m e |` (- D)"
  shows "ttl_refines p b S"
  unfolding ttl_refines_def
  by (rule exI [of _ "m |` (- D)"], rule exI [of _ "e |` (- D)"]) (use assms in \<open>auto simp: with_deadlines_simps\<close>)

text \<open>Requests for removal that include all keys due.\<close>

lemma ttl_removals_due:
  assumes "ttl_backend p m b e" "due now e \<subseteq> set ks"
  shows "\<exists>b'. perform_changes now pool b (map cr_remove ks) = Some (pool, b') \<and> ttl_backend p (m |` (- set ks)) b' (e |` (- set ks))"
proof (cases "ks = []")
  case True
  then show ?thesis using assms(1) by (simp add: restrict_map_def)
next
  case False
  then show ?thesis using ttl_removals [OF assms(1) False, of now pool] assms(2) by (simp add: Un_absorb2)
qed


lemma ttl_backend_notified:
  assumes "ttl_backend p m b e"
  obtains h where "pb_inner b = m" "pb_subscribers b = [Ttl (p\<lparr>ttl_expiration := h\<rparr>)]" "heap_ok h" "key_to_order_and_value h = e"
  using assms by (auto simp: ttl_backend_def)

lemma evict_due:
  assumes "heap_ok h" "key_to_order_and_value h = e"
  shows "\<exists>h' es. evict_expired now (p\<lparr>ttl_expiration := h\<rparr>) = Some (p\<lparr>ttl_expiration := h'\<rparr>, map cr_remove es)
    \<and> heap_ok h' \<and> set es = due now e \<and> key_to_order_and_value h' = e |` (- due now e)"
proof -
  obtain h' es where "evict_expired now (p\<lparr>ttl_expiration := h\<rparr>) = Some (p\<lparr>ttl_expiration := h'\<rparr>, map cr_remove es)" "heap_ok h'"
      "set es = due now e" "key_to_order_and_value h' = e |` (- set es)"
    using evict_expired_exact [of "p\<lparr>ttl_expiration := h\<rparr>" now] assms by (auto simp: due_def)
  then show ?thesis by (intro exI [of _ h'] exI [of _ es]) simp
qed

lemma ttl_get_performs:
  assumes "ttl_backend p m b e"
  shows "\<exists>b'. perform_changes now pool b [cr_get k] = Some (pool, b') \<and> ttl_backend p (m |` (- due now e)) b' (e |` (- due now e))"
proof -
  obtain h where h: "pb_inner b = m" "pb_subscribers b = [Ttl (p\<lparr>ttl_expiration := h\<rparr>)]" "heap_ok h" "key_to_order_and_value h = e"
    using ttl_backend_notified [OF assms] .
  obtain h' es where e: "evict_expired now (p\<lparr>ttl_expiration := h\<rparr>) = Some (p\<lparr>ttl_expiration := h'\<rparr>, map cr_remove es)"
      "heap_ok h'" "set es = due now e" "key_to_order_and_value h' = e |` (- due now e)"
    using evict_due [OF h(3,4)] by blast
  let ?b = "\<lparr>pb_inner = m, pb_subscribers = [Ttl (p\<lparr>ttl_expiration := h'\<rparr>)]\<rparr>"
  have "perform_changes now pool b [cr_get k] = perform_changes now pool ?b ([] @ map cr_remove es)"
  proof (rule perform_one [where rec = "Record_Get k"])
    show "subscriber_notify now (Record_Get k) pool (Ttl (p\<lparr>ttl_expiration := h\<rparr>)) = Some (pool, Ttl (p\<lparr>ttl_expiration := h'\<rparr>), map cr_remove es)"
      using e(1) by (simp add: ttl_get_def)
  qed (use h in \<open>simp_all add: cr_get_def recorder_get_def\<close>)
  moreover have "ttl_backend p m ?b (e |` (- due now e))" using e(2,4) by (auto simp: ttl_backend_def)
  from ttl_removals_due [OF this, of now es pool] have
    "\<exists>b'. perform_changes now pool ?b (map cr_remove es) = Some (pool, b') \<and> ttl_backend p (m |` (- due now e)) b' (e |` (- due now e))"
    by (simp add: e(3))
  ultimately show ?thesis by simp
qed

lemma ttl_set_performs:
  assumes "ttl_backend p m b e" "\<And>now d t. ttl_checked_add p now d = Some t \<Longrightarrow> t = now + int d"
  shows "\<exists>b'. perform_changes now pool b [cr_set k v] = Some (pool, b')
    \<and> ttl_backend p (m(k \<mapsto> v) |` (- (due now e \<union> (if ttl_provider p k v = Some 0 then {k} else {})))) b'
      ((e |` (- due now e))(k := map_option (Pair ()) (Option.bind (ttl_provider p k v) (ttl_checked_add p now)))
        |` (- (due now e \<union> (if ttl_provider p k v = Some 0 then {k} else {}))))"
proof -
  obtain h where h: "pb_inner b = m" "pb_subscribers b = [Ttl (p\<lparr>ttl_expiration := h\<rparr>)]" "heap_ok h" "key_to_order_and_value h = e"
    using ttl_backend_notified [OF assms(1)] .
  obtain h' es where e: "evict_expired now (p\<lparr>ttl_expiration := h\<rparr>) = Some (p\<lparr>ttl_expiration := h'\<rparr>, map cr_remove es)"
      "heap_ok h'" "set es = due now e" "key_to_order_and_value h' = e |` (- due now e)"
    using evict_due [OF h(3,4)] by blast
  define d where "d = Option.bind (ttl_provider p k v) (ttl_checked_add p now)"
  define es' where "es' = es @ (if ttl_provider p k v = Some 0 then [k] else [])"
  have es': "set es' = due now e \<union> (if ttl_provider p k v = Some 0 then {k} else {})" by (simp add: es'_def e(3))
  obtain h1 where h1: "ah_remove h' k = Some (h1, key_to_order_and_value h' k)" "heap_ok h1"
      "key_to_order_and_value h1 = (e |` (- due now e))(k := None)"
    using ah.remove_law [OF e(2), of k] e(4) by auto
  have "\<exists>h2. ah_insert h' k () t = Some (h2, key_to_order_and_value h' k) \<and> heap_ok h2
      \<and> key_to_order_and_value h2 = (e |` (- due now e))(k \<mapsto> ((), t))" for t
    using ah.insert_law [OF e(2), of k "()" t] e(4) by auto
  then obtain h2 where h2: "\<And>t. ah_insert h' k () t = Some (h2 t, key_to_order_and_value h' k)" "\<And>t. heap_ok (h2 t)"
      "\<And>t. key_to_order_and_value (h2 t) = (e |` (- due now e))(k \<mapsto> ((), t))" by metis
  define h3 where "h3 = (case d of None \<Rightarrow> h1 | Some t \<Rightarrow> h2 t)"
  have notify: "subscriber_notify now (Record_Set k v) pool (Ttl (p\<lparr>ttl_expiration := h\<rparr>)) = Some (pool, Ttl (p\<lparr>ttl_expiration := h3\<rparr>), map cr_remove es')"
    by (auto simp: ttl_set_def e(1) h1 h2 es'_def h3_def d_def split: option.split)
  let ?b = "\<lparr>pb_inner = m(k \<mapsto> v), pb_subscribers = [Ttl (p\<lparr>ttl_expiration := h3\<rparr>)]\<rparr>"
  have step: "perform_changes now pool b [cr_set k v] = perform_changes now pool ?b ([] @ map cr_remove es')"
    by (rule perform_one [OF _ _ notify]) (use h in \<open>simp_all add: cr_set_def recorder_set_def\<close>)
  have e3: "key_to_order_and_value h3 = (e |` (- due now e))(k := map_option (Pair ()) d)" "heap_ok h3"
    by (auto simp: h3_def h1 h2 split: option.split)
  have tb: "ttl_backend p (m(k \<mapsto> v)) ?b ((e |` (- due now e))(k := map_option (Pair ()) d))" using e3 by (auto simp: ttl_backend_def)
  have sub: "due now ((e |` (- due now e))(k := map_option (Pair ()) d)) \<subseteq> set es'"
  proof (cases d)
    case (Some t)
    then obtain ttl where "ttl_provider p k v = Some ttl" "t = now + int ttl"
      by (auto simp: d_def bind_eq_Some_conv dest: assms(2))
    then show ?thesis using Some by (auto simp: es')
  qed (auto simp: es')
  show ?thesis using ttl_removals_due [OF tb sub, of pool] unfolding step es' d_def append_Nil .
qed


lemma ttl_remove_performs:
  assumes "ttl_backend p m b e"
  shows "\<exists>b'. perform_changes now pool b [cr_remove k] = Some (pool, b')
    \<and> ttl_backend p (m |` (- insert k (due now e))) b' (e |` (- insert k (due now e)))"
  using ttl_removals [OF assms, of "[k]" now pool] by simp

lemma ttl_step_refines:
  assumes "ttl_refines p b S" "\<And>now d t. ttl_checked_add p now d = Some t \<Longrightarrow> t = now + int d"
  shows "\<exists>b'. ttl_call_step now c pool b = Some ((pool, b'), snd (ttl_spec p now c S)) \<and> ttl_refines p b' (fst (ttl_spec p now c S))"
proof -
  obtain m e where me: "ttl_backend p m b e" "dom e \<subseteq> dom m" "S = with_deadlines m e"
    using assms(1) by (auto simp: ttl_refines_def)
  have od: "overdue now S = due now e" using overdue_with_deadlines [OF me(2)] me(3) by simp
  have inner: "pb_inner b = m" using me(1) by (simp add: ttl_backend_def)
  have rm: "\<exists>b'. perform_changes now pool b [cr_remove k] = Some (pool, b') \<and> ttl_refines p b' ((live now S)(k := None))" for k
  proof -
    obtain b' where b': "perform_changes now pool b [cr_remove k] = Some (pool, b')"
        "ttl_backend p (m |` (- insert k (due now e))) b' (e |` (- insert k (due now e)))"
      using ttl_remove_performs [OF me(1)] by blast
    have "(live now S)(k := None) = with_deadlines m e |` (- insert k (due now e))"
      unfolding me(3) [symmetric] live_def od by (rule ext) (simp add: restrict_map_def)
    then show ?thesis using b'(1) ttl_refines_removed [OF b'(2) me(2)] by blast
  qed
  show ?thesis
  proof (cases c)
    case (TGet k)
    obtain b' where b': "perform_changes now pool b [cr_get k] = Some (pool, b')"
        "ttl_backend p (m |` (- due now e)) b' (e |` (- due now e))"
      using ttl_get_performs [OF me(1)] by blast
    have "live now S = with_deadlines m e |` (- due now e)" unfolding me(3) [symmetric] live_def od ..
    then have "ttl_refines p b' (live now S)" using ttl_refines_removed [OF b'(2) me(2)] by blast
    moreover have "pb_inner b' k = map_option fst (live now S k)"
      using b'(2) od by (simp add: ttl_backend_def live_def restrict_map_def me(3) with_deadlines_def option.map_comp comp_def option.map_ident)
    ultimately show ?thesis using b'(1) TGet by (simp add: backend_get_def)
  next
    case (TSet k v)
    let ?D = "due now e \<union> (if ttl_provider p k v = Some 0 then {k} else {})"
    let ?d = "Option.bind (ttl_provider p k v) (ttl_checked_add p now)"
    let ?e = "(e |` (- due now e))(k := map_option (Pair ()) ?d)"
    obtain b' where b': "perform_changes now pool b [cr_set k v] = Some (pool, b')" "ttl_backend p (m(k \<mapsto> v) |` (- ?D)) b' (?e |` (- ?D))"
      using ttl_set_performs [OF me(1) assms(2)] by blast
    have "fst (ttl_spec p now c S) = (S(k \<mapsto> (v, ?d))) |` (- ?D)"
      unfolding TSet by (rule ext) (simp add: live_def od restrict_map_def)
    also have "\<dots> = with_deadlines (m(k \<mapsto> v)) ?e |` (- ?D)"
      unfolding me(3) by (rule ext) (auto simp: with_deadlines_def restrict_map_def option.map_comp comp_def option.map_ident)
    finally have "ttl_refines p b' (fst (ttl_spec p now c S))"
      by (rule ttl_refines_removed [OF b'(2), rotated]) (use me(2) in \<open>auto split: if_splits\<close>)
    then show ?thesis using b'(1) TSet by (simp add: backend_set_def)
  next
    case (TRemove k)
    then show ?thesis using rm by (auto simp: backend_remove_def)
  next
    case (TRemove_If k P)
    show ?thesis
    proof (cases "\<exists>v. m k = Some v \<and> P v")
      case True
      then have "cr_remove_if k P \<lparr>rc_inner = pb_inner b, rc_records = []\<rparr> = cr_remove k \<lparr>rc_inner = pb_inner b, rc_records = []\<rparr>"
        by (auto simp: cr_remove_if_def cr_remove_def recorder_get_untracked_def inner)
      then have "perform_changes now pool b [cr_remove_if k P] = perform_changes now pool b [cr_remove k]"
        by (subst (1 2) perform_changes.simps) simp
      then show ?thesis using rm [of k] True TRemove_If inner by (auto simp: remove_if_def me(3) with_deadlines_def)
    next
      case False
      then have "cr_remove_if k P \<lparr>rc_inner = m, rc_records = []\<rparr> = Some \<lparr>rc_inner = m, rc_records = []\<rparr>"
        by (auto simp: cr_remove_if_def recorder_get_untracked_def split: option.split)
      then have "perform_changes now pool b [cr_remove_if k P] = Some (pool, b)"
        by (subst perform_changes.simps) (simp add: inner [symmetric])
      moreover have "ttl_refines p b S" by (rule assms(1))
      ultimately show ?thesis using False TRemove_If inner by (auto simp: remove_if_def me(3) with_deadlines_def split: option.splits)
    qed
  qed
qed


lemma ttl_run_refines_from:
  assumes "\<And>now d t. ttl_checked_add p now d = Some t \<Longrightarrow> t = now + int d"
  shows "ttl_refines p b S \<Longrightarrow> ttl_run pool b cs = Some (ttl_spec_run p S cs)"
proof (induction cs arbitrary: b S)
  case (Cons c cs)
  obtain now x where c: "c = (now, x)" by (cases c)
  obtain b' where "ttl_call_step now x pool b = Some ((pool, b'), snd (ttl_spec p now x S))" "ttl_refines p b' (fst (ttl_spec p now x S))"
    using ttl_step_refines [OF Cons.prems assms] by blast
  then show ?case using Cons.IH by (simp add: c case_prod_beta Let_def)
qed simp

lemma ttl_new_cache_refines:
  assumes "\<And>now d t. checked_add now d = Some t \<Longrightarrow> t = now + int d"
    and "add_ttl_policy t0 provider checked_add pool backend_new = Some (pool', b)"
  shows "ttl_run pool' b cs =
    Some (ttl_spec_run \<lparr>ttl_provider = provider, ttl_checked_add = checked_add, ttl_expiration = ah_new\<rparr> Map.empty cs)"
proof (rule ttl_run_refines_from)
  have "ttl_backend \<lparr>ttl_provider = provider, ttl_checked_add = checked_add, ttl_expiration = ah_new\<rparr> Map.empty b Map.empty"
    using assms(2) by (auto simp: add_ttl_policy_def ensure_empty_performs backend_new_def ttl_backend_def)
  then show "ttl_refines \<lparr>ttl_provider = provider, ttl_checked_add = checked_add, ttl_expiration = ah_new\<rparr> b Map.empty"
    unfolding ttl_refines_def
    by (intro exI [of _ Map.empty]) (simp add: with_deadlines_def)
qed (use assms(1) in simp)


lemma add_ttl_policy_new:
  "add_ttl_policy t0 provider checked_add pool backend_new = Some (pool,
     \<lparr>pb_inner = Map.empty, pb_subscribers = [Ttl \<lparr>ttl_provider = provider, ttl_checked_add = checked_add, ttl_expiration = ah_new\<rparr>]\<rparr>)"
  by (simp add: add_ttl_policy_def ensure_empty_performs backend_new_def)

text \<open>
  The plain map with deadlines, which knows nothing of the keys that are overdue. The cache differs from it only on a set
  or a conditional removal of such a key: a run is timely if it has none.
\<close>

fun deadline_step :: "('k, 'v) TtlPolicy \<Rightarrow> Time \<Rightarrow> ('k, 'v) ttl_call \<Rightarrow> ('k, 'v) deadline_map \<Rightarrow> ('k, 'v) deadline_map \<times> 'v ttl_answer" where
  "deadline_step p now (TGet k) S = (live now S, Value (map_option fst (live now S k)))"
| "deadline_step p now (TSet k v) S =
     ((live now S)(k := if ttl_provider p k v = Some 0 then None else Some (v, Option.bind (ttl_provider p k v) (ttl_checked_add p now))), Done)"
| "deadline_step p now (TRemove k) S = ((live now S)(k := None), Done)"
| "deadline_step p now (TRemove_If k P) S =
     (if \<exists>v d. live now S k = Some (v, d) \<and> P v then ((live now S)(k := None), Removed True) else (S, Removed False))"

fun deadline_run :: "('k, 'v) TtlPolicy \<Rightarrow> ('k, 'v) deadline_map \<Rightarrow> (Time \<times> ('k, 'v) ttl_call) list \<Rightarrow> 'v ttl_answer list" where
  "deadline_run p S [] = []"
| "deadline_run p S ((now, c) # cs) = (let (S, a) = deadline_step p now c S in a # deadline_run p S cs)"

fun timely_call :: "Time \<Rightarrow> ('k, 'v) ttl_call \<Rightarrow> ('k, 'v) deadline_map \<Rightarrow> bool" where
  "timely_call now (TSet k v) S \<longleftrightarrow> k \<notin> overdue now S"
| "timely_call now (TRemove_If k P) S \<longleftrightarrow> k \<notin> overdue now S"
| "timely_call now _ S \<longleftrightarrow> True"

fun timely :: "('k, 'v) TtlPolicy \<Rightarrow> ('k, 'v) deadline_map \<Rightarrow> (Time \<times> ('k, 'v) ttl_call) list \<Rightarrow> bool" where
  "timely p S [] \<longleftrightarrow> True"
| "timely p S ((now, c) # cs) \<longleftrightarrow> timely_call now c S \<and> timely p (fst (deadline_step p now c S)) cs"

lemma timely_call_plain: "timely_call now c S \<Longrightarrow> ttl_spec p now c S = deadline_step p now c S"
  by (cases c) (auto simp: live_def restrict_map_def)

lemma timely_plain: "timely p S cs \<Longrightarrow> ttl_spec_run p S cs = deadline_run p S cs"
  by (induction p S cs rule: timely.induct) (simp_all add: timely_call_plain case_prod_beta)

text \<open>
  C7. A cache with a time-to-live policy answers any sequence of calls, at any times, as a map from keys to values
  and deadlines prescribes: a lookup never returns a value whose deadline has come and returns every other
  value the map holds, and a new value gets the deadline its duration gives, none if there is no duration or the
  addition overflows. The map has two rules for a key whose deadline has come without its being noticed: setting
  it drops the new value together with the old one, and a conditional removal still looks at the old value. A
  run with neither is answered as by the plain map with deadlines.
\<close>

theorem ttl_cache_refines:
  assumes "\<And>now d t. checked_add now d = Some t \<Longrightarrow> t = now + int d"
    and "add_ttl_policy t0 provider checked_add pool backend_new = Some (pool', b)"
  shows "ttl_run pool' b cs =
      Some (ttl_spec_run \<lparr>ttl_provider = provider, ttl_checked_add = checked_add, ttl_expiration = ah_new\<rparr> Map.empty cs)
    \<and> (timely \<lparr>ttl_provider = provider, ttl_checked_add = checked_add, ttl_expiration = ah_new\<rparr> Map.empty cs \<longrightarrow>
      ttl_run pool' b cs = Some (deadline_run \<lparr>ttl_provider = provider, ttl_checked_add = checked_add, ttl_expiration = ah_new\<rparr> Map.empty cs))"
  using ttl_new_cache_refines [OF assms] by (simp add: timely_plain)

theorem ttl_cache_refines_witness:
  "\<exists>pool b. add_ttl_policy 0 (\<lambda>(k :: nat) (v :: nat). Some 5) (\<lambda>t d. Some (t + int d)) (pool_new 10) backend_new = Some (pool, b)
    \<and> ttl_run pool b [(1, TSet 7 8), (3, TGet 7), (6, TGet 7), (7, TSet 7 9), (8, TGet 7)] = Some [Done, Value (Some 8), Value None, Done, Value (Some 9)]"
proof -
  obtain b where b: "add_ttl_policy 0 (\<lambda>(k :: nat) (v :: nat). Some 5) (\<lambda>t d. Some (t + int d)) (pool_new 10) backend_new = Some (pool_new 10, b)"
    using add_ttl_policy_new by blast
  let ?p = "\<lparr>ttl_provider = \<lambda>(k :: nat) (v :: nat). Some 5, ttl_checked_add = \<lambda>t d. Some (t + int d), ttl_expiration = ah_new\<rparr>"
  let ?cs = "[(1, TSet 7 8), (3, TGet 7), (6, TGet 7), (7, TSet 7 9), (8, TGet 7)]"
  have "timely ?p Map.empty ?cs" "deadline_run ?p Map.empty ?cs = [Done, Value (Some 8), Value None, Done, Value (Some 9)]"
    by (auto simp: live_def overdue_def restrict_map_def)
  then have "ttl_run (pool_new 10) b ?cs = Some [Done, Value (Some 8), Value None, Done, Value (Some 9)]"
    using ttl_cache_refines [OF _ b, of ?cs] by auto
  then show ?thesis using b by blast
qed

text \<open>
  C39. Setting a key whose earlier value has passed its deadline without being looked up since loses the new value:
  the removal of the expired entry is performed after the new value has been stored. A lookup at the same
  instant finds nothing, although the new value may be cached for a positive duration or for ever.
\<close>

theorem ttl_set_overdue_lost:
  assumes "\<And>now d t. checked_add now d = Some t \<Longrightarrow> t = now + int d"
    and "add_ttl_policy t0 provider checked_add pool backend_new = Some (pool', b)"
    and "provider k v1 = Some d" "0 < d" "checked_add t1 d = Some t" "t \<le> t2"
  shows "ttl_run pool' b [(t1, TSet k v1), (t2, TSet k v2), (t2, TGet k)] = Some [Done, Done, Value None]"
  by (subst ttl_new_cache_refines [OF assms(1,2)])
    (use assms(3-6) in \<open>auto simp: live_def overdue_def restrict_map_def\<close>)

theorem ttl_set_overdue_lost_witness:
  "\<exists>pool b. add_ttl_policy 0 (\<lambda>(k :: nat) (v :: nat). Some 5) (\<lambda>t d. Some (t + int d)) (pool_new 10) backend_new = Some (pool, b)
    \<and> ttl_run pool b [(1, TSet 7 8), (9, TSet 7 4), (9, TGet 7)] = Some [Done, Done, Value None]"
proof -
  obtain b where b: "add_ttl_policy 0 (\<lambda>(k :: nat) (v :: nat). Some 5) (\<lambda>t d. Some (t + int d)) (pool_new 10) backend_new = Some (pool_new 10, b)"
    using add_ttl_policy_new by blast
  have "ttl_run (pool_new 10) b [(1, TSet 7 8), (9, TSet 7 4), (9, TGet 7)] = Some [Done, Done, Value None]"
    by (rule ttl_set_overdue_lost [OF _ b]) auto
  then show ?thesis using b by blast
qed

end
