(* ===== verification/Lru_Pool.thy ===== *)
theory Lru_Pool
  imports Cache_Facts
begin

text \<open>
  The clean-up loop of the resource pool (\<^verbatim>\<open>cache_system/src/backend/policy/lru.rs\<close>): choosing the least recently
  used keys of all members by a tournament between their iterators, and evicting them member by member. The
  loop runs in the background; the points where it holds no lock are the phases of a state machine, with
  calls on the caches of the pool in between.
\<close>

section \<open>The tournament\<close>

text \<open>
  A member's iterator with its current candidate: last use, size and key. The items still to come are those
  of the heap's iterator, a missing item stands for its panic.
\<close>

record 'k EvictionCandidateIter =
  ec_id :: string
  ec_it :: "(Time \<times> nat \<times> 'k) option list"
  ec_current :: "(Time \<times> nat \<times> 'k) option"

definition could_remove :: "('k, nat, Time) AddressableHeap \<Rightarrow> (Time \<times> nat \<times> 'k) option list" where
  "could_remove last_used = map (map_option (\<lambda>(k, s, t). (t, s, k))) (ah_iter last_used)"

fun candidate_iter_next :: "'a option list \<Rightarrow> ('a option list \<times> 'a option) option" where
  "candidate_iter_next [] = Some ([], None)"
| "candidate_iter_next (None # it) = None"
| "candidate_iter_next (Some x # it) = Some (it, Some x)"

definition candidate_new :: "string \<Rightarrow> (Time \<times> nat \<times> 'k) option list \<Rightarrow> 'k EvictionCandidateIter option" where
  "candidate_new i it = do { (it, current) \<leftarrow> candidate_iter_next it; Some \<lparr>ec_id = i, ec_it = it, ec_current = current\<rparr> }"

definition candidate_next :: "'k EvictionCandidateIter \<Rightarrow> ('k EvictionCandidateIter \<times> (Time \<times> nat \<times> 'k) option) option" where
  "candidate_next self = do { (it, tmp) \<leftarrow> candidate_iter_next (ec_it self); Some (self\<lparr>ec_it := it, ec_current := tmp\<rparr>, ec_current self) }"

text \<open>The order of the tournament, greatest first.\<close>

definition candidate_greater :: "'k EvictionCandidateIter \<Rightarrow> 'k EvictionCandidateIter \<Rightarrow> bool" where
  "candidate_greater self other = (case (ec_current self, ec_current other) of
      (None, None) \<Rightarrow> ec_id self < ec_id other
    | (Some _, None) \<Rightarrow> True
    | (None, Some _) \<Rightarrow> False
    | (Some (t1, _, _), Some (t2, _, _)) \<Rightarrow> (t1, ec_id self) < (t2, ec_id other))"

text \<open>The binary heap as the list of its elements.\<close>

fun heap_best :: "'k EvictionCandidateIter \<Rightarrow> 'k EvictionCandidateIter list \<Rightarrow> 'k EvictionCandidateIter" where
  "heap_best c [] = c"
| "heap_best c (d # cs) = heap_best (if candidate_greater d c then d else c) cs"

definition binary_heap_pop :: "'k EvictionCandidateIter list \<Rightarrow> ('k EvictionCandidateIter \<times> 'k EvictionCandidateIter list) option" where
  "binary_heap_pop cs = (case cs of [] \<Rightarrow> None | c # cs' \<Rightarrow> Some (heap_best c cs', remove1 (heap_best c cs') cs))"

text \<open>\<^verbatim>\<open>victims.entry(id).or_default().push(k)\<close>\<close>

definition push_victim :: "string \<Rightarrow> 'k \<Rightarrow> (string \<times> 'k list) list \<Rightarrow> (string \<times> 'k list) list" where
  "push_victim i k victims = (if i \<in> fst ` set victims
     then map (\<lambda>(j, ks). if j = i then (j, ks @ [k]) else (j, ks)) victims
     else insort_key fst (i, [k]) victims)"

definition candidates_left :: "'k EvictionCandidateIter list \<Rightarrow> nat" where
  "candidates_left cs = sum_list (map (\<lambda>c. length (ec_it c) + (if ec_current c = None then 0 else 1)) cs)"

lemma heap_best_in: "heap_best c cs \<in> set (c # cs)"
proof (induction cs arbitrary: c)
  case (Cons d cs)
  then show ?case using Cons.IH [of "if candidate_greater d c then d else c"] by (auto split: if_splits)
qed simp

lemma candidate_iter_next_length: "candidate_iter_next it = Some (it', x) \<Longrightarrow> length it' + (if x = None then 0 else 1) = length it"
  by (cases it rule: candidate_iter_next.cases) auto

lemma candidates_left_next:
  assumes "binary_heap_pop cs = Some (c, rest)" "candidate_next c = Some (c', Some x)"
  shows "candidates_left (c' # rest) < candidates_left cs"
proof -
  have "c \<in> set cs" "rest = remove1 c cs"
    using assms(1) heap_best_in by (auto simp: binary_heap_pop_def split: list.splits)
  then have "sum_list (map f cs) = f c + (sum_list (map f rest) :: nat)" for f by (simp add: sum_list_map_remove1)
  then show ?thesis
    using assms(2) candidate_iter_next_length [of "ec_it c"] by (auto simp: candidates_left_def candidate_next_def split: bind_splits)
qed

function select_loop :: "nat \<Rightarrow> nat \<Rightarrow> 'k EvictionCandidateIter list \<Rightarrow> (string \<times> 'k list) list \<Rightarrow> (string \<times> 'k list) list option" where
  "select_loop limit current heap victims =
     (if current > limit
      then (case binary_heap_pop heap of
          None \<Rightarrow> None
        | Some (candidate, heap) \<Rightarrow>
            (case candidate_next candidate of
               None \<Rightarrow> None
             | Some (candidate, None) \<Rightarrow> Some victims
             | Some (candidate, Some (t, s, k)) \<Rightarrow> do {
                 current \<leftarrow> checked_sub current s;
                 select_loop limit current (candidate # heap) (push_victim (ec_id candidate) k victims)
               }))
      else Some victims)"
  by pat_completeness auto
termination
  by (relation "measure (\<lambda>(_, _, heap, _). candidates_left heap)") (auto intro: candidates_left_next)

declare select_loop.simps [simp del]

section \<open>The clean-up loop\<close>

text \<open>
  The phases: at the top of the loop; usage read, no lock held; asleep; victims chosen, to be removed member
  by member.
\<close>

datatype 'k Phase = Top | Checked nat | Idle | Deleting "(string \<times> 'k list) list"

record ('k, 'v) CacheSystem =
  sy_pool :: "'k ResourcePool"
  sy_backends :: "('k, 'v) PolicyBackend list"
  sy_phase :: "'k Phase"

fun candidates :: "(string \<times> ('k, nat, Time) AddressableHeap) list \<Rightarrow> 'k EvictionCandidateIter list option" where
  "candidates [] = Some []"
| "candidates ((i, member) # members) = do {
     c \<leftarrow> candidate_new i (could_remove member);
     cs \<leftarrow> candidates members;
     Some (c # cs)
   }"

text \<open>Evicting keys of one member: its callback handle leads to the cache it belongs to, if there is one still.\<close>

fun evict_member :: "Time \<Rightarrow> string \<Rightarrow> 'k::linorder list \<Rightarrow> 'k ResourcePool \<Rightarrow> ('k, 'v) PolicyBackend list \<Rightarrow>
    ('k ResourcePool \<times> ('k, 'v) PolicyBackend list) option" where
  "evict_member now i ks pool [] = Some (pool, [])"
| "evict_member now i ks pool (b # bs) =
     (if \<exists>p. Lru p \<in> set (pb_subscribers b) \<and> lru_member p = i
      then map_option (\<lambda>(pool, b). (pool, b # bs)) (member_remove_keys now pool b ks)
      else map_option (apsnd ((#) b)) (evict_member now i ks pool bs))"

definition clean_up_step :: "Time \<Rightarrow> ('k::linorder, 'v) CacheSystem \<Rightarrow> ('k, 'v) CacheSystem option" where
  "clean_up_step now sy = (case sy_phase sy of
      Top \<Rightarrow> Some (sy\<lparr>sy_phase := Checked (rp_current (sy_pool sy))\<rparr>)
    | Checked current \<Rightarrow>
        if current \<le> rp_limit (sy_pool sy) then Some (sy\<lparr>sy_phase := Idle\<rparr>)
        else if rp_members (sy_pool sy) = [] then Some (sy\<lparr>sy_phase := Top\<rparr>)
        else do {
          heap \<leftarrow> candidates (rp_members (sy_pool sy));
          victims \<leftarrow> select_loop (rp_limit (sy_pool sy)) current heap [];
          Some (sy\<lparr>sy_phase := Deleting victims\<rparr>)
        }
    | Idle \<Rightarrow>
        if rp_notify (sy_pool sy) then Some (sy\<lparr>sy_pool := (sy_pool sy)\<lparr>rp_notify := False\<rparr>, sy_phase := Top\<rparr>)
        else Some sy
    | Deleting [] \<Rightarrow> Some (sy\<lparr>sy_phase := Top\<rparr>)
    | Deleting ((i, ks) # victims) \<Rightarrow> do {
        (pool, bs) \<leftarrow> evict_member now i ks (sy_pool sy) (sy_backends sy);
        Some (sy\<lparr>sy_pool := pool, sy_backends := bs, sy_phase := Deleting victims\<rparr>)
      })"

text \<open>The loop left to itself for \<open>n\<close> steps, the clock read anew each time.\<close>

fun clean_up_run :: "(nat \<Rightarrow> Time) \<Rightarrow> nat \<Rightarrow> ('k::linorder, 'v) CacheSystem \<Rightarrow> ('k, 'v) CacheSystem option" where
  "clean_up_run clock 0 sy = Some sy"
| "clean_up_run clock (Suc n) sy = do { sy \<leftarrow> clean_up_step (clock 0) sy; clean_up_run (\<lambda>i. clock (Suc i)) n sy }"

section \<open>Dropping a cache\<close>

text \<open>\<^verbatim>\<open>Drop for LruPolicy\<close>: all keys of the member are taken out and their sizes given back to the pool.\<close>

function drop_loop :: "nat \<Rightarrow> ('k, nat, Time) AddressableHeap \<Rightarrow> nat option" where
  "drop_loop accu h = (case ah_pop h of
      None \<Rightarrow> None
    | Some (_, None) \<Rightarrow> Some accu
    | Some (h', Some (_, s, _)) \<Rightarrow> (case resource_add accu s of None \<Rightarrow> None | Some accu' \<Rightarrow> drop_loop accu' h'))"
  by pat_completeness auto
termination
  by (relation "measure (\<lambda>(_, h). length (queue h))")
    (auto simp: ah_pop_def split: prod.splits option.splits bind_splits elim!: btree_pop_first.elims)

declare drop_loop.simps [simp del]

definition lru_drop :: "('k, 'v) LruPolicy \<Rightarrow> 'k ResourcePool \<Rightarrow> 'k ResourcePool option" where
  "lru_drop self pool = do {
     h \<leftarrow> pool_last_used (lru_member self) pool;
     size_total \<leftarrow> drop_loop 0 h;
     pool \<leftarrow> pool_remove size_total pool;
     Some (pool\<lparr>rp_members := filter (\<lambda>(i, _). i \<noteq> lru_member self) (rp_members pool)\<rparr>)
   }"

fun drop_subscribers :: "('k, 'v) Subscriber list \<Rightarrow> 'k ResourcePool \<Rightarrow> 'k ResourcePool option" where
  "drop_subscribers [] pool = Some pool"
| "drop_subscribers (Lru p # ss) pool = do { pool \<leftarrow> lru_drop p pool; drop_subscribers ss pool }"
| "drop_subscribers (_ # ss) pool = drop_subscribers ss pool"


section \<open>Choosing victims\<close>

text \<open>The items of the iterators: what a member has still to offer.\<close>

definition candidate_items :: "'k EvictionCandidateIter \<Rightarrow> (Time \<times> nat \<times> 'k) list" where
  "candidate_items c = (case ec_current c of None \<Rightarrow> [] | Some x \<Rightarrow> x # map the (ec_it c))"

text \<open>A candidate in order: no item panics, the current one is missing only at the end, and times ascend.\<close>

definition candidate_ok :: "'k EvictionCandidateIter \<Rightarrow> bool" where
  "candidate_ok c \<longleftrightarrow> None \<notin> set (ec_it c) \<and> (ec_current c = None \<longrightarrow> ec_it c = []) \<and> sorted (map fst (candidate_items c))"

lemma candidate_next_ok:
  assumes "candidate_ok c"
  shows "candidate_items c = [] \<Longrightarrow> \<exists>c'. candidate_next c = Some (c', None)"
    and "candidate_items c = x # xs \<Longrightarrow> \<exists>c'. candidate_next c = Some (c', Some x) \<and> candidate_ok c' \<and> ec_id c' = ec_id c \<and> candidate_items c' = xs"
proof -
  show "candidate_items c = [] \<Longrightarrow> \<exists>c'. candidate_next c = Some (c', None)"
    using assms by (auto simp: candidate_ok_def candidate_items_def candidate_next_def split: option.splits)
  assume x: "candidate_items c = x # xs"
  then have c: "ec_current c = Some x" "map the (ec_it c) = xs" by (auto simp: candidate_items_def split: option.splits)
  show "\<exists>c'. candidate_next c = Some (c', Some x) \<and> candidate_ok c' \<and> ec_id c' = ec_id c \<and> candidate_items c' = xs"
  proof (cases "ec_it c")
    case Nil
    then show ?thesis using c by (simp add: candidate_next_def candidate_ok_def candidate_items_def)
  next
    case (Cons y it)
    then obtain z where "y = Some z" using assms by (cases y) (auto simp: candidate_ok_def)
    then show ?thesis using Cons c x assms by (auto simp: candidate_next_def candidate_ok_def candidate_items_def)
  qed
qed

text \<open>The winner of the tournament has no better rival.\<close>

definition rank :: "'k EvictionCandidateIter \<Rightarrow> (Time \<times> string) option" where
  "rank c = map_option (\<lambda>(t, _, _). (t, ec_id c)) (ec_current c)"

definition at_least_as_good :: "'k EvictionCandidateIter \<Rightarrow> 'k EvictionCandidateIter \<Rightarrow> bool" where
  "at_least_as_good c d \<longleftrightarrow> (\<forall>r. rank d = Some r \<longrightarrow> (\<exists>r'. rank c = Some r' \<and> r' \<le> r))"

lemma at_least_as_good_trans: "at_least_as_good a b \<Longrightarrow> at_least_as_good b c \<Longrightarrow> at_least_as_good a c"
  by (fastforce simp: at_least_as_good_def)

lemma candidate_greater_good: "at_least_as_good (if candidate_greater d c then d else c) c \<and> at_least_as_good (if candidate_greater d c then d else c) d"
  by (auto simp: at_least_as_good_def candidate_greater_def rank_def simp del: less_prod_simp less_eq_prod_simp split: option.splits)

lemma heap_best_good: "d \<in> set (c # cs) \<Longrightarrow> at_least_as_good (heap_best c cs) d"
proof (induction cs arbitrary: c d)
  case Nil
  then show ?case by (simp add: at_least_as_good_def)
next
  case (Cons e cs)
  let ?c = "if candidate_greater e c then e else c"
  have "at_least_as_good (heap_best ?c cs) ?c" by (rule Cons.IH) simp
  then show ?case
    using Cons.prems Cons.IH [of d ?c] candidate_greater_good [of e c] at_least_as_good_trans by (metis heap_best.simps(2) set_ConsD list.set_intros(2))
qed

lemma binary_heap_pop_good:
  assumes "cs \<noteq> []"
  obtains c where "binary_heap_pop cs = Some (c, remove1 c cs)" "c \<in> set cs" "\<And>d. d \<in> set cs \<Longrightarrow> at_least_as_good c d"
  using assms heap_best_in heap_best_good by (cases cs) (force simp: binary_heap_pop_def)+


text \<open>What the members have still to offer, by id.\<close>

definition items_of :: "'k EvictionCandidateIter list \<Rightarrow> string \<Rightarrow> (Time \<times> nat \<times> 'k) list" where
  "items_of cs i = (case find (\<lambda>c. ec_id c = i) cs of None \<Rightarrow> [] | Some c \<Rightarrow> candidate_items c)"

definition candidates_ok :: "nat \<Rightarrow> 'k EvictionCandidateIter list \<Rightarrow> bool" where
  "candidates_ok limit cs \<longleftrightarrow> cs \<noteq> [] \<and> distinct (map ec_id cs)
     \<and> (\<forall>c \<in> set cs. candidate_ok c \<and> (\<forall>(t, s, k) \<in> set (candidate_items c). s \<le> limit))"

lemma items_of_Cons: "items_of (c # cs) i = (if ec_id c = i then candidate_items c else items_of cs i)"
  by (simp add: items_of_def)

lemma items_of_member: "distinct (map ec_id cs) \<Longrightarrow> c \<in> set cs \<Longrightarrow> items_of cs (ec_id c) = candidate_items c"
  by (induction cs) (auto simp: items_of_def)

lemma items_of_remove1: "distinct (map ec_id cs) \<Longrightarrow> c \<in> set cs \<Longrightarrow> i \<noteq> ec_id c \<Longrightarrow> items_of (remove1 c cs) i = items_of cs i"
  by (induction cs) (auto simp: items_of_def)

lemma items_of_replace:
  "distinct (map ec_id cs) \<Longrightarrow> c \<in> set cs \<Longrightarrow> ec_id c' = ec_id c \<Longrightarrow> items_of (c' # remove1 c cs) = (items_of cs)(ec_id c := candidate_items c')"
  by (rule ext) (simp add: items_of_Cons items_of_remove1)

lemma items_of_in: "x \<in> set (items_of cs i) \<Longrightarrow> \<exists>c \<in> set cs. ec_id c = i \<and> x \<in> set (candidate_items c)"
  by (auto simp: items_of_def dest!: sym [THEN find_SomeD] find_SomeD split: option.splits)

lemma candidates_ok_replace:
  assumes "candidates_ok limit cs" "c \<in> set cs" "candidate_ok c'" "ec_id c' = ec_id c" "set (candidate_items c') \<subseteq> set (candidate_items c)"
  shows "candidates_ok limit (c' # remove1 c cs)"
proof -
  have d: "distinct (map ec_id cs)" using assms(1) by (simp add: candidates_ok_def)
  then have "distinct (map ec_id (remove1 c cs))" by (induction cs) (auto dest: in_set_remove1 [THEN iffD1, rotated] notin_set_remove1)
  moreover have "ec_id c \<notin> ec_id ` set (remove1 c cs)"
    using d assms(2) by (induction cs) (auto simp: image_iff)
  moreover have "candidate_ok e \<and> (\<forall>(t, s, k) \<in> set (candidate_items e). s \<le> limit)" if e: "e \<in> set (c' # remove1 c cs)" for e
  proof (cases "e = c'")
    case True
    have "\<forall>(t, s, k) \<in> set (candidate_items c). s \<le> limit" using assms(1,2) by (simp add: candidates_ok_def)
    then show ?thesis using True assms(3,5) by blast
  next
    case False
    then have "e \<in> set cs" using e set_remove1_subset [of c cs] by auto
    then show ?thesis using assms(1) by (simp add: candidates_ok_def)
  qed
  ultimately show ?thesis using assms(4) by (simp add: candidates_ok_def)
qed

text \<open>The victims in the order they are chosen, with the id of the member, and their sizes.\<close>

type_synonym 'k choice = "string \<times> Time \<times> nat \<times> 'k"

definition push_choice :: "'k choice \<Rightarrow> (string \<times> 'k list) list \<Rightarrow> (string \<times> 'k list) list" where
  "push_choice = (\<lambda>(i, t, s, k). push_victim i k)"

definition choice_size :: "'k choice list \<Rightarrow> nat" where
  "choice_size xs = sum_list (map (\<lambda>(i, t, s, k). s) xs)"

lemma choice_size_simps [simp]: "choice_size [] = 0" "choice_size ((i, t, s, k) # xs) = s + choice_size xs"
  by (simp_all add: choice_size_def)

definition choices_of :: "string \<Rightarrow> 'k choice list \<Rightarrow> (Time \<times> nat \<times> 'k) list" where
  "choices_of i xs = map snd (filter (\<lambda>x. fst x = i) xs)"

definition chosen :: "nat \<Rightarrow> nat \<Rightarrow> 'k EvictionCandidateIter list \<Rightarrow> 'k choice list \<Rightarrow> (string \<Rightarrow> (Time \<times> nat \<times> 'k) list) \<Rightarrow> bool" where
  "chosen limit current cs xs rest \<longleftrightarrow> (\<forall>i. items_of cs i = choices_of i xs @ rest i)
     \<and> choice_size xs \<le> current \<and> (current - choice_size xs \<le> limit \<or> (\<forall>i. rest i = []))
     \<and> (xs \<noteq> [] \<longrightarrow> current - choice_size (butlast xs) > limit) \<and> sorted (map (\<lambda>(i, t, s, k). (t, i)) xs)
     \<and> (\<forall>(i, t, s, k) \<in> set xs. \<forall>j. \<forall>(t', s', k') \<in> set (rest j). (t, i) \<le> (t', j))"

lemma candidate_rank: "candidate_ok c \<Longrightarrow> (t, s, k) \<in> set (candidate_items c) \<Longrightarrow> \<exists>t' \<le> t. rank c = Some (t', ec_id c)"
  by (cases "ec_current c") (auto simp: candidate_ok_def candidate_items_def rank_def, metis fst_conv)

lemma chosen_Cons:
  assumes "chosen limit (current - s) (c' # remove1 c cs) xs rest" "current > limit" "s \<le> current"
    and "distinct (map ec_id cs)" "c \<in> set cs" "ec_id c' = ec_id c"
    and "candidate_items c = (t, s, k) # candidate_items c'"
    and "\<And>d. d \<in> set cs \<Longrightarrow> at_least_as_good c d" "\<And>d. d \<in> set cs \<Longrightarrow> candidate_ok d"
  shows "chosen limit current cs ((ec_id c, t, s, k) # xs) rest"
proof -
  have items: "items_of (c' # remove1 c cs) = (items_of cs)(ec_id c := candidate_items c')"
    by (rule items_of_replace [OF assms(4-6)])
  have here: "items_of cs (ec_id c) = (t, s, k) # candidate_items c'"
    using items_of_member [OF assms(4,5)] assms(7) by simp
  have split: "((items_of cs)(ec_id c := candidate_items c')) i = choices_of i xs @ rest i" for i
    using assms(1) items by (simp add: chosen_def)
  have all: "items_of cs i = choices_of i ((ec_id c, t, s, k) # xs) @ rest i" for i
    using split [of i] here by (auto simp: choices_of_def)
  have "rank c = Some (t, ec_id c)" using assms(7) by (auto simp: rank_def candidate_items_def split: option.splits)
  then have least: "(t, ec_id c) \<le> (t', j)" if "(t', s', k') \<in> set (items_of cs j)" for j t' s' k'
  proof -
    from items_of_in [OF that] obtain d where d: "d \<in> set cs" "ec_id d = j" "(t', s', k') \<in> set (candidate_items d)" by blast
    obtain t'' where "t'' \<le> t'" "rank d = Some (t'', j)" using candidate_rank [OF assms(9) [OF d(1)] d(3)] d(2) by blast
    then show ?thesis using assms(8) [OF d(1)] \<open>rank c = Some (t, ec_id c)\<close> by (auto simp: at_least_as_good_def)
  qed
  have first: "(t, ec_id c) \<le> (t', j)" if "(t', s', k') \<in> set (rest j)" for j t' s' k'
    using least [of t' s' k' j] all [of j] that by simp
  have "(t', s', k') \<in> set (items_of cs j)" if "(j, t', s', k') \<in> set xs" for j t' s' k'
    unfolding all [of j] using that by (force simp: choices_of_def)
  then have ahead: "\<forall>x \<in> set (map (\<lambda>(i, t, s, k). (t, i)) xs). (t, ec_id c) \<le> x" using least by fastforce
  have "choice_size xs \<le> current - s" "current - s - choice_size xs \<le> limit \<or> (\<forall>i. rest i = [])"
      "xs \<noteq> [] \<Longrightarrow> current - s - choice_size (butlast xs) > limit" "sorted (map (\<lambda>(i, t, s, k). (t, i)) xs)"
      "\<forall>(i, t, s, k) \<in> set xs. \<forall>j. \<forall>(t', s', k') \<in> set (rest j). (t, i) \<le> (t', j)"
    using assms(1) by (simp_all add: chosen_def)
  then show ?thesis
    unfolding chosen_def using all first ahead assms(2,3) by (auto simp del: less_eq_prod_simp)
qed

lemma select_loop_chosen:
  assumes "candidates_ok limit cs"
  shows "\<exists>xs rest. select_loop limit current cs victims = Some (fold push_choice xs victims) \<and> chosen limit current cs xs rest"
  using assms
proof (induction "candidates_left cs" arbitrary: current cs victims rule: less_induct)
  case less
  have nil: "chosen limit current cs [] (items_of cs)" if "current \<le> limit \<or> (\<forall>i. items_of cs i = [])"
    using that by (auto simp: chosen_def choices_of_def choice_size_def)
  show ?case
  proof (cases "current > limit")
    case False
    then show ?thesis using nil by (intro exI [of _ "[]"] exI [of _ "items_of cs"]) (simp add: select_loop.simps)
  next
    case True
    have d: "distinct (map ec_id cs)" and ok: "\<And>c. c \<in> set cs \<Longrightarrow> candidate_ok c"
      using less.prems by (auto simp: candidates_ok_def)
    obtain c where c: "binary_heap_pop cs = Some (c, remove1 c cs)" "c \<in> set cs" "\<And>d. d \<in> set cs \<Longrightarrow> at_least_as_good c d"
      using less.prems binary_heap_pop_good by (auto simp: candidates_ok_def)
    show ?thesis
    proof (cases "candidate_items c")
      case Nil
      obtain c' where "candidate_next c = Some (c', None)" using candidate_next_ok(1) [OF ok [OF c(2)] Nil] by blast
      then have "select_loop limit current cs victims = Some victims" using True c(1) by (subst select_loop.simps) simp
      moreover have "rank c = None" using Nil by (simp add: candidate_items_def rank_def split: option.splits)
      then have "candidate_items e = []" if "e \<in> set cs" for e
        using c(3) [OF that] by (auto simp: at_least_as_good_def rank_def candidate_items_def split: option.splits)
      then have "\<forall>i. items_of cs i = []" using items_of_in by (metis length_greater_0_conv length_pos_if_in_set list.set_sel(1) less_irrefl_nat)
      ultimately show ?thesis using nil by (intro exI [of _ "[]"] exI [of _ "items_of cs"]) simp
    next
      case (Cons x ys)
      obtain t s k where x: "x = (t, s, k)" by (cases x)
      obtain c' where c': "candidate_next c = Some (c', Some (t, s, k))" "candidate_ok c'" "ec_id c' = ec_id c" "candidate_items c' = ys"
        using candidate_next_ok(2) [OF ok [OF c(2)] Cons] x by blast
      have "s \<le> limit" using less.prems c(2) Cons x by (fastforce simp: candidates_ok_def)
      then have s: "s \<le> current" "s \<le> limit" using True by simp_all
      let ?cs = "c' # remove1 c cs"
      have "candidates_ok limit ?cs" by (rule candidates_ok_replace [OF less.prems c(2) c'(2,3)]) (use c'(4) Cons in auto)
      then obtain xs rest where r: "select_loop limit (current - s) ?cs (push_victim (ec_id c) k victims) =
            Some (fold push_choice xs (push_victim (ec_id c) k victims))" "chosen limit (current - s) ?cs xs rest"
        using less.hyps [OF candidates_left_next [OF c(1) c'(1)]] by blast
      have "select_loop limit current cs victims = Some (fold push_choice ((ec_id c, t, s, k) # xs) victims)"
        using True c(1) c'(1,3) s(1) r(1) by (subst select_loop.simps) (simp add: push_choice_def)
      moreover have "chosen limit current cs ((ec_id c, t, s, k) # xs) rest"
        by (rule chosen_Cons [OF r(2) True s(1)]) (use d c Cons x c' ok less.prems in \<open>auto simp: candidates_ok_def\<close>)
      ultimately show ?thesis by blast
    qed
  qed
qed


section \<open>Candidates of a pool\<close>

definition heap_items :: "('k, nat, Time) AddressableHeap \<Rightarrow> (Time \<times> nat \<times> 'k) list" where
  "heap_items h = map (\<lambda>(k, s, t). (t, s, k)) (the (those (ah_iter h)))"

lemma those_SomeD: "those xs = Some ys \<Longrightarrow> xs = map Some ys"
  by (induction xs arbitrary: ys) (auto split: option.splits)

lemma heap_items_exact:
  assumes "heap_ok h"
  shows "could_remove h = map Some (heap_items h)"
    and "set (heap_items h) = {(t, s, k). key_to_order_and_value h k = Some (s, t)}"
    and "sorted (map fst (heap_items h))" "distinct (map (snd \<circ> snd) (heap_items h))"
proof -
  obtain xs where xs: "those (ah_iter h) = Some xs" "set xs = {(k, v, ord). key_to_order_and_value h k = Some (v, ord)}"
      "sorted_wrt (\<lambda>(k, v, ord) (k', v', o'). (ord, k) < (o', k')) xs"
    using ah_iter_exact [OF assms] by blast
  have items: "heap_items h = map (\<lambda>(k, s, t). (t, s, k)) xs" by (simp add: heap_items_def xs(1))
  show "could_remove h = map Some (heap_items h)"
    using those_SomeD [OF xs(1)] by (simp add: could_remove_def items case_prod_beta comp_def)
  show s: "set (heap_items h) = {(t, s, k). key_to_order_and_value h k = Some (s, t)}"
    unfolding items set_map xs(2) by (auto simp: image_iff)
  have w: "sorted_wrt (\<lambda>x y. (fst x, snd (snd x)) < (fst y, snd (snd y))) (heap_items h)"
    unfolding items sorted_wrt_map using xs(3) by (rule sorted_wrt_mono_rel [rotated]) (auto simp: case_prod_beta)
  then show "sorted (map fst (heap_items h))"
    unfolding sorted_map by (rule sorted_wrt_mono_rel [rotated]) auto
  have "distinct (heap_items h)"
    using w unfolding sorted_wrt_map [of "(<)" "\<lambda>x. (fst x, snd (snd x))", symmetric] strict_sorted_iff by (auto simp: distinct_map)
  moreover have "inj_on (snd \<circ> snd) (set (heap_items h))" unfolding s by (auto simp: inj_on_def)
  ultimately show "distinct (map (snd \<circ> snd) (heap_items h))" by (simp add: distinct_map)
qed

text \<open>The usage of a member without some of its keys.\<close>

definition usage_except :: "('k, nat, Time) AddressableHeap \<Rightarrow> 'k set \<Rightarrow> nat" where
  "usage_except h A = (\<Sum>k \<in> dom (key_to_order_and_value h) - A. fst (the (key_to_order_and_value h k)))"

lemma usage_except_empty [simp]: "usage_except h {} = heap_usage h"
  by (simp add: usage_except_def heap_usage_def)

lemma usage_except_items:
  assumes "heap_ok h" "heap_items h = xs @ ys"
  shows "usage_except h (set (map (snd \<circ> snd) xs)) = sum_list (map (fst \<circ> snd) ys)"
proof -
  let ?m = "key_to_order_and_value h"
  have d: "distinct (map (snd \<circ> snd) ys)" "set (map (snd \<circ> snd) xs) \<inter> set (map (snd \<circ> snd) ys) = {}"
    using heap_items_exact(4) [OF assms(1)] unfolding assms(2) by auto
  have m: "?m k = Some (s, t)" if "(t, s, k) \<in> set ys" for t s k
  proof -
    have "(t, s, k) \<in> set (heap_items h)" using that by (simp add: assms(2))
    then show ?thesis by (simp add: heap_items_exact(2) [OF assms(1)])
  qed
  have "dom ?m = set (map (snd \<circ> snd) (heap_items h))"
    unfolding set_map heap_items_exact(2) [OF assms(1)] by (auto simp: image_iff)
  then have "dom ?m - set (map (snd \<circ> snd) xs) = set (map (snd \<circ> snd) ys)" using d(2) unfolding assms(2) by auto
  then have "usage_except h (set (map (snd \<circ> snd) xs)) = (\<Sum>k \<in> set (map (snd \<circ> snd) ys). fst (the (?m k)))"
    unfolding usage_except_def by simp
  also have "\<dots> = sum_list (map (\<lambda>k. fst (the (?m k))) (map (snd \<circ> snd) ys))"
    by (rule sum_list_distinct_conv_sum_set [OF d(1), symmetric])
  also have "\<dots> = sum_list (map (fst \<circ> snd) ys)" using m by (intro arg_cong [of _ _ sum_list]) auto
  finally show ?thesis .
qed

lemma candidate_new_ok:
  assumes "could_remove h = map Some xs" "sorted (map fst xs)"
  shows "\<exists>c. candidate_new i (could_remove h) = Some c \<and> ec_id c = i \<and> candidate_items c = xs \<and> candidate_ok c"
  using assms by (cases xs) (auto simp: candidate_new_def candidate_items_def candidate_ok_def comp_def)

lemma candidates_exact:
  assumes "distinct (map fst ms)" "\<forall>m \<in> set ms. heap_ok (snd m)"
  shows "\<exists>cs. candidates ms = Some cs \<and> map ec_id cs = map fst ms \<and> (\<forall>c \<in> set cs. candidate_ok c)
    \<and> (\<forall>i. items_of cs i = (case map_of ms i of None \<Rightarrow> [] | Some h \<Rightarrow> heap_items h))"
  using assms
proof (induction ms)
  case Nil
  then show ?case by (simp add: items_of_def)
next
  case (Cons m ms)
  obtain i h where m: "m = (i, h)" by (cases m)
  have h: "heap_ok h" using Cons.prems(2) m by simp
  obtain c where "candidate_new i (could_remove h) = Some c" "ec_id c = i" "candidate_items c = heap_items h" "candidate_ok c"
    using candidate_new_ok [OF heap_items_exact(1,3) [OF h]] by blast
  moreover obtain cs where "candidates ms = Some cs" "map ec_id cs = map fst ms" "\<forall>c \<in> set cs. candidate_ok c"
      "\<forall>i. items_of cs i = (case map_of ms i of None \<Rightarrow> [] | Some h \<Rightarrow> heap_items h)"
    using Cons by fastforce
  ultimately show ?case by (simp add: m items_of_Cons)
qed

lemma pool_candidates:
  assumes "pool_ok pool" "rp_members pool \<noteq> []"
  shows "\<exists>cs. candidates (rp_members pool) = Some cs \<and> candidates_ok (rp_limit pool) cs
    \<and> (\<forall>i. items_of cs i = (case pool_last_used i pool of None \<Rightarrow> [] | Some h \<Rightarrow> heap_items h))"
proof -
  have d: "distinct (map fst (rp_members pool))" and ok: "\<forall>m \<in> set (rp_members pool). heap_ok (snd m)"
    using assms(1) by (auto simp: pool_ok_def)
  obtain cs where cs: "candidates (rp_members pool) = Some cs" "map ec_id cs = map fst (rp_members pool)" "\<forall>c \<in> set cs. candidate_ok c"
      "\<And>i. items_of cs i = (case pool_last_used i pool of None \<Rightarrow> [] | Some h \<Rightarrow> heap_items h)"
    using candidates_exact [OF d ok] by (auto simp: pool_last_used_def)
  have "s \<le> rp_limit pool" if "c \<in> set cs" "(t, s, k) \<in> set (candidate_items c)" for c t s k
  proof -
    have "(t, s, k) \<in> set (items_of cs (ec_id c))" using items_of_member [of cs c] that cs(2) d by simp
    then obtain h where h: "pool_last_used (ec_id c) pool = Some h" "(t, s, k) \<in> set (heap_items h)"
      unfolding cs(4) by (cases "pool_last_used (ec_id c) pool") auto
    then have "key_to_order_and_value h k = Some (s, t)" using heap_items_exact(2) [OF pool_ok_member(1) [OF assms(1) h(1)]] by auto
    then show ?thesis using pool_ok_member(2) [OF assms(1) h(1)] by blast
  qed
  then have "candidates_ok (rp_limit pool) cs" using cs(2,3) d assms(2) by (fastforce simp: candidates_ok_def)
  then show ?thesis using cs(1,4) by blast
qed

end
