(* ===== verification/Lru_Facts.thy ===== *)
theory Lru_Facts
  imports Lru_Pool
begin

text \<open>
  Which keys the clean-up loop of the resource pool chooses: the least recently used ones of all members
  together, as many as needed and no more.
\<close>

section \<open>The victims\<close>

definition victims_of :: "(string \<times> 'k list) list \<Rightarrow> string \<Rightarrow> 'k list" where
  "victims_of vs i = (case map_of vs i of None \<Rightarrow> [] | Some ks \<Rightarrow> ks)"

lemma push_victim_exact:
  assumes "distinct (map fst vs)"
  shows "distinct (map fst (push_victim i k vs))"
    and "victims_of (push_victim i k vs) j = (if j = i then victims_of vs j @ [k] else victims_of vs j)"
proof -
  have ids: "map fst (map (\<lambda>(j, ks). if j = i then (j, ks @ [k]) else (j, ks)) vs) = map fst vs" by (induction vs) auto
  have upd: "map_of (map (\<lambda>(j, ks). if j = i then (j, ks @ [k]) else (j, ks)) vs) j
      = (if j = i then map_option (\<lambda>ks. ks @ [k]) (map_of vs j) else map_of vs j)" by (induction vs) auto
  show "distinct (map fst (push_victim i k vs))"
  proof (cases "i \<in> fst ` set vs")
    case True
    show ?thesis unfolding push_victim_def if_P [OF True] ids by (rule assms)
  next
    case False
    then show ?thesis using assms by (simp add: push_victim_def distinct_map_insort_key)
  qed
  show "victims_of (push_victim i k vs) j = (if j = i then victims_of vs j @ [k] else victims_of vs j)"
  proof (cases "i \<in> fst ` set vs")
    case True
    then obtain ks where "map_of vs i = Some ks" by (metis map_of_eq_None_iff option.exhaust)
    then show ?thesis using True upd by (simp add: victims_of_def push_victim_def)
  next
    case False
    then have "map_of vs i = None" by (simp add: map_of_eq_None_iff)
    then show ?thesis using False by (simp add: victims_of_def push_victim_def map_of_insort_key)
  qed
qed

lemma fold_push_choice:
  assumes "distinct (map fst vs)"
  shows "distinct (map fst (fold push_choice xs vs)) \<and> victims_of (fold push_choice xs vs) j = victims_of vs j @ map (snd \<circ> snd) (choices_of j xs)"
  using assms
proof (induction xs arbitrary: vs)
  case (Cons x xs)
  obtain i t s k where x: "x = (i, t, s, k)" by (cases x)
  have "distinct (map fst (push_victim i k vs))" by (rule push_victim_exact(1) [OF Cons.prems])
  from Cons.IH [OF this] show ?case
    using push_victim_exact(2) [OF Cons.prems, of i k j] by (simp add: x push_choice_def choices_of_def)
qed (simp add: choices_of_def)

lemma fold_push_nil: "victims_of (fold push_choice xs []) i = map (snd \<circ> snd) (choices_of i xs)"
  using fold_push_choice [of "[]" xs i] by (simp add: victims_of_def)

lemma choice_size_by_member:
  assumes "distinct ids" "fst ` set xs \<subseteq> set ids"
  shows "choice_size xs = sum_list (map (\<lambda>i. sum_list (map (fst \<circ> snd) (choices_of i xs))) ids)"
  using assms(2)
proof (induction xs)
  case Nil
  then show ?case by (simp add: choices_of_def)
next
  case (Cons x xs)
  obtain i t s k where x: "x = (i, t, s, k)" by (cases x)
  have "sum_list (map (\<lambda>j. sum_list (map (fst \<circ> snd) (choices_of j (x # xs)))) ids)
      = sum_list (map (\<lambda>j. (if j = i then s else 0) + sum_list (map (fst \<circ> snd) (choices_of j xs))) ids)"
    by (rule arg_cong [of _ _ sum_list]) (auto simp: x choices_of_def)
  also have "\<dots> = s + choice_size xs"
    using Cons assms(1) by (simp add: x sum_list_addf sum_list_distinct_conv_sum_set comp_def)
  finally show ?case by (simp only: x choice_size_simps)
qed

text \<open>What the pool would use without the victims.\<close>

definition pool_rest :: "'k ResourcePool \<Rightarrow> (string \<times> 'k list) list \<Rightarrow> nat" where
  "pool_rest pool vs = sum_list (map (\<lambda>(i, h). usage_except h (set (victims_of vs i))) (rp_members pool))"

lemma pool_member_in: "distinct (map fst (rp_members pool)) \<Longrightarrow> (i, h) \<in> set (rp_members pool) \<Longrightarrow> pool_last_used i pool = Some h"
  by (simp add: pool_last_used_def)

lemma chosen_accounts:
  assumes "pool_ok pool" "chosen limit current cs xs rest"
    and "\<And>i. items_of cs i = (case pool_last_used i pool of None \<Rightarrow> [] | Some h \<Rightarrow> heap_items h)"
  shows "rp_current pool = choice_size xs + pool_rest pool (fold push_choice xs [])"
    and "pool_rest pool (fold push_choice xs []) = sum_list (map (\<lambda>(i, h). sum_list (map (fst \<circ> snd) (rest i))) (rp_members pool))"
proof -
  have d: "distinct (map fst (rp_members pool))" using assms(1) by (simp add: pool_ok_def)
  have split: "items_of cs i = choices_of i xs @ rest i" for i using assms(2) by (simp add: chosen_def)
  have h: "heap_items h = choices_of i xs @ rest i" "heap_ok h" if "(i, h) \<in> set (rp_members pool)" for i h
    using split [of i] assms(3) [of i] pool_member_in [OF d that] assms(1) that by (auto simp: pool_ok_def)
  show rest: "pool_rest pool (fold push_choice xs []) = sum_list (map (\<lambda>(i, h). sum_list (map (fst \<circ> snd) (rest i))) (rp_members pool))"
    unfolding pool_rest_def fold_push_nil
    by (rule arg_cong [of _ _ sum_list], rule map_cong [OF refl]) (use usage_except_items [OF h(2) h(1)] in force)
  have "fst ` set xs \<subseteq> set (map fst (rp_members pool))"
  proof
    fix i assume "i \<in> fst ` set xs"
    then have "choices_of i xs \<noteq> []" by (auto simp: choices_of_def filter_empty_conv)
    then have "pool_last_used i pool \<noteq> None" using split [of i] assms(3) [of i] by (cases "pool_last_used i pool") auto
    then show "i \<in> set (map fst (rp_members pool))" by (auto simp: pool_last_used_def map_of_eq_None_iff)
  qed
  from choice_size_by_member [OF d this]
  have "choice_size xs = sum_list (map (\<lambda>(i, h). sum_list (map (fst \<circ> snd) (choices_of i xs))) (rp_members pool))"
    by (simp add: comp_def case_prod_unfold)
  then have "choice_size xs + pool_rest pool (fold push_choice xs [])
      = sum_list (map (\<lambda>(i, h). sum_list (map (fst \<circ> snd) (choices_of i xs)) + sum_list (map (fst \<circ> snd) (rest i))) (rp_members pool))"
    unfolding rest by (simp add: case_prod_unfold sum_list_addf)
  also have "\<dots> = sum_list (map (heap_usage \<circ> snd) (rp_members pool))"
  proof (rule arg_cong [of _ _ sum_list], rule map_cong [OF refl])
    fix x assume x: "x \<in> set (rp_members pool)"
    obtain i h where ih: "x = (i, h)" by (cases x)
    show "(case x of (i, h) \<Rightarrow> sum_list (map (fst \<circ> snd) (choices_of i xs)) + sum_list (map (fst \<circ> snd) (rest i))) = (heap_usage \<circ> snd) x"
      using usage_except_items [OF h(2), of i h "[]" "heap_items h"] x h(1) [of i h] ih by simp
  qed
  finally show "rp_current pool = choice_size xs + pool_rest pool (fold push_choice xs [])" using assms(1) by (simp add: pool_ok_def)
qed

lemma selection:
  assumes "pool_ok pool" "rp_members pool \<noteq> []"
  shows "\<exists>cs xs rest. candidates (rp_members pool) = Some cs
    \<and> select_loop (rp_limit pool) current cs [] = Some (fold push_choice xs []) \<and> chosen (rp_limit pool) current cs xs rest
    \<and> (\<forall>i. items_of cs i = (case pool_last_used i pool of None \<Rightarrow> [] | Some h \<Rightarrow> heap_items h))"
  using pool_candidates [OF assms] select_loop_chosen by metis

lemma selection_enough:
  assumes "pool_ok pool" "chosen (rp_limit pool) (rp_current pool) cs xs rest"
    and "\<And>i. items_of cs i = (case pool_last_used i pool of None \<Rightarrow> [] | Some h \<Rightarrow> heap_items h)"
  shows "pool_rest pool (fold push_choice xs []) \<le> rp_limit pool"
proof (cases "\<forall>i. rest i = []")
  case True
  then have "pool_rest pool (fold push_choice xs []) = 0"
    unfolding chosen_accounts(2) [OF assms] by (simp add: case_prod_unfold)
  then show ?thesis by simp
next
  case False
  then have "rp_current pool - choice_size xs \<le> rp_limit pool" using assms(2) by (auto simp: chosen_def)
  then show ?thesis using chosen_accounts(1) [OF assms] by simp
qed

lemma chosen_victim:
  assumes "k \<in> set (victims_of (fold push_choice xs []) i)"
  obtains t s where "(i, t, s, k) \<in> set xs" "(t, s, k) \<in> set (choices_of i xs)"
proof -
  have "k \<in> set (map (snd \<circ> snd) (choices_of i xs))"
    using assms unfolding fold_push_nil .
  then obtain t s where c: "(t, s, k) \<in> set (choices_of i xs)" by auto
  then have "(i, t, s, k) \<in> set xs" by (auto simp: choices_of_def)
  then show ?thesis using c by (rule that)
qed

lemma chosen_entry:
  assumes "pool_ok pool" "chosen limit current cs xs rest" "pool_last_used i pool = Some h"
    and "\<And>i. items_of cs i = (case pool_last_used i pool of None \<Rightarrow> [] | Some h \<Rightarrow> heap_items h)"
  shows "key_to_order_and_value h k = Some (s, t) \<longleftrightarrow> (t, s, k) \<in> set (choices_of i xs) \<or> (t, s, k) \<in> set (rest i)"
proof -
  have "heap_items h = choices_of i xs @ rest i" using assms(2,3) assms(4) [of i] by (simp add: chosen_def)
  moreover have "(t, s, k) \<in> set (heap_items h) \<longleftrightarrow> key_to_order_and_value h k = Some (s, t)"
    unfolding heap_items_exact(2) [OF pool_ok_member(1) [OF assms(1,3)]] by simp
  ultimately show ?thesis by simp
qed

lemma last_victim_needed:
  assumes "pool_ok pool" "chosen (rp_limit pool) (rp_current pool) cs xs rest" "xs \<noteq> []"
    and items: "\<And>i. items_of cs i = (case pool_last_used i pool of None \<Rightarrow> [] | Some h \<Rightarrow> heap_items h)"
  shows "\<exists>i h k s t. pool_last_used i pool = Some h \<and> k \<in> set (victims_of (fold push_choice xs []) i) \<and> key_to_order_and_value h k = Some (s, t)
      \<and> pool_rest pool (fold push_choice xs []) + s > rp_limit pool \<and> (\<forall>(j, t', s', k') \<in> set xs. (t', j) \<le> (t, i))"
proof -
  obtain ys i t s k where xs: "xs = ys @ [(i, t, s, k)]" using assms(3) by (metis append_butlast_last_id prod_cases4)
  have "rp_current pool - choice_size ys > rp_limit pool" using assms(2) by (simp add: chosen_def xs)
  moreover have "choice_size xs = choice_size ys + s" by (simp add: xs choice_size_def)
  ultimately have size: "pool_rest pool (fold push_choice xs []) + s > rp_limit pool"
    using chosen_accounts(1) [OF assms(1,2) items] by simp
  have "sorted (map (\<lambda>(i, t, s, k). (t, i)) xs)" using assms(2) by (simp add: chosen_def)
  then have latest: "\<forall>(j, t', s', k') \<in> set xs. (t', j) \<le> (t, i)" by (auto simp: xs sorted_append simp del: less_eq_prod_simp)
  have choice: "(t, s, k) \<in> set (choices_of i xs)" by (simp add: xs choices_of_def)
  have "items_of cs i = choices_of i xs @ rest i" using assms(2) by (simp add: chosen_def)
  then have "pool_last_used i pool \<noteq> None" using choice items [of i] by (cases "pool_last_used i pool") auto
  then obtain h where h: "pool_last_used i pool = Some h" by blast
  have "key_to_order_and_value h k = Some (s, t)" using choice chosen_entry [OF assms(1,2) h items] by blast
  moreover have "k \<in> set (victims_of (fold push_choice xs []) i)" unfolding fold_push_nil using choice by force
  ultimately show ?thesis using h size latest by blast
qed

text \<open>
  C8. When the pool uses more than its limit, the clean-up loop chooses for eviction keys of its members in the order of
  their last use, oldest first, by member name among equally old ones: no key it spares was used earlier
  than one it evicts. Without the chosen keys the usage is within the limit, and the most recently used of the
  chosen keys was needed for that: had the loop stopped just before it, the usage would still exceed the limit. Sizes
  play no part in the choice, so an older key may go although a later one alone would have been enough.
\<close>

theorem eviction_least_recently_used:
  assumes "pool_ok pool" "rp_current pool > rp_limit pool"
  shows "\<exists>cs victims. candidates (rp_members pool) = Some cs \<and> select_loop (rp_limit pool) (rp_current pool) cs [] = Some victims
    \<and> pool_rest pool victims \<le> rp_limit pool
    \<and> (\<exists>i h k s t. pool_last_used i pool = Some h \<and> k \<in> set (victims_of victims i) \<and> key_to_order_and_value h k = Some (s, t)
          \<and> pool_rest pool victims + s > rp_limit pool
          \<and> (\<forall>j g k' s' t'. pool_last_used j pool = Some g \<and> k' \<in> set (victims_of victims j) \<and> key_to_order_and_value g k' = Some (s', t')
                \<longrightarrow> (t', j) \<le> (t, i)))
    \<and> (\<forall>i h k s t j g k' s' t'. pool_last_used i pool = Some h \<and> pool_last_used j pool = Some g
          \<and> k \<in> set (victims_of victims i) \<and> k' \<notin> set (victims_of victims j)
          \<and> key_to_order_and_value h k = Some (s, t) \<and> key_to_order_and_value g k' = Some (s', t') \<longrightarrow> (t, i) \<le> (t', j))"
proof -
  have ne: "rp_members pool \<noteq> []" using assms by (auto simp: pool_ok_def)
  obtain cs xs rest where sel: "candidates (rp_members pool) = Some cs"
      "select_loop (rp_limit pool) (rp_current pool) cs [] = Some (fold push_choice xs [])" "chosen (rp_limit pool) (rp_current pool) cs xs rest"
      "\<And>i. items_of cs i = (case pool_last_used i pool of None \<Rightarrow> [] | Some h \<Rightarrow> heap_items h)"
    using selection [OF assms(1) ne, of "rp_current pool"] by blast
  let ?vs = "fold push_choice xs []"
  have enough: "pool_rest pool ?vs \<le> rp_limit pool" by (rule selection_enough [OF assms(1) sel(3,4)])
  have cur: "rp_current pool = choice_size xs + pool_rest pool ?vs" by (rule chosen_accounts(1) [OF assms(1) sel(3,4)])
  have "xs \<noteq> []" using cur enough assms(2) by (auto simp: choice_size_def)
  then obtain i h k s t where last: "pool_last_used i pool = Some h" "k \<in> set (victims_of ?vs i)" "key_to_order_and_value h k = Some (s, t)"
      "pool_rest pool ?vs + s > rp_limit pool" "\<forall>(j, t', s', k') \<in> set xs. (t', j) \<le> (t, i)"
    using last_victim_needed [OF assms(1) sel(3) _ sel(4)] by blast
  have victim: "(j, t', s', k') \<in> set xs"
    if e: "pool_last_used j pool = Some g" "k' \<in> set (victims_of ?vs j)" "key_to_order_and_value g k' = Some (s', t')" for j g k' s' t'
  proof -
    obtain t1 s1 where c: "(j, t1, s1, k') \<in> set xs" "(t1, s1, k') \<in> set (choices_of j xs)" using chosen_victim [OF e(2)] .
    moreover have "key_to_order_and_value g k' = Some (s1, t1)" using chosen_entry [OF assms(1) sel(3) e(1) sel(4)] c(2) by blast
    ultimately show ?thesis using e(3) by simp
  qed
  then have "\<forall>j g k' s' t'. pool_last_used j pool = Some g \<and> k' \<in> set (victims_of ?vs j) \<and> key_to_order_and_value g k' = Some (s', t')
      \<longrightarrow> (t', j) \<le> (t, i)" using last(5) by blast
  then have "\<exists>i h k s t. pool_last_used i pool = Some h \<and> k \<in> set (victims_of ?vs i) \<and> key_to_order_and_value h k = Some (s, t)
      \<and> pool_rest pool ?vs + s > rp_limit pool
      \<and> (\<forall>j g k' s' t'. pool_last_used j pool = Some g \<and> k' \<in> set (victims_of ?vs j) \<and> key_to_order_and_value g k' = Some (s', t')
            \<longrightarrow> (t', j) \<le> (t, i))" using last(1-4) by blast
  moreover have "(t, i) \<le> (t', j)"
    if e: "pool_last_used i pool = Some h" "pool_last_used j pool = Some g" "k \<in> set (victims_of ?vs i)" "k' \<notin> set (victims_of ?vs j)"
      "key_to_order_and_value h k = Some (s, t)" "key_to_order_and_value g k' = Some (s', t')" for i h k s t j g k' s' t'
  proof -
    have "(t', s', k') \<in> set (rest j)"
      using chosen_entry [OF assms(1) sel(3) e(2) sel(4)] e(4,6) unfolding fold_push_nil by force
    moreover have "(i, t, s, k) \<in> set xs" by (rule victim [OF e(1,3,5)])
    ultimately show ?thesis using sel(3) unfolding chosen_def by fastforce
  qed
  ultimately show ?thesis using sel(1,2) enough by blast
qed

definition one_key_heap :: "nat \<Rightarrow> nat \<Rightarrow> Time \<Rightarrow> (nat, nat, Time) AddressableHeap" where
  "one_key_heap k s t = \<lparr>key_to_order_and_value = [k \<mapsto> (s, t)], queue = [(t, k)]\<rparr>"

definition two_member_pool :: "nat ResourcePool" where
  "two_member_pool = \<lparr>rp_limit = 5, rp_current = 6, rp_notify = True, rp_members = [(''a'', one_key_heap 1 4 7), (''b'', one_key_heap 1 2 3)]\<rparr>"

lemma two_member_pool_ok: "pool_ok two_member_pool"
  by (auto simp: pool_ok_def two_member_pool_def one_key_heap_def heap_ok_def heap_usage_def split: if_splits)

theorem eviction_least_recently_used_witness:
  "\<exists>cs victims. candidates (rp_members two_member_pool) = Some cs \<and> select_loop 5 6 cs [] = Some victims \<and> pool_rest two_member_pool victims \<le> 5"
  using eviction_least_recently_used [OF two_member_pool_ok] by (auto simp: two_member_pool_def)

end
