(* ===== verification/Lru_System.thy ===== *)
theory Lru_System
  imports Lru_Facts
begin

text \<open>
  Several caches on one resource pool, with its clean-up loop running beside them
  (\<^verbatim>\<open>cache_system/src/backend/policy/lru.rs\<close>): an interleaving of calls on the caches, policies added, caches dropped and
  steps of the loop is a sequence of steps of a transition system. No interleaving breaks the accounting or
  loses a wake-up, and the loop brings the usage back to the limit when left alone.
\<close>

section \<open>Policies stay\<close>

fun lru_policies :: "('k, 'v) Subscriber list \<Rightarrow> ('k, 'v) LruPolicy list" where
  "lru_policies [] = []"
| "lru_policies (Lru p # ss) = p # lru_policies ss"
| "lru_policies (_ # ss) = lru_policies ss"

lemma lru_policies_ids: "lru_ids ss = map lru_member (lru_policies ss)"
  by (induction ss rule: lru_policies.induct) auto

lemma lru_policies_set: "p \<in> set (lru_policies ss) \<longleftrightarrow> Lru p \<in> set ss"
  by (induction ss rule: lru_policies.induct) auto

lemma lru_policies_Cons: "lru_policies (s # ss) = lru_policies [s] @ lru_policies ss"
  by (cases s) auto

lemma subscriber_notify_policies:
  "subscriber_notify now r pool s = Some (pool', s', es) \<Longrightarrow> lru_policies [s'] = lru_policies [s]"
  by (cases "(now, r, pool, s)" rule: subscriber_notify.cases) auto

lemma notify_subscribers_policies:
  "notify_subscribers now r pool ss = Some (pool', ss', es) \<Longrightarrow> lru_policies ss' = lru_policies ss"
proof (induction ss arbitrary: pool pool' ss' es)
  case (Cons s ss)
  then obtain pool1 s1 es1 ss1 es2 where n: "subscriber_notify now r pool s = Some (pool1, s1, es1)"
      "notify_subscribers now r pool1 ss = Some (pool', ss1, es2)" "ss' = s1 # ss1"
    by (auto split: bind_splits)
  have "lru_policies ss1 = lru_policies ss" by (rule Cons.IH [OF n(2)])
  then show ?case using subscriber_notify_policies [OF n(1)] unfolding n(3) by (metis lru_policies_Cons)
qed simp

lemma notify_records_policies:
  "notify_records now rs pool ss = Some (pool', ss', es) \<Longrightarrow> lru_policies ss' = lru_policies ss"
proof (induction rs arbitrary: pool pool' ss ss' es)
  case (Cons r rs)
  then show ?case using notify_subscribers_policies by (fastforce split: bind_splits)
qed simp

lemma perform_changes_policies:
  assumes "perform_changes now pool b tasks = Some (pool', b')"
  shows "lru_policies (pb_subscribers b') = lru_policies (pb_subscribers b)"
proof -
  have "case (pool', b') of (pool', b') \<Rightarrow> lru_policies (pb_subscribers b') = lru_policies (pb_subscribers b)"
  proof (rule perform_changes.raw_induct [where P = "\<lambda>now pool b tasks (pool', b'). lru_policies (pb_subscribers b') = lru_policies (pb_subscribers b)", OF _ assms], goal_cases)
    case (1 f now pool b tasks r)
    then show ?case by (fastforce split: list.splits bind_splits dest: notify_records_policies)
  qed
  then show ?thesis by simp
qed

section \<open>Evicting keys of one cache\<close>

lemma apply_removals: "apply_records (map Record_Remove ks) m = m |` (- set ks)"
  by (induction ks arbitrary: m) (auto simp: restrict_map_def fun_eq_iff)

lemma evict_settles:
  assumes "backend_inv pool b"
  shows "\<exists>pool' b' D. settles now pool b [cr_remove_keys ks] pool' b' \<and> set ks \<subseteq> D \<and> pb_inner b' = pb_inner b |` (- D)"
proof -
  let ?recs = "map Record_Remove ks"
  have r: "cr_remove_keys ks \<lparr>rc_inner = pb_inner b, rc_records = []\<rparr>
      = Some \<lparr>rc_inner = apply_records ?recs (pb_inner b), rc_records = ?recs\<rparr>"
    by (simp add: cr_remove_keys_def foldl_recorder_remove)
  obtain pool1 ss' es where n: "notify_records now ?recs pool (pb_subscribers b) = Some (pool1, ss', map cr_remove es)"
      "subs_inv pool1 (apply_records ?recs (pb_inner b)) (set es) ss'"
      "pool_frame (set (lru_ids (pb_subscribers b))) pool pool1" "lru_ids ss' = lru_ids (pb_subscribers b)"
    using notify_records_ok [OF assms [unfolded backend_inv_def], of ?recs now] pool_ok_current [of pool] assms
    by (auto simp: backend_inv_def subs_inv_def)
  let ?b' = "\<lparr>pb_inner = apply_records ?recs (pb_inner b), pb_subscribers = ss'\<rparr>"
  obtain pool' b' D where s: "settles now pool1 ?b' (map cr_remove es) pool' b'" "pb_inner b' = pb_inner ?b' |` (- D)"
    using perform_removals [of pool1 ?b' es now] n(2) by auto
  from s(1) have "settles now pool1 ?b' ([] @ map cr_remove es) pool' b'" by simp
  then have "settles now pool b [cr_remove_keys ks] pool' b'"
    by (rule settles_Cons [where r = "cr_remove_keys ks" and b = b, OF r n(1,3,4)])
  moreover have "pb_inner b' = pb_inner b |` (- (set ks \<union> D))"
    using s(2) by (simp add: apply_removals Int_commute)
  ultimately show ?thesis by blast
qed

text \<open>What a member of the pool may keep: sizes stay as they were, and some keys have gone.\<close>

definition shrinks :: "'k set \<Rightarrow> ('k, nat, Time) AddressableHeap \<Rightarrow> ('k, nat, Time) AddressableHeap \<Rightarrow> bool" where
  "shrinks gone h h' \<longleftrightarrow> (\<forall>k s t. key_to_order_and_value h' k = Some (s, t) \<longrightarrow> k \<notin> gone \<and> (\<exists>t0. key_to_order_and_value h k = Some (s, t0)))"

lemma shrinks_usage:
  assumes "shrinks gone h h'" "heap_ok h" "A \<subseteq> gone \<union> A'"
  shows "usage_except h' A' \<le> usage_except h A"
proof -
  have fin: "finite (dom (key_to_order_and_value h))" by (rule heap_ok_finite [OF assms(2)])
  have "usage_except h' A' = (\<Sum>k \<in> dom (key_to_order_and_value h') - A'. fst (the (key_to_order_and_value h k)))"
    unfolding usage_except_def by (rule sum.cong [OF refl]) (use assms(1) in \<open>fastforce simp: shrinks_def\<close>)
  also have "\<dots> \<le> usage_except h A"
    unfolding usage_except_def by (rule sum_mono2) (use assms fin in \<open>auto simp: shrinks_def, blast+\<close>)
  finally show ?thesis .
qed

lemma evict_shrinks:
  assumes "backend_inv pool b" "settles now pool b tasks pool' b'" "pb_inner b' = pb_inner b |` (- D)" "i \<in> set (lru_ids (pb_subscribers b))"
    and "pool_last_used i pool = Some h" "pool_last_used i pool' = Some h'"
  shows "shrinks D h h'"
proof -
  obtain p where p: "p \<in> set (lru_policies (pb_subscribers b))" "lru_member p = i" using assms(4) by (auto simp: lru_policies_ids)
  have inv: "backend_inv pool' b'" using assms(2) by (simp add: settles_def backend_inv_def)
  have "lru_policies (pb_subscribers b') = lru_policies (pb_subscribers b)"
    using assms(2) perform_changes_policies by (auto simp: settles_def)
  then have "Lru p \<in> set (pb_subscribers b)" "Lru p \<in> set (pb_subscribers b')" using p(1) by (simp_all add: lru_policies_set [symmetric])
  then have "map_option fst (key_to_order_and_value h k) = map_option (lru_resource_estimator p k) (pb_inner b k)"
      "map_option fst (key_to_order_and_value h' k) = map_option (lru_resource_estimator p k) (pb_inner b' k)" for k
    using backend_inv_lru [OF assms(1)] backend_inv_lru [OF inv] p(2) assms(5,6) by fastforce+
  then have "map_option fst (key_to_order_and_value h' k) = (if k \<in> D then None else map_option fst (key_to_order_and_value h k))" for k
    by (simp add: assms(3) restrict_map_def)
  then show ?thesis unfolding shrinks_def by (metis (no_types, lifting) fst_conv map_option_eq_Some option.distinct(1) option.simps(9) surj_pair)
qed

section \<open>Several caches on one pool\<close>

definition cache_ids :: "('k, 'v) PolicyBackend list \<Rightarrow> string list" where
  "cache_ids bs = concat (map (lru_ids \<circ> pb_subscribers) bs)"

lemma cache_ids_simps [simp]:
  "cache_ids [] = []" "cache_ids (b # bs) = lru_ids (pb_subscribers b) @ cache_ids bs" "cache_ids (xs @ ys) = cache_ids xs @ cache_ids ys"
  by (simp_all add: cache_ids_def)

text \<open>
  Each cache agrees with the pool, no two policies share an id, and the members of the pool are exactly the
  policies of its caches.
\<close>

definition backends_ok :: "'k::linorder ResourcePool \<Rightarrow> ('k, 'v) PolicyBackend list \<Rightarrow> bool" where
  "backends_ok pool bs \<longleftrightarrow> pool_ok pool \<and> (\<forall>b \<in> set bs. backend_inv pool b) \<and> distinct (cache_ids bs)
     \<and> fst ` set (rp_members pool) = set (cache_ids bs)"

lemma sub_sync_cong:
  "sub_sync pool m pend s \<Longrightarrow> (\<And>i. i \<in> sub_ids s \<Longrightarrow> pool_last_used i pool' = pool_last_used i pool) \<Longrightarrow> sub_sync pool' m pend s"
  by (cases s) auto

lemma backend_inv_cong:
  assumes "backend_inv pool b" "pool_ok pool'" "\<And>i. i \<in> set (lru_ids (pb_subscribers b)) \<Longrightarrow> pool_last_used i pool' = pool_last_used i pool"
  shows "backend_inv pool' b"
  using assms sub_sync_cong sub_ids_lru_ids unfolding backend_inv_def subs_inv_def subs_sync_def by (metis subsetD)

lemma cache_ids_member: "b \<in> set bs \<Longrightarrow> set (lru_ids (pb_subscribers b)) \<subseteq> set (cache_ids bs)"
  by (auto simp: cache_ids_def)

lemma backends_ok_replace:
  assumes "backends_ok pool (xs @ b # ys)" "backend_inv pool' b'" "pool_frame (set (lru_ids (pb_subscribers b))) pool pool'"
    and "lru_ids (pb_subscribers b') = lru_ids (pb_subscribers b)"
  shows "backends_ok pool' (xs @ b' # ys)"
proof -
  have ok: "pool_ok pool'" using assms(2) by (simp add: backend_inv_def subs_inv_def)
  have "backend_inv pool' c" if c: "c \<in> set xs \<union> set ys" for c
  proof (rule backend_inv_cong [OF _ ok])
    show "backend_inv pool c" using assms(1) c by (auto simp: backends_ok_def)
    have "set (lru_ids (pb_subscribers c)) \<inter> set (lru_ids (pb_subscribers b)) = {}"
      using assms(1) c cache_ids_member by (fastforce simp: backends_ok_def)
    then show "pool_last_used i pool' = pool_last_used i pool" if "i \<in> set (lru_ids (pb_subscribers c))" for i
      using assms(3) that by (auto simp: pool_frame_def)
  qed
  moreover have "fst ` set (rp_members pool') = fst ` set (rp_members pool)" using assms(3) by (metis pool_frame_def list.set_map)
  ultimately show ?thesis using assms(1,2,4) ok by (auto simp: backends_ok_def)
qed

lemma backends_ok_settles:
  assumes "backends_ok pool (xs @ b # ys)" "settles now pool b tasks pool' b'"
  shows "backends_ok pool' (xs @ b' # ys)" "rp_limit pool' = rp_limit pool" "pool_announced pool \<Longrightarrow> pool_announced pool'"
  using backends_ok_replace [OF assms(1), of pool' b'] assms(2) by (auto simp: settles_def backend_inv_def pool_frame_def)

lemma evict_member_cases:
  "evict_member now i ks pool bs = Some (pool, bs) \<and> i \<notin> set (cache_ids bs)
   \<or> (\<exists>xs b ys. bs = xs @ b # ys \<and> i \<in> set (lru_ids (pb_subscribers b))
        \<and> evict_member now i ks pool bs = map_option (\<lambda>(pool, b). (pool, xs @ b # ys)) (member_remove_keys now pool b ks))"
proof (induction bs)
  case (Cons b bs)
  show ?case
  proof (cases "i \<in> set (lru_ids (pb_subscribers b))")
    case True
    then show ?thesis by (intro disjI2 exI [of _ "[]"]) (auto simp: set_lru_ids)
  next
    case False
    then have step: "evict_member now i ks pool (b # bs) = map_option (apsnd ((#) b)) (evict_member now i ks pool bs)"
      by (auto simp: set_lru_ids)
    from Cons show ?thesis
    proof (elim disjE exE conjE)
      fix xs c ys
      assume c: "bs = xs @ c # ys" "i \<in> set (lru_ids (pb_subscribers c))"
        "evict_member now i ks pool bs = map_option (\<lambda>(pool, b). (pool, xs @ b # ys)) (member_remove_keys now pool c ks)"
      have "evict_member now i ks pool (b # bs) = map_option (\<lambda>(pool, c). (pool, (b # xs) @ c # ys)) (member_remove_keys now pool c ks)"
        unfolding step c(3) by (simp add: option.map_comp comp_def case_prod_unfold apsnd_def map_prod_def)
      then show ?thesis using c(1,2) by (intro disjI2 exI [of _ "b # xs"] exI [of _ c] exI [of _ ys]) simp
    qed (use False step in simp)
  qed
qed simp

lemma pool_rest_ids:
  assumes "distinct (map fst (rp_members pool))"
  shows "pool_rest pool vs = sum_list (map (\<lambda>i. usage_except (the (pool_last_used i pool)) (set (victims_of vs i))) (map fst (rp_members pool)))"
  unfolding pool_rest_def map_map
  by (rule arg_cong [of _ _ sum_list], rule map_cong [OF refl]) (use pool_member_in [OF assms] in \<open>fastforce simp: case_prod_unfold\<close>)

lemma pool_rest_evict:
  assumes "pool_ok pool" "pool_ok pool'" "map fst (rp_members pool') = map fst (rp_members pool)" "i \<notin> fst ` set vs"
    and keep: "\<And>j h h'. pool_last_used j pool = Some h \<Longrightarrow> pool_last_used j pool' = Some h' \<Longrightarrow> (j \<noteq> i \<and> h' = h) \<or> (\<exists>D. set ks \<subseteq> D \<and> shrinks D h h')"
  shows "pool_rest pool' vs \<le> pool_rest pool ((i, ks) # vs)"
proof -
  have d: "distinct (map fst (rp_members pool))" using assms(1) by (simp add: pool_ok_def)
  have "usage_except (the (pool_last_used j pool')) (set (victims_of vs j)) \<le> usage_except (the (pool_last_used j pool)) (set (victims_of ((i, ks) # vs) j))"
    if j: "j \<in> set (map fst (rp_members pool))" for j
  proof -
    obtain h h' where h: "pool_last_used j pool = Some h" "pool_last_used j pool' = Some h'"
      using j assms(3) unfolding pool_last_used_def by (metis list.set_map map_of_eq_None_iff option.exhaust)
    have ok: "heap_ok h" by (rule pool_ok_member(1) [OF assms(1) h(1)])
    have "victims_of vs i = []" using assms(4) by (simp add: victims_of_def map_of_eq_None_iff [THEN iffD2])
    then have "set (victims_of ((i, ks) # vs) j) = (if j = i then set ks else set (victims_of vs j))" by (simp add: victims_of_def)
    with keep [OF h] show ?thesis
      unfolding h option.sel by (auto intro: shrinks_usage [OF _ ok])
  qed
  then show ?thesis unfolding pool_rest_ids [OF d] pool_rest_ids [OF d [folded assms(3)]] assms(3) by (rule sum_list_mono)
qed

lemma evict_member_ok:
  assumes "backends_ok pool bs"
  shows "\<exists>pool' bs'. evict_member now i ks pool bs = Some (pool', bs') \<and> backends_ok pool' bs' \<and> rp_limit pool' = rp_limit pool
    \<and> (\<forall>vs. i \<notin> fst ` set vs \<longrightarrow> pool_rest pool' vs \<le> pool_rest pool ((i, ks) # vs))"
  using evict_member_cases [of now i ks pool bs]
proof (elim disjE exE conjE)
  assume e: "evict_member now i ks pool bs = Some (pool, bs)" "i \<notin> set (cache_ids bs)"
  then have "pool_last_used i pool = None" using assms by (simp add: backends_ok_def pool_last_used_def map_of_eq_None_iff)
  then have "pool_rest pool vs \<le> pool_rest pool ((i, ks) # vs)" if "i \<notin> fst ` set vs" for vs
    using assms that by (intro pool_rest_evict) (auto simp: backends_ok_def)
  then show ?thesis using e(1) assms by blast
next
  fix xs b ys
  assume b: "bs = xs @ b # ys" "i \<in> set (lru_ids (pb_subscribers b))"
    "evict_member now i ks pool bs = map_option (\<lambda>(pool, b). (pool, xs @ b # ys)) (member_remove_keys now pool b ks)"
  have inv: "backend_inv pool b" "pool_ok pool" using assms by (auto simp: backends_ok_def b(1))
  obtain pool' b' D where s: "settles now pool b [cr_remove_keys ks] pool' b'" "set ks \<subseteq> D" "pb_inner b' = pb_inner b |` (- D)"
    using evict_settles [OF inv(1)] by blast
  note ok = backends_ok_settles [OF assms [unfolded b(1)] s(1)]
  have "pool_rest pool' vs \<le> pool_rest pool ((i, ks) # vs)" if "i \<notin> fst ` set vs" for vs
  proof (rule pool_rest_evict [OF inv(2) _ _ that])
    fix j h h' assume h: "pool_last_used j pool = Some h" "pool_last_used j pool' = Some h'"
    show "(j \<noteq> i \<and> h' = h) \<or> (\<exists>D. set ks \<subseteq> D \<and> shrinks D h h')"
    proof (cases "j \<in> set (lru_ids (pb_subscribers b))")
      case True
      then show ?thesis using evict_shrinks [OF inv(1) s(1,3) True h] s(2) by blast
    next
      case False
      then show ?thesis using h b(2) s(1) by (auto simp: settles_def pool_frame_def)
    qed
  qed (use ok(1) s(1) in \<open>auto simp: backends_ok_def settles_def pool_frame_def\<close>)
  moreover have "evict_member now i ks pool bs = Some (pool', xs @ b' # ys)"
    using s(1) by (simp add: b(3) member_remove_keys_def settles_def)
  ultimately show ?thesis using ok(1,2) by blast
qed

section \<open>Dropping a cache\<close>

lemma drop_loop_exact: "heap_ok h \<Longrightarrow> accu + heap_usage h < 2 ^ 64 \<Longrightarrow> drop_loop accu h = Some (accu + heap_usage h)"
proof (induction accu h rule: drop_loop.induct)
  case (1 accu h)
  show ?case
  proof (cases "key_to_order_and_value h = Map.empty")
    case True
    then show ?thesis using ah.pop_none [OF 1(2)] by (subst drop_loop.simps) (simp add: heap_usage_def)
  next
    case False
    obtain k s t where e: "ah_peek h = Some (Some (k, s, t))" "key_to_order_and_value h k = Some (s, t)"
      using ah_peek_some [OF 1(2) False] by (auto simp: least_entry_def)
    obtain h' where h': "ah_pop h = Some (h', Some (k, s, t))" "heap_ok h'" "key_to_order_and_value h' = (key_to_order_and_value h)(k := None)"
      using ah_pop_some [OF 1(2) e(1)] by blast
    have usage: "heap_usage h = s + heap_usage h'" using heap_usage_remove [OF 1(2) e(2) h'(3)] by simp
    then have add: "resource_add accu s = Some (accu + s)" using 1(3) by (simp add: resource_add_def)
    have "drop_loop (accu + s) h' = Some (accu + s + heap_usage h')"
      by (rule 1(1) [OF h'(1) _ _ _ _ add h'(2)]) (use usage 1(3) in simp_all)
    then show ?thesis
      using h'(1) usage add by (subst drop_loop.simps) simp
  qed
qed

lemma sum_list_without:
  assumes "distinct (map fst xs)" "map_of xs i = Some h"
  shows "sum_list (map f xs) = (f (i, h) :: nat) + sum_list (map f (filter (\<lambda>(j, _). j \<noteq> i) xs))"
  using assms
proof (induction xs)
  case (Cons x xs)
  obtain j g where x: "x = (j, g)" by (cases x)
  show ?case
  proof (cases "j = i")
    case True
    then have "filter (\<lambda>(j, _). j \<noteq> i) xs = xs" using Cons.prems(1) x by (force simp: filter_id_conv)
    then show ?thesis using True Cons.prems(2) x by simp
  qed (use Cons x in simp)
qed simp

lemma map_of_without: "map_of (filter (\<lambda>(j, _). j \<noteq> i) xs) k = (if k = i then None else map_of xs k)"
  by (induction xs) auto

lemma lru_drop_ok:
  assumes "pool_ok pool" "lru_member p \<in> fst ` set (rp_members pool)"
  shows "\<exists>pool'. lru_drop p pool = Some pool' \<and> pool_ok pool' \<and> rp_limit pool' = rp_limit pool \<and> (pool_announced pool \<longrightarrow> pool_announced pool')
    \<and> (\<forall>i. pool_last_used i pool' = (if i = lru_member p then None else pool_last_used i pool))
    \<and> fst ` set (rp_members pool') = fst ` set (rp_members pool) - {lru_member p}"
proof -
  let ?i = "lru_member p"
  let ?ms = "filter (\<lambda>(i, _). i \<noteq> ?i) (rp_members pool)"
  obtain h where h: "pool_last_used ?i pool = Some h" using assms(2) by (metis pool_last_used_def map_of_eq_None_iff option.exhaust)
  have d: "distinct (map fst (rp_members pool))" using assms(1) by (simp add: pool_ok_def)
  have sum: "rp_current pool = heap_usage h + sum_list (map (heap_usage \<circ> snd) ?ms)"
    using assms(1) sum_list_without [OF d h [unfolded pool_last_used_def], of "heap_usage \<circ> snd"] by (simp add: pool_ok_def)
  let ?pool = "pool\<lparr>rp_current := rp_current pool - heap_usage h, rp_members := ?ms\<rparr>"
  have "lru_drop p pool = Some ?pool"
    using h drop_loop_exact [OF pool_ok_member(1) [OF assms(1) h], of 0] sum pool_ok_current [OF assms(1)] by (simp add: lru_drop_def pool_remove_def)
  moreover have "pool_ok ?pool"
    using assms(1) sum d by (auto simp: pool_ok_def distinct_map_filter)
  moreover have "fst ` set ?ms = fst ` set (rp_members pool) - {?i}" by force
  ultimately show ?thesis
    using sum by (simp add: pool_announced_def pool_last_used_def map_of_without)
qed

lemma drop_subscribers_ok:
  assumes "pool_ok pool" "distinct (lru_ids ss)" "set (lru_ids ss) \<subseteq> fst ` set (rp_members pool)"
  shows "\<exists>pool'. drop_subscribers ss pool = Some pool' \<and> pool_ok pool' \<and> rp_limit pool' = rp_limit pool \<and> (pool_announced pool \<longrightarrow> pool_announced pool')
    \<and> (\<forall>i. pool_last_used i pool' = (if i \<in> set (lru_ids ss) then None else pool_last_used i pool))
    \<and> fst ` set (rp_members pool') = fst ` set (rp_members pool) - set (lru_ids ss)"
  using assms
proof (induction ss pool rule: drop_subscribers.induct)
  case (2 p ss pool)
  obtain pool1 where p1: "lru_drop p pool = Some pool1" "pool_ok pool1" "rp_limit pool1 = rp_limit pool" "pool_announced pool \<longrightarrow> pool_announced pool1"
      "\<And>i. pool_last_used i pool1 = (if i = lru_member p then None else pool_last_used i pool)"
      "fst ` set (rp_members pool1) = fst ` set (rp_members pool) - {lru_member p}"
    using lru_drop_ok [OF 2(2), of p] 2(4) by auto
  have "set (lru_ids ss) \<subseteq> fst ` set (rp_members pool1)" using 2(3,4) p1(6) by auto
  from 2(1) [OF p1(1,2) _ this] 2(3) obtain pool2 where "drop_subscribers ss pool1 = Some pool2" "pool_ok pool2" "rp_limit pool2 = rp_limit pool1"
      "pool_announced pool1 \<longrightarrow> pool_announced pool2"
      "\<And>i. pool_last_used i pool2 = (if i \<in> set (lru_ids ss) then None else pool_last_used i pool1)"
      "fst ` set (rp_members pool2) = fst ` set (rp_members pool1) - set (lru_ids ss)" by auto
  then show ?case using p1 by auto
qed simp_all

section \<open>The transition system\<close>

definition system_new :: "nat \<Rightarrow> ('k, 'v) CacheSystem" where
  "system_new limit = \<lparr>sy_pool = pool_new limit, sy_backends = [], sy_phase = Top\<rparr>"

text \<open>
  A call on a cache holds its lock for the whole run of the loop over change requests. While the
  clean-up loop holds on to a member whose keys it is about to evict, the id of that member cannot be given to
  another one.
\<close>

inductive sys_step :: "('k::linorder, 'v) CacheSystem \<Rightarrow> ('k, 'v) CacheSystem \<Rightarrow> bool" where
  step_new: "sys_step sy (sy\<lparr>sy_backends := sy_backends sy @ [backend_new]\<rparr>)"
| step_ttl: "sy_backends sy = xs @ b # ys \<Longrightarrow> add_ttl_policy now provider checked_add (sy_pool sy) b = Some (pool, b') \<Longrightarrow>
    sys_step sy (sy\<lparr>sy_pool := pool, sy_backends := xs @ b' # ys\<rparr>)"
| step_lru: "sy_backends sy = xs @ b # ys \<Longrightarrow> add_lru_policy now i estimator (sy_pool sy) b = Some (pool, b') \<Longrightarrow>
    (\<And>victims. sy_phase sy = Deleting victims \<Longrightarrow> i \<notin> fst ` set victims) \<Longrightarrow>
    sys_step sy (sy\<lparr>sy_pool := pool, sy_backends := xs @ b' # ys\<rparr>)"
| step_remove_if: "sy_backends sy = xs @ b # ys \<Longrightarrow> sys_step sy (sy\<lparr>sy_backends := xs @ add_remove_if_policy b # ys\<rparr>)"
| step_call: "sy_backends sy = xs @ b # ys \<Longrightarrow> cache_step now c (sy_pool sy) b = Some (pool, b') \<Longrightarrow>
    sys_step sy (sy\<lparr>sy_pool := pool, sy_backends := xs @ b' # ys\<rparr>)"
| step_drop: "sy_backends sy = xs @ b # ys \<Longrightarrow> drop_subscribers (pb_subscribers b) (sy_pool sy) = Some pool \<Longrightarrow>
    sys_step sy (sy\<lparr>sy_pool := pool, sy_backends := xs @ ys\<rparr>)"
| step_clean_up: "clean_up_step now sy = Some sy' \<Longrightarrow> sys_step sy sy'"

text \<open>A sleeping loop, or one about to sleep, has been told of usage above the limit.\<close>

fun resting :: "nat \<Rightarrow> 'k Phase \<Rightarrow> bool" where
  "resting limit Idle = True"
| "resting limit (Checked current) = (current \<le> limit)"
| "resting limit _ = False"

definition sys_ok :: "('k::linorder, 'v) CacheSystem \<Rightarrow> bool" where
  "sys_ok sy \<longleftrightarrow> backends_ok (sy_pool sy) (sy_backends sy) \<and> (resting (rp_limit (sy_pool sy)) (sy_phase sy) \<longrightarrow> pool_announced (sy_pool sy))"

lemma sys_ok_new: "sys_ok (system_new limit)"
  by (simp add: sys_ok_def system_new_def backends_ok_def pool_ok_new) (simp add: pool_new_def)

lemma sys_ok_add_lru:
  assumes "backends_ok pool (xs @ b # ys)" "add_lru_policy now i est pool b = Some (pool', b')"
  shows "backends_ok pool' (xs @ b' # ys)" "rp_limit pool' = rp_limit pool" "pool_announced pool \<Longrightarrow> pool_announced pool'"
proof -
  have inv: "backend_inv pool b" using assms(1) by (simp add: backends_ok_def)
  have e: "pb_inner b = Map.empty" "i \<notin> fst ` set (rp_members pool)"
    using assms(2) by (auto simp: add_lru_policy_def perform_changes.simps cr_ensure_empty_def recorder_is_empty_def register_member_def
        split: bind_splits if_splits)
  have res: "backend_inv pool' b'" "lru_ids (pb_subscribers b') = lru_ids (pb_subscribers b) @ [i]"
      "pool' = pool\<lparr>rp_members := insort_key fst (i, ah_new) (rp_members pool)\<rparr>"
    using add_lru_policy_inv [OF inv e, of now est] assms(2) by auto
  have ok: "pool_ok pool'" using res(1) by (simp add: backend_inv_def subs_inv_def)
  have ids: "i \<notin> set (cache_ids (xs @ b # ys))" using e(2) assms(1) by (simp add: backends_ok_def)
  have "backend_inv pool' c" if c: "c \<in> set xs \<union> set ys" for c
  proof (rule backend_inv_cong [OF _ ok])
    show "backend_inv pool c" using assms(1) c by (auto simp: backends_ok_def)
    fix j assume "j \<in> set (lru_ids (pb_subscribers c))"
    then have "j \<noteq> i" using ids c cache_ids_member by fastforce
    then show "pool_last_used j pool' = pool_last_used j pool" by (simp add: res(3) pool_last_used_def map_of_insort_key [OF e(2)])
  qed
  moreover have "fst ` set (rp_members pool') = insert i (fst ` set (rp_members pool))" by (simp add: res(3) set_insort_key)
  ultimately show "backends_ok pool' (xs @ b' # ys)"
    using assms(1) ok res(1) ids by (auto simp: backends_ok_def res(2))
  show "rp_limit pool' = rp_limit pool" "pool_announced pool \<Longrightarrow> pool_announced pool'" by (simp_all add: res(3) pool_announced_def)
qed

lemma sys_ok_add_ttl:
  assumes "backends_ok pool (xs @ b # ys)" "add_ttl_policy now provider add pool b = Some (pool', b')"
  shows "backends_ok pool' (xs @ b' # ys)" "pool' = pool"
proof -
  have inv: "backend_inv pool b" using assms(1) by (simp add: backends_ok_def)
  have "pb_inner b = Map.empty"
    using assms(2) by (auto simp: add_ttl_policy_def perform_changes.simps cr_ensure_empty_def recorder_is_empty_def split: bind_splits if_splits)
  then have res: "backend_inv pool b'" "lru_ids (pb_subscribers b') = lru_ids (pb_subscribers b)" "pool' = pool"
    using add_ttl_policy_inv [OF inv, of now provider add] assms(2) by auto
  show "pool' = pool" by (rule res(3))
  show "backends_ok pool' (xs @ b' # ys)" unfolding res(3) by (rule backends_ok_replace [OF assms(1) res(1) _ res(2)]) simp
qed

lemma sys_ok_add_remove_if:
  assumes "backends_ok pool (xs @ b # ys)"
  shows "backends_ok pool (xs @ add_remove_if_policy b # ys)"
  by (rule backends_ok_replace [OF assms])
    (use assms in \<open>auto simp: backends_ok_def backend_inv_def subs_inv_def subs_sync_def add_remove_if_policy_def lru_ids_append\<close>)

lemma sys_ok_drop:
  assumes "backends_ok pool (xs @ b # ys)"
  shows "\<exists>pool'. drop_subscribers (pb_subscribers b) pool = Some pool' \<and> backends_ok pool' (xs @ ys) \<and> rp_limit pool' = rp_limit pool
    \<and> (pool_announced pool \<longrightarrow> pool_announced pool')"
proof -
  obtain pool' where d: "drop_subscribers (pb_subscribers b) pool = Some pool'" "pool_ok pool'" "rp_limit pool' = rp_limit pool"
      "pool_announced pool \<longrightarrow> pool_announced pool'"
      "\<And>i. pool_last_used i pool' = (if i \<in> set (lru_ids (pb_subscribers b)) then None else pool_last_used i pool)"
      "fst ` set (rp_members pool') = fst ` set (rp_members pool) - set (lru_ids (pb_subscribers b))"
    using drop_subscribers_ok [of pool "pb_subscribers b"] assms by (auto simp: backends_ok_def)
  have "backend_inv pool' c" if c: "c \<in> set xs \<union> set ys" for c
  proof (rule backend_inv_cong [OF _ d(2)])
    show "backend_inv pool c" using assms c by (auto simp: backends_ok_def)
    have "set (lru_ids (pb_subscribers c)) \<inter> set (lru_ids (pb_subscribers b)) = {}"
      using assms c cache_ids_member by (fastforce simp: backends_ok_def)
    then show "pool_last_used i pool' = pool_last_used i pool" if "i \<in> set (lru_ids (pb_subscribers c))" for i
      using d(5) that by auto
  qed
  then have "backends_ok pool' (xs @ ys)" using assms d(2,6) by (auto simp: backends_ok_def)
  then show ?thesis using d by blast
qed

lemma backends_ok_notify:
  assumes "backends_ok pool bs"
  shows "backends_ok (pool\<lparr>rp_notify := x\<rparr>) bs"
proof -
  have ok: "pool_ok (pool\<lparr>rp_notify := x\<rparr>)" using assms by (simp add: backends_ok_def pool_ok_def)
  have "backend_inv (pool\<lparr>rp_notify := x\<rparr>) b" if "b \<in> set bs" for b
    by (rule backend_inv_cong [OF _ ok]) (use assms that in \<open>auto simp: backends_ok_def pool_last_used_def\<close>)
  then show ?thesis using assms ok by (simp add: backends_ok_def)
qed

lemma clean_up_step_ok:
  assumes "sys_ok sy"
  shows "\<exists>sy'. clean_up_step now sy = Some sy' \<and> sys_ok sy' \<and> rp_limit (sy_pool sy') = rp_limit (sy_pool sy)"
proof -
  have ok: "backends_ok (sy_pool sy) (sy_backends sy)" "pool_ok (sy_pool sy)" using assms by (auto simp: sys_ok_def backends_ok_def)
  show ?thesis
  proof (cases "sy_phase sy")
    case Top
    then show ?thesis using ok by (simp add: clean_up_step_def sys_ok_def pool_announced_def)
  next
    case (Checked c)
    have "\<exists>cs vs. candidates (rp_members (sy_pool sy)) = Some cs \<and> select_loop (rp_limit (sy_pool sy)) c cs [] = Some vs"
      if "rp_members (sy_pool sy) \<noteq> []" using selection [OF ok(2) that, of c] by blast
    then show ?thesis using assms Checked by (auto simp: clean_up_step_def sys_ok_def)
  next
    case Idle
    have "sys_ok (sy\<lparr>sy_pool := (sy_pool sy)\<lparr>rp_notify := False\<rparr>, sy_phase := Top\<rparr>)"
      using backends_ok_notify [OF ok(1)] by (simp add: sys_ok_def)
    then show ?thesis using assms Idle by (simp add: clean_up_step_def)
  next
    case (Deleting vs)
    show ?thesis
    proof (cases vs)
      case Nil
      then show ?thesis using Deleting ok by (simp add: clean_up_step_def sys_ok_def)
    next
      case (Cons v ws)
      obtain i ks where v: "v = (i, ks)" by (cases v)
      obtain pool' bs' where "evict_member now i ks (sy_pool sy) (sy_backends sy) = Some (pool', bs')" "backends_ok pool' bs'"
          "rp_limit pool' = rp_limit (sy_pool sy)"
        using evict_member_ok [OF ok(1)] by blast
      then show ?thesis using Deleting Cons v by (simp add: clean_up_step_def sys_ok_def)
    qed
  qed
qed

lemma sys_step_ok:
  assumes "sys_step sy sy'" "sys_ok sy"
  shows "sys_ok sy' \<and> rp_limit (sy_pool sy') = rp_limit (sy_pool sy)"
  using assms
proof (induction rule: sys_step.induct)
  case (step_new sy)
  then show ?case by (auto simp: sys_ok_def backends_ok_def backend_inv_new) (simp_all add: backend_new_def)
next
  case (step_ttl sy xs b ys now provider checked_add pool b')
  then show ?case using sys_ok_add_ttl [OF _ step_ttl(2), of xs ys] by (auto simp: sys_ok_def)
next
  case (step_lru sy xs b ys now i estimator pool b')
  then show ?case using sys_ok_add_lru [of "sy_pool sy" xs b ys] by (simp add: sys_ok_def)
next
  case (step_remove_if sy xs b ys)
  then show ?case using sys_ok_add_remove_if [of "sy_pool sy" xs b ys] by (simp add: sys_ok_def)
next
  case (step_call sy xs b ys now c pool b')
  then have "backends_ok (sy_pool sy) (xs @ b # ys)" by (simp add: sys_ok_def)
  moreover from this have "settles now (sy_pool sy) b [call_request c] pool b'"
    using step_call(2) cache_step_settles [of "sy_pool sy" b c now] by (auto simp: backends_ok_def cache_step_request settles_def)
  ultimately show ?case using step_call(3) backends_ok_settles by (fastforce simp: sys_ok_def)
next
  case (step_drop sy xs b ys pool)
  then show ?case using sys_ok_drop [of "sy_pool sy" xs b ys] by (auto simp: sys_ok_def)
next
  case (step_clean_up now sy sy')
  then show ?case using clean_up_step_ok [of sy now] by simp
qed

lemma reachable_ok:
  assumes "sys_step\<^sup>*\<^sup>* (system_new limit) sy"
  shows "sys_ok sy" "rp_limit (sy_pool sy) = limit"
proof -
  have "sys_ok sy \<and> rp_limit (sy_pool sy) = limit"
    using assms by (induction rule: rtranclp_induct) (use sys_ok_new sys_step_ok in \<open>auto simp: system_new_def pool_new_def\<close>)
  then show "sys_ok sy" "rp_limit (sy_pool sy) = limit" by simp_all
qed

text \<open>What a cache holds, by the estimators of its policies.\<close>

definition cache_usage :: "('k, 'v) PolicyBackend \<Rightarrow> nat" where
  "cache_usage b = sum_list (map (\<lambda>p. \<Sum>k \<in> dom (pb_inner b). lru_resource_estimator p k (the (pb_inner b k))) (lru_policies (pb_subscribers b)))"

lemma policy_usage:
  assumes "backend_inv pool b" "p \<in> set (lru_policies (pb_subscribers b))"
  shows "heap_usage (the (pool_last_used (lru_member p) pool)) = (\<Sum>k \<in> dom (pb_inner b). lru_resource_estimator p k (the (pb_inner b k)))"
proof -
  obtain h where h: "pool_last_used (lru_member p) pool = Some h"
      "\<And>k. map_option fst (key_to_order_and_value h k) = map_option (lru_resource_estimator p k) (pb_inner b k)"
    using backend_inv_lru [OF assms(1), of p] assms(2) by (auto simp: lru_policies_set)
  have "k \<in> dom (key_to_order_and_value h) \<longleftrightarrow> k \<in> dom (pb_inner b)" for k
    using h(2) [of k] by (cases "key_to_order_and_value h k"; cases "pb_inner b k") auto
  then have "dom (key_to_order_and_value h) = dom (pb_inner b)" by blast
  moreover have "fst (the (key_to_order_and_value h k)) = lru_resource_estimator p k (the (pb_inner b k))" if "k \<in> dom (pb_inner b)" for k
    using h(2) [of k] that by (cases "key_to_order_and_value h k"; cases "pb_inner b k") auto
  ultimately show ?thesis unfolding h(1) option.sel heap_usage_def by (intro sum.cong) auto
qed

lemma backends_usage:
  assumes "backends_ok pool bs"
  shows "rp_current pool = sum_list (map cache_usage bs)"
proof -
  let ?f = "\<lambda>i. heap_usage (the (pool_last_used i pool))"
  have d: "distinct (map fst (rp_members pool))" "distinct (cache_ids bs)" "set (map fst (rp_members pool)) = set (cache_ids bs)"
    using assms by (auto simp: backends_ok_def pool_ok_def)
  have "rp_current pool = pool_rest pool []" using assms by (simp add: backends_ok_def pool_ok_def pool_rest_def victims_of_def comp_def case_prod_unfold)
  also have "\<dots> = sum_list (map ?f (map fst (rp_members pool)))" by (simp add: pool_rest_ids [OF d(1)] victims_of_def)
  also have "\<dots> = sum_list (map ?f (cache_ids bs))" using d by (metis sum_list_distinct_conv_sum_set)
  also have "\<dots> = sum_list (map (\<lambda>b. sum_list (map ?f (lru_ids (pb_subscribers b)))) bs)"
    unfolding cache_ids_def by (induction bs) simp_all
  also have "\<dots> = sum_list (map cache_usage bs)"
  proof (intro arg_cong [of _ _ sum_list] map_cong [OF refl])
    fix b assume "b \<in> set bs"
    then have "backend_inv pool b" using assms by (simp add: backends_ok_def)
    then show "sum_list (map ?f (lru_ids (pb_subscribers b))) = cache_usage b"
      unfolding cache_usage_def lru_policies_ids map_map by (intro arg_cong [of _ _ sum_list] map_cong [OF refl]) (simp add: policy_usage)
  qed
  finally show ?thesis .
qed

text \<open>A run that leaves a pool above its limit: one cache, two entries that do not fit together.\<close>

definition two_key_heap :: "(nat, nat, Time) AddressableHeap" where
  "two_key_heap = \<lparr>key_to_order_and_value = [1 \<mapsto> (4, 7), 2 \<mapsto> (3, 8)], queue = [(7, 1), (8, 2)]\<rparr>"

definition overfull :: "(nat, nat) CacheSystem" where
  "overfull = \<lparr>sy_pool = \<lparr>rp_limit = 5, rp_current = 7, rp_notify = True, rp_members = [(''a'', two_key_heap)]\<rparr>,
     sy_backends = [\<lparr>pb_inner = [1 \<mapsto> 4, 2 \<mapsto> 3], pb_subscribers = [Lru \<lparr>lru_member = ''a'', lru_resource_estimator = \<lambda>k v. v\<rparr>]\<rparr>],
     sy_phase = Top\<rparr>"

lemma overfull_reachable: "sys_step\<^sup>*\<^sup>* (system_new 5) overfull"
proof -
  let ?lru = "Lru \<lparr>lru_member = ''a'', lru_resource_estimator = \<lambda>(k::nat) v::nat. v\<rparr>"
  let ?pool = "\<lambda>c n h. \<lparr>rp_limit = 5, rp_current = c, rp_notify = n, rp_members = [(''a'', h)]\<rparr>"
  let ?sy0 = "system_new 5 :: (nat, nat) CacheSystem"
  let ?sy1 = "?sy0\<lparr>sy_backends := [backend_new]\<rparr>"
  let ?b2 = "\<lparr>pb_inner = Map.empty, pb_subscribers = [?lru]\<rparr>"
  let ?sy2 = "?sy1\<lparr>sy_pool := ?pool 0 False ah_new, sy_backends := [?b2]\<rparr>"
  let ?b3 = "\<lparr>pb_inner = [1 \<mapsto> 4], pb_subscribers = [?lru]\<rparr>"
  let ?sy3 = "?sy2\<lparr>sy_pool := ?pool 4 False (one_key_heap 1 4 7), sy_backends := [?b3]\<rparr>"
  have "sys_step ?sy0 ?sy1" using step_new [of ?sy0] by (simp add: system_new_def)
  moreover have "add_lru_policy 0 ''a'' (\<lambda>k v. v) (pool_new 5) (backend_new :: (nat, nat) PolicyBackend) = Some (?pool 0 False ah_new, ?b2)"
    by (simp add: add_lru_policy_def ensure_empty_performs backend_new_def register_member_def pool_new_def)
  then have "sys_step ?sy1 ?sy2"
    using step_lru [of ?sy1 "[]" backend_new "[]" 0 "''a''" "\<lambda>k v. v" "?pool 0 False ah_new" ?b2] by (simp add: system_new_def)
  moreover have "cache_step 7 (Set 1 4) (?pool 0 False ah_new) ?b2 = Some (?pool 4 False (one_key_heap 1 4 7), ?b3)"
    by (simp add: backend_set_def cr_set_def recorder_set_def lru_set_def perform_changes.simps one_key_heap_def pool_last_used_def
        pool_put_last_used_def ah_remove_def ah_insert_def ah_new_def pool_add_def resource_add_def btree_insert_def)
  then have "sys_step ?sy2 ?sy3"
    using step_call [of ?sy2 "[]" ?b2 "[]" 7 "Set 1 4"] by simp
  moreover have "cache_step 8 (Set 2 3) (?pool 4 False (one_key_heap 1 4 7)) ?b3 = Some (sy_pool overfull, hd (sy_backends overfull))"
    by (simp add: backend_set_def cr_set_def recorder_set_def lru_set_def perform_changes.simps one_key_heap_def pool_last_used_def
        pool_put_last_used_def ah_remove_def ah_insert_def ah_new_def pool_add_def resource_add_def btree_insert_def overfull_def two_key_heap_def)
  then have "sys_step ?sy3 overfull"
    using step_call [of ?sy3 "[]" ?b3 "[]" 8 "Set 2 3"] by (simp add: overfull_def system_new_def)
  ultimately show ?thesis by (meson converse_rtranclp_into_rtranclp rtranclp.rtrancl_refl)
qed

section \<open>Correctness of the system\<close>

text \<open>
  C4. In every reachable state of a pool and its caches, whatever the interleaving of calls, added policies, dropped
  caches and steps of the clean-up loop, the usage the pool has counted is the sum of the estimated sizes of
  all entries its caches hold, and if it exceeds the limit while the loop sleeps, the loop has a wake-up pending.
\<close>

theorem pool_accounting_exact:
  assumes "sys_step\<^sup>*\<^sup>* (system_new limit) sy"
  shows "rp_current (sy_pool sy) = sum_list (map cache_usage (sy_backends sy))
    \<and> (sy_phase sy = Idle \<and> rp_current (sy_pool sy) > limit \<longrightarrow> rp_notify (sy_pool sy))"
  using reachable_ok [OF assms] backends_usage by (auto simp: sys_ok_def pool_announced_def)

theorem pool_accounting_exact_witness:
  "sys_step\<^sup>*\<^sup>* (system_new 5) overfull \<and> rp_current (sy_pool overfull) = sum_list (map cache_usage (sy_backends overfull))"
  using pool_accounting_exact [OF overfull_reachable] overfull_reachable by blast

text \<open>
  C10. In every reachable state no part of the system can panic, except that setting a value may overflow the counter
  of the pool: every call on a cache returns, a set under the condition that the usage of the pool and the
  sizes estimated for the value add up to less than \<open>2 ^ 64\<close>, every cache can be dropped, and the clean-up loop can
  take its next step, even when it works on a reading of the usage that is out of date or has chosen victims
  of a cache that is gone.
\<close>

theorem cache_system_never_panics:
  assumes "sys_step\<^sup>*\<^sup>* (system_new limit) sy"
  shows "clean_up_step now sy \<noteq> None \<and>
    (\<forall>b \<in> set (sy_backends sy). (call_room c (sy_pool sy) b \<longrightarrow> cache_step now c (sy_pool sy) b \<noteq> None) \<and> drop_subscribers (pb_subscribers b) (sy_pool sy) \<noteq> None)"
proof (intro conjI ballI impI)
  have ok: "sys_ok sy" by (rule reachable_ok(1) [OF assms])
  show "clean_up_step now sy \<noteq> None" using clean_up_step_ok [OF ok, of now] by auto
  fix b assume "b \<in> set (sy_backends sy)"
  then obtain xs ys where b: "backends_ok (sy_pool sy) (xs @ b # ys)" using ok unfolding sys_ok_def by (metis split_list)
  then show "drop_subscribers (pb_subscribers b) (sy_pool sy) \<noteq> None" using sys_ok_drop [of "sy_pool sy" xs b ys] by auto
  have "backend_inv (sy_pool sy) b" using b by (simp add: backends_ok_def)
  then show "cache_step now c (sy_pool sy) b \<noteq> None" if "call_room c (sy_pool sy) b"
    using that cache_step_settles [of "sy_pool sy" b c now] by (auto simp: cache_step_request settles_def)
qed

theorem cache_system_never_panics_witness:
  "sys_step\<^sup>*\<^sup>* (system_new 5) overfull \<and> clean_up_step 9 overfull \<noteq> None
    \<and> cache_step 9 (Set 3 5) (sy_pool overfull) (hd (sy_backends overfull)) \<noteq> None"
  using cache_system_never_panics [OF overfull_reachable, of 9 "Set 3 5"] overfull_reachable by (auto simp: overfull_def records_need_def)

lemma clean_up_run_add:
  "clean_up_run clock (m + n) sy = clean_up_run clock m sy \<bind> clean_up_run (\<lambda>i. clock (m + i)) n"
  by (induction m arbitrary: clock sy) (auto split: bind_splits)

text \<open>The victims are removed one member at a time; what stays is at most what was spared.\<close>

lemma delete_victims:
  assumes "backends_ok (sy_pool sy) (sy_backends sy)" "sy_phase sy = Deleting vs"
  shows "\<exists>sy'. clean_up_run clock (Suc (length vs)) sy = Some sy' \<and> sy_phase sy' = Top \<and> backends_ok (sy_pool sy') (sy_backends sy')
    \<and> rp_limit (sy_pool sy') = rp_limit (sy_pool sy) \<and> (distinct (map fst vs) \<longrightarrow> rp_current (sy_pool sy') \<le> pool_rest (sy_pool sy) vs)"
  using assms
proof (induction vs arbitrary: sy clock)
  case Nil
  have "pool_rest (sy_pool sy) [] = rp_current (sy_pool sy)"
    using Nil(1) by (simp add: backends_ok_def pool_ok_def pool_rest_def victims_of_def comp_def case_prod_unfold)
  then show ?case using Nil by (simp add: clean_up_step_def)
next
  case (Cons v vs)
  obtain i ks where v: "v = (i, ks)" by (cases v)
  obtain pool' bs' where e: "evict_member (clock 0) i ks (sy_pool sy) (sy_backends sy) = Some (pool', bs')" "backends_ok pool' bs'"
      "rp_limit pool' = rp_limit (sy_pool sy)" "i \<notin> fst ` set vs \<Longrightarrow> pool_rest pool' vs \<le> pool_rest (sy_pool sy) ((i, ks) # vs)"
    using evict_member_ok [OF Cons.prems(1)] by metis
  let ?sy = "sy\<lparr>sy_pool := pool', sy_backends := bs', sy_phase := Deleting vs\<rparr>"
  obtain sy' where "clean_up_run (\<lambda>i. clock (Suc i)) (Suc (length vs)) ?sy = Some sy'" "sy_phase sy' = Top"
      "backends_ok (sy_pool sy') (sy_backends sy')" "rp_limit (sy_pool sy') = rp_limit pool'"
      "distinct (map fst vs) \<longrightarrow> rp_current (sy_pool sy') \<le> pool_rest pool' vs"
    using Cons.IH [of ?sy "\<lambda>i. clock (Suc i)"] e(2) by auto
  moreover have "clean_up_step (clock 0) sy = Some ?sy" using Cons.prems(2) e(1) v by (simp add: clean_up_step_def)
  ultimately show ?case using e(3,4) v by (auto intro: order_trans)
qed

section \<open>Convergence\<close>

definition converges :: "(nat \<Rightarrow> Time) \<Rightarrow> ('k::linorder, 'v) CacheSystem \<Rightarrow> bool" where
  "converges clock sy \<longleftrightarrow> (\<exists>n sy'. clean_up_run clock n sy = Some sy' \<and> sy_phase sy' = Idle \<and> rp_limit (sy_pool sy') = rp_limit (sy_pool sy)
     \<and> rp_current (sy_pool sy') \<le> rp_limit (sy_pool sy))"

lemma converges_run:
  assumes "clean_up_run clock m sy = Some sy'" "rp_limit (sy_pool sy') = rp_limit (sy_pool sy)" "converges (\<lambda>i. clock (m + i)) sy'"
  shows "converges clock sy"
proof -
  obtain n sy'' where "clean_up_run (\<lambda>i. clock (m + i)) n sy' = Some sy''" "sy_phase sy'' = Idle"
      "rp_limit (sy_pool sy'') = rp_limit (sy_pool sy)" "rp_current (sy_pool sy'') \<le> rp_limit (sy_pool sy)"
    using assms(2,3) by (auto simp: converges_def)
  then show ?thesis using assms(1) unfolding converges_def by (intro exI [of _ "m + n"]) (simp add: clean_up_run_add)
qed

lemma converges_step:
  assumes "clean_up_step (clock 0) sy = Some sy'" "rp_limit (sy_pool sy') = rp_limit (sy_pool sy)" "converges (\<lambda>i. clock (Suc i)) sy'"
  shows "converges clock sy"
  by (rule converges_run [where m = "Suc 0"]) (use assms in simp_all)

lemma converges_low:
  assumes "sy_phase sy = Top" "rp_current (sy_pool sy) \<le> rp_limit (sy_pool sy)"
  shows "converges clock sy"
  unfolding converges_def
  by (rule exI [of _ 2]) (use assms in \<open>simp add: numeral_2_eq_2 clean_up_step_def\<close>)

lemma converges_deleting:
  assumes "backends_ok (sy_pool sy) (sy_backends sy)" "sy_phase sy = Deleting vs" "distinct (map fst vs)"
    and "pool_rest (sy_pool sy) vs \<le> rp_limit (sy_pool sy)"
  shows "converges clock sy"
proof -
  obtain sy' where "clean_up_run clock (Suc (length vs)) sy = Some sy'" "sy_phase sy' = Top" "rp_limit (sy_pool sy') = rp_limit (sy_pool sy)"
      "rp_current (sy_pool sy') \<le> pool_rest (sy_pool sy) vs"
    using delete_victims [OF assms(1,2)] assms(3) by blast
  then show ?thesis using assms(4) converges_run converges_low by (metis order_trans)
qed

lemma converges_top:
  assumes ok: "backends_ok (sy_pool sy) (sy_backends sy)" and top: "sy_phase sy = Top"
  shows "converges clock sy"
proof (cases "rp_current (sy_pool sy) \<le> rp_limit (sy_pool sy)")
  case True
  then show ?thesis using top by (rule converges_low [rotated])
next
  case False
  have pool: "pool_ok (sy_pool sy)" "rp_members (sy_pool sy) \<noteq> []" using ok False by (auto simp: backends_ok_def pool_ok_def)
  obtain cs xs rest where sel: "candidates (rp_members (sy_pool sy)) = Some cs"
      "select_loop (rp_limit (sy_pool sy)) (rp_current (sy_pool sy)) cs [] = Some (fold push_choice xs [])"
      "chosen (rp_limit (sy_pool sy)) (rp_current (sy_pool sy)) cs xs rest"
      "\<And>i. items_of cs i = (case pool_last_used i (sy_pool sy) of None \<Rightarrow> [] | Some h \<Rightarrow> heap_items h)"
    using selection [OF pool] by blast
  let ?vs = "fold push_choice xs []"
  have run: "clean_up_run clock 2 sy = Some (sy\<lparr>sy_phase := Deleting ?vs\<rparr>)"
    using top False pool(2) sel(1,2) by (simp add: numeral_2_eq_2 clean_up_step_def)
  have "distinct (map fst ?vs)" using fold_push_choice [of "[]" xs] by auto
  then have "converges (\<lambda>i. clock (2 + i)) (sy\<lparr>sy_phase := Deleting ?vs\<rparr>)"
    by (intro converges_deleting) (use ok selection_enough [OF pool(1) sel(3,4)] in simp_all)
  from this show ?thesis by (rule converges_run [where clock = clock, OF run, rotated]) simp
qed

lemma converges_idle:
  assumes "sys_ok sy" "sy_phase sy = Idle"
  shows "converges clock sy"
proof (cases "rp_current (sy_pool sy) \<le> rp_limit (sy_pool sy)")
  case True
  then show ?thesis unfolding converges_def using assms(2) by (intro exI [of _ 0]) simp
next
  case False
  let ?sy = "sy\<lparr>sy_pool := (sy_pool sy)\<lparr>rp_notify := False\<rparr>, sy_phase := Top\<rparr>"
  have step: "clean_up_step (clock 0) sy = Some ?sy"
    using False assms by (simp add: clean_up_step_def sys_ok_def pool_announced_def)
  have "converges (\<lambda>i. clock (Suc i)) ?sy"
    by (rule converges_top) (use assms(1) backends_ok_notify in \<open>auto simp: sys_ok_def\<close>)
  from this show ?thesis by (rule converges_step [where clock = clock, OF step, rotated]) simp
qed

lemma converges_victims:
  assumes "sys_ok sy" "sy_phase sy = Deleting vs"
  shows "converges clock sy"
proof -
  obtain sy' where "clean_up_run clock (Suc (length vs)) sy = Some sy'" "sy_phase sy' = Top" "backends_ok (sy_pool sy') (sy_backends sy')"
      "rp_limit (sy_pool sy') = rp_limit (sy_pool sy)"
    using delete_victims [OF _ assms(2)] assms(1) unfolding sys_ok_def by blast
  then show ?thesis using converges_run converges_top by blast
qed

lemma converges_ok:
  assumes "sys_ok sy"
  shows "converges clock sy"
proof (cases "sy_phase sy")
  case Top
  then show ?thesis using assms by (auto simp: sys_ok_def intro: converges_top)
next
  case (Checked c)
  obtain sy' where step: "clean_up_step (clock 0) sy = Some sy'" "sys_ok sy'" "rp_limit (sy_pool sy') = rp_limit (sy_pool sy)"
    using clean_up_step_ok [OF assms] by blast
  then have "sy_phase sy' = Idle \<or> sy_phase sy' = Top \<or> (\<exists>vs. sy_phase sy' = Deleting vs)"
    using Checked by (auto simp: clean_up_step_def split: if_splits bind_splits)
  then have "converges (\<lambda>i. clock (Suc i)) sy'"
    using step(2) converges_idle converges_top converges_victims unfolding sys_ok_def by blast
  then show ?thesis by (rule converges_step [where clock = clock, OF step(1,3)])
next
  case Idle
  then show ?thesis by (rule converges_idle [OF assms])
next
  case (Deleting vs)
  then show ?thesis by (rule converges_victims [OF assms])
qed

text \<open>
  C3. From every reachable state the clean-up loop, left to itself and whatever the clock shows, returns to sleep
  after finitely many steps with the usage of the pool within its limit.
\<close>

theorem clean_up_converges:
  assumes "sys_step\<^sup>*\<^sup>* (system_new limit) sy"
  shows "\<exists>n sy'. clean_up_run clock n sy = Some sy' \<and> sy_phase sy' = Idle \<and> rp_current (sy_pool sy') \<le> limit"
  using converges_ok [OF reachable_ok(1) [OF assms], of clock] reachable_ok(2) [OF assms] by (auto simp: converges_def)

theorem clean_up_converges_witness:
  "rp_current (sy_pool overfull) > 5 \<and> (\<exists>n sy'. clean_up_run int n overfull = Some sy' \<and> sy_phase sy' = Idle \<and> rp_current (sy_pool sy') \<le> 5)"
  using clean_up_converges [OF overfull_reachable, of int] by (simp add: overfull_def)

end
