(* ===== verification/Tsm_Simple8b.thy ===== *)
theory Tsm_Simple8b
  imports Prelude
begin

text \<open>
  The simple8b packing of unsigned integers (\<^verbatim>\<open>influxdb_tsm/src/encoders/simple8b.rs\<close>): as many values as fit are put
  into 60 bits of a word, the selector in the other four says how many of which width. Words are written as
  eight bytes, most significant first.

  The destination vector is an argument and part of the result. An error comes with its message.
\<close>

section \<open>Bytes of a word\<close>

definition to_be_bytes :: "u64 \<Rightarrow> u8 list" where
  "to_be_bytes v = map (\<lambda>i. ucast (drop_bit (56 - 8 * i) v)) [0..<8]"

definition from_be_bytes :: "u8 list \<Rightarrow> u64" where
  "from_be_bytes bs = foldl (\<lambda>acc b. push_bit 8 acc OR ucast b) 0 bs"

lemma length_to_be_bytes [simp]: "length (to_be_bytes v) = 8"
  by (simp add: to_be_bytes_def)

lemma from_to_be_bytes [simp]: "from_be_bytes (to_be_bytes v) = v"
proof (rule bit_word_eqI)
  fix n assume "n < LENGTH(64)"
  then have "n < 8 \<or> (8 \<le> n \<and> n < 16) \<or> (16 \<le> n \<and> n < 24) \<or> (24 \<le> n \<and> n < 32) \<or> (32 \<le> n \<and> n < 40) \<or> (40 \<le> n \<and> n < 48)
      \<or> (48 \<le> n \<and> n < 56) \<or> (56 \<le> n \<and> n < 64)" by auto
  then show "bit (from_be_bytes (to_be_bytes v)) n \<longleftrightarrow> bit v n"
    by (elim disjE conjE) (simp_all add: from_be_bytes_def to_be_bytes_def upt_rec bit_simps less_diff_conv2)
qed

section \<open>Encoding\<close>

definition S8B_BIT_SIZE :: nat where
  "S8B_BIT_SIZE = 60"

definition MAX_VALUE :: u64 where
  "MAX_VALUE = push_bit 60 1 - 1"

text \<open>For each packing the number of values and the number of bits of each.\<close>

definition NUM_BITS :: "(nat \<times> nat) list" where
  "NUM_BITS = [(60, 1), (30, 2), (20, 3), (15, 4), (12, 5), (10, 6), (8, 7), (7, 8), (6, 10), (5, 12), (4, 15), (3, 20), (2, 30), (1, 60)]"

text \<open>Packing the first values with one code: the loop over \<^verbatim>\<open>src[i..]\<close>, nothing if one of them is too wide.\<close>

fun pack_loop :: "nat \<Rightarrow> nat \<Rightarrow> u64 \<Rightarrow> nat \<Rightarrow> u64 \<Rightarrow> u64 list \<Rightarrow> u64 option" where
  "pack_loop int_n bit_n max_val k val [] = Some val"
| "pack_loop int_n bit_n max_val k val (in_v # src) =
     (if k < int_n
      then if in_v \<ge> max_val then None
           else pack_loop int_n bit_n max_val (k + 1) (val OR push_bit (k * bit_n mod 256 mod 64) in_v) src
      else Some val)"

text \<open>The codes in order: the first one that fits, with the number of values it takes.\<close>

fun pack_codes :: "nat \<Rightarrow> (nat \<times> nat) list \<Rightarrow> u64 list \<Rightarrow> (u64 \<times> nat) option" where
  "pack_codes idx [] src = None"
| "pack_codes idx ((int_n, bit_n) # codes) src =
     (if int_n > length src then pack_codes (idx + 1) codes src
      else (case pack_loop int_n bit_n (push_bit (bit_n mod 64) 1) 0 (push_bit S8B_BIT_SIZE (of_nat idx + 2)) src of
          None \<Rightarrow> pack_codes (idx + 1) codes src
        | Some val \<Rightarrow> Some (val, int_n)))"

lemma pack_codes_pos:
  assumes "pack_codes idx codes src = Some (val, n)" "\<forall>(int_n, bit_n) \<in> set codes. 0 < int_n"
  shows "0 < n \<and> n \<le> length src"
  using assms by (induction idx codes src rule: pack_codes.induct) (auto split: if_splits option.splits)

lemma NUM_BITS_pos: "\<forall>(int_n, bit_n) \<in> set NUM_BITS. 0 < int_n"
  by (simp add: NUM_BITS_def)

text \<open>The run of ones at the front, of at most 240 or 120 values.\<close>

definition ones_run :: "u64 list \<Rightarrow> nat" where
  "ones_run src = (let a = (if length src \<ge> 240 then take 240 src else take 120 src) in length (takeWhile (\<lambda>x. x = 1) a))"

lemma ones_run_le: "ones_run src \<le> length src"
  using length_takeWhile_le [of "\<lambda>x. x = 1" "take 240 src"] length_takeWhile_le [of "\<lambda>x. x = 1" "take 120 src"]
  by (auto simp: ones_run_def Let_def)

function simple8b_encode :: "u64 list \<Rightarrow> u8 list \<Rightarrow> string + u8 list" where
  "simple8b_encode src dst =
     (if src = [] then Inr dst
      else if length src \<ge> 120 \<and> ones_run src = 240 then simple8b_encode (drop 240 src) (resize (length dst + 8) 0 dst)
      else if length src \<ge> 120 \<and> ones_run src \<ge> 120 then simple8b_encode (drop 120 src) (dst @ to_be_bytes (push_bit 60 1))
      else (case pack_codes 0 NUM_BITS src of
          None \<Rightarrow> Inl ''value out of bounds''
        | Some (val, int_n) \<Rightarrow> simple8b_encode (drop int_n src) (dst @ to_be_bytes val)))"
  by pat_completeness auto
termination
  by (relation "measure (length \<circ> fst)") (auto dest: pack_codes_pos [OF _ NUM_BITS_pos])

declare simple8b_encode.simps [simp del]

section \<open>Decoding\<close>

text \<open>The loop that fills the first \<open>n\<close> places of the destination from the low bits of a word.\<close>

fun unpack_values :: "nat \<Rightarrow> u64 \<Rightarrow> nat \<Rightarrow> u64 \<Rightarrow> u64 list" where
  "unpack_values 0 m s v = []"
| "unpack_values (Suc n) m s v = (v AND m) # unpack_values n m s (drop_bit s v)"

definition decode_value :: "u64 \<Rightarrow> u64 list" where
  "decode_value v =
     (let sel = drop_bit S8B_BIT_SIZE v
      in if sel = 0 then replicate 240 1
         else if sel = 1 then replicate 120 1
         else if sel = 2 then unpack_values 60 0x01 1 v
         else if sel = 3 then unpack_values 30 0x03 2 v
         else if sel = 4 then unpack_values 20 0x07 3 v
         else if sel = 5 then unpack_values 15 0x0f 4 v
         else if sel = 6 then unpack_values 12 0x1f 5 v
         else if sel = 7 then unpack_values 10 0x3f 6 v
         else if sel = 8 then unpack_values 8 0x7f 7 v
         else if sel = 9 then unpack_values 7 0xff 8 v
         else if sel = 10 then unpack_values 6 0x03ff 10 v
         else if sel = 11 then unpack_values 5 0x0fff 12 v
         else if sel = 12 then [v AND 0x7fff, drop_bit 15 v AND 0x7fff, drop_bit 30 v AND 0x7fff, drop_bit 45 v AND 0x7fff]
         else if sel = 13 then unpack_values 3 0x000fffff 20 v
         else if sel = 14 then unpack_values 2 0x3fffffff 30 v
         else if sel = 15 then [v AND 0x0fffffffffffffff]
         else [])"

text \<open>Each word overwrites the destination from position \<open>j\<close> on; a source that is no multiple of eight bytes panics.\<close>

fun decode_loop :: "u8 list \<Rightarrow> nat \<Rightarrow> u64 list \<Rightarrow> u64 list option" where
  "decode_loop src j dst =
     (if src = [] then Some (take j dst)
      else do {
        let dst = (if length dst < j + 240 then resize (j + 240) 0 dst else dst);
        buf \<leftarrow> subslice 0 8 src;
        let vals = decode_value (from_be_bytes buf);
        decode_loop (drop 8 src) (j + length vals) (take j dst @ vals @ drop (j + length vals) dst)
      })"

declare decode_loop.simps [simp del]

definition simple8b_decode :: "u8 list \<Rightarrow> u64 list \<Rightarrow> u64 list option" where
  "simple8b_decode src dst = decode_loop src 0 dst"

section \<open>Packing and unpacking one word\<close>

lemma uint_power_u64:
  assumes "b < 64"
  shows "uint (2 ^ b :: u64) = 2 ^ b"
proof -
  have "(2 ^ b :: int) < 2 ^ 64" using assms by (intro power_strict_increasing) simp_all
  then have "uint (word_of_int (2 ^ b) :: u64) = 2 ^ b" unfolding uint_word_of_int by simp
  then show ?thesis by simp
qed

lemma narrow_bit:
  fixes x :: u64
  assumes "x < push_bit b 1" "b < 64" "bit x n"
  shows "n < b"
proof -
  have "uint x < 2 ^ b" using assms(1,2) by (simp add: word_less_def uint_power_u64)
  then have "take_bit b (uint x) = uint x" by (simp add: take_bit_int_eq_self_iff)
  then have "take_bit b x = x" by (metis unsigned_take_bit_eq word_uint_eq_iff)
  then show ?thesis using assms(3) by (metis bit_take_bit_iff)
qed

text \<open>Values of \<open>b\<close> bits side by side, the first one at position \<open>k\<close>.\<close>

fun packed :: "nat \<Rightarrow> nat \<Rightarrow> u64 list \<Rightarrow> u64" where
  "packed b k [] = 0"
| "packed b k (x # xs) = push_bit (k * b) x OR packed b (k + 1) xs"

definition narrow :: "nat \<Rightarrow> u64 list \<Rightarrow> bool" where
  "narrow b xs \<longleftrightarrow> (\<forall>x \<in> set xs. x < push_bit b 1)"

lemma narrow_simps [simp]: "narrow b []" "narrow b (x # xs) \<longleftrightarrow> x < push_bit b 1 \<and> narrow b xs"
  by (simp_all add: narrow_def)

lemma packed_bit:
  assumes "narrow b xs" "b < 64" "bit (packed b k xs) n"
  shows "k * b \<le> n \<and> n < (k + length xs) * b"
  using assms
proof (induction xs arbitrary: k)
  case (Cons x xs)
  show ?case
  proof (cases "bit (push_bit (k * b) x) n")
    case True
    then have "k * b \<le> n" "bit x (n - k * b)" by (simp_all add: bit_push_bit_iff)
    moreover from this have "n - k * b < b" using Cons.prems narrow_bit by auto
    ultimately show ?thesis by (simp add: algebra_simps)
  next
    case False
    then have "bit (packed b (k + 1) xs) n" using Cons.prems(3) by (simp add: bit_or_iff)
    then have "(k + 1) * b \<le> n \<and> n < (k + 1 + length xs) * b" by (intro Cons.IH) (use Cons.prems in simp_all)
    then show ?thesis by (simp add: algebra_simps)
  qed
qed simp

lemma packed_shift:
  assumes "narrow b xs" "0 < b" "b < 64" "(Suc k + length xs) * b \<le> 64"
  shows "drop_bit b (packed b (Suc k) xs) = packed b k xs"
  using assms
proof (induction xs arbitrary: k)
  case (Cons x xs)
  have "drop_bit b (push_bit (Suc k * b) x) = push_bit (k * b) x"
  proof (rule bit_word_eqI)
    fix n assume "n < LENGTH(64)"
    have "n + b < 64" if "bit x (n - k * b)" "k * b \<le> n"
    proof -
      have "n - k * b < b" using narrow_bit [OF _ _ that(1)] Cons.prems by simp
      then have "n + b < (Suc k + 1) * b" using that(2) by (simp add: algebra_simps)
      also have "\<dots> \<le> (Suc k + length (x # xs)) * b" by (rule mult_right_mono) simp_all
      finally show ?thesis using Cons.prems(4) by simp
    qed
    then show "bit (drop_bit b (push_bit (Suc k * b) x)) n \<longleftrightarrow> bit (push_bit (k * b) x) n"
      using \<open>n < LENGTH(64)\<close> by (auto simp: bit_simps algebra_simps)
  qed
  moreover have "drop_bit b (packed b (Suc (Suc k)) xs) = packed b (Suc k) xs" using Cons by simp
  ultimately show ?case by simp
qed simp

lemma unpack_values_packed:
  assumes "narrow b xs" "0 < b" "b < 64" "length xs * b \<le> 64" "\<And>n. n < length xs * b \<Longrightarrow> \<not> bit hi n"
  shows "unpack_values (length xs) (mask b) b (hi OR packed b 0 xs) = xs"
  using assms
proof (induction xs arbitrary: hi)
  case (Cons x xs)
  have "(hi OR packed b 0 (x # xs)) AND mask b = x"
  proof (rule bit_word_eqI)
    fix n assume "n < LENGTH(64)"
    have "\<not> bit (packed b (Suc 0) xs) n" if "n < b" using packed_bit [of b xs "Suc 0" n] Cons.prems that by auto
    moreover have "bit x n \<Longrightarrow> n < b" using narrow_bit Cons.prems by auto
    moreover have "\<not> bit hi n" if "n < b" using Cons.prems(5) [of n] that by simp
    ultimately show "bit ((hi OR packed b 0 (x # xs)) AND mask b) n \<longleftrightarrow> bit x n" using \<open>n < LENGTH(64)\<close> by (auto simp: bit_simps)
  qed
  moreover have "drop_bit b x = 0" by (rule bit_word_eqI) (use narrow_bit [of x b] Cons.prems in \<open>auto simp: bit_simps\<close>)
  then have "drop_bit b (hi OR packed b 0 (x # xs)) = drop_bit b hi OR packed b 0 xs"
    using packed_shift [of b xs 0] Cons.prems by simp
  moreover have "unpack_values (length xs) (mask b) b (drop_bit b hi OR packed b 0 xs) = xs"
    by (rule Cons.IH) (use Cons.prems in \<open>auto simp: bit_simps\<close>)
  ultimately show ?case by simp
qed simp

lemma pack_loop_exact:
  assumes "n * b \<le> 64" "k + length src \<ge> n" "k \<le> n" "0 < b"
  shows "pack_loop n b (push_bit b 1) k val src =
    (if narrow b (take (n - k) src) then Some (val OR packed b k (take (n - k) src)) else None)"
  using assms
proof (induction src arbitrary: k val)
  case (Cons x src)
  show ?case
  proof (cases "k < n")
    case True
    then have "Suc k * b \<le> n * b" by (intro mult_right_mono) simp_all
    then have "k * b < 64" using Cons.prems(1,4) by simp
    moreover have "n - k = Suc (n - Suc k)" using True by simp
    ultimately show ?thesis using True Cons.IH [of "Suc k"] Cons.prems by (auto simp: or.assoc not_le)
  qed simp
qed simp

lemma low_bits_packed:
  assumes "narrow b xs" "0 < b" "b < 64" "length xs * b \<le> 60"
  shows "drop_bit 60 (push_bit 60 sel OR packed b 0 xs) = take_bit 4 sel"
    and "unpack_values (length xs) (mask b) b (push_bit 60 sel OR packed b 0 xs) = xs"
proof -
  have "drop_bit 60 (packed b 0 xs) = 0"
    by (rule bit_word_eqI) (use packed_bit [OF assms(1,3), of 0] assms(4) in \<open>fastforce simp: bit_simps\<close>)
  moreover have "drop_bit 60 (push_bit 60 sel) = take_bit 4 sel" by (rule bit_word_eqI) (auto simp: bit_simps)
  ultimately show "drop_bit 60 (push_bit 60 sel OR packed b 0 xs) = take_bit 4 sel" by simp
  show "unpack_values (length xs) (mask b) b (push_bit 60 sel OR packed b 0 xs) = xs"
    by (rule unpack_values_packed) (use assms in \<open>auto simp: bit_simps\<close>)
qed

lemma masks_u64:
  "(mask 1 :: u64) = 0x01" "(mask 2 :: u64) = 0x03" "(mask 3 :: u64) = 0x07" "(mask 4 :: u64) = 0x0f" "(mask 5 :: u64) = 0x1f"
  "(mask 6 :: u64) = 0x3f" "(mask 7 :: u64) = 0x7f" "(mask 8 :: u64) = 0xff" "(mask 10 :: u64) = 0x03ff" "(mask 12 :: u64) = 0x0fff"
  "(mask 15 :: u64) = 0x7fff" "(mask 20 :: u64) = 0x000fffff" "(mask 30 :: u64) = 0x3fffffff" "(mask 60 :: u64) = 0x0fffffffffffffff"
  by (simp_all add: mask_eq_exp_minus_1)

lemma decode_value_code:
  assumes "(sel, n, b) \<in> set (zip [2..<16] NUM_BITS)" "narrow b xs" "length xs = n"
  shows "decode_value (push_bit 60 (of_nat sel) OR packed b 0 xs) = xs"
proof -
  have nb: "0 < b" "b < 64" "length xs * b \<le> 60" using assms(1,3) by (auto simp: NUM_BITS_def upt_rec)
  note low = low_bits_packed [OF assms(2) nb, of "of_nat sel"]
  have u4: "unpack_values 4 m 15 v = [v AND m, drop_bit 15 v AND m, drop_bit 30 v AND m, drop_bit 45 v AND m]" for m v
    by (simp add: numeral_eq_Suc drop_bit_drop_bit)
  have u1: "unpack_values (Suc 0) m 60 v = [v AND m]" for m v by simp
  from assms(1) have "(sel, n, b) \<in> {(2, 60, 1), (3, 30, 2), (4, 20, 3), (5, 15, 4), (6, 12, 5), (7, 10, 6), (8, 8, 7), (9, 7, 8), (10, 6, 10), (11, 5, 12),
      (12, 4, 15), (13, 3, 20), (14, 2, 30), (15, 1, 60)}" by (simp add: NUM_BITS_def upt_rec)
  then show ?thesis
    unfolding decode_value_def S8B_BIT_SIZE_def Let_def low(1)
    using low(2) unfolding assms(3)
    by (elim insertE emptyE Pair_inject) (simp_all add: masks_u64 u4 u1 del: unpack_values.simps)
qed

section \<open>Choosing a packing\<close>

lemma NUM_BITS_fit: "(n, b) \<in> set NUM_BITS \<Longrightarrow> 0 < n \<and> 0 < b \<and> b \<le> 60 \<and> n * b \<le> 60"
  by (auto simp: NUM_BITS_def)

lemma pack_codes_Cons:
  assumes "(n, b) \<in> set NUM_BITS"
  shows "pack_codes idx ((n, b) # codes) src =
    (if n \<le> length src \<and> narrow b (take n src) then Some (push_bit 60 (of_nat (idx + 2)) OR packed b 0 (take n src), n)
     else pack_codes (idx + 1) codes src)"
proof -
  have "0 < n" "0 < b" "b < 64" "n * b \<le> 64" using NUM_BITS_fit [OF assms] by auto
  then have "pack_loop n b (push_bit (b mod 64) 1) 0 v src = (if narrow b (take n src) then Some (v OR packed b 0 (take n src)) else None)"
    if "n \<le> length src" for v
    using pack_loop_exact [of n b 0 src v] that by simp
  then show ?thesis by (simp add: S8B_BIT_SIZE_def not_le add.commute)
qed

lemma pack_codes_Some:
  assumes "set codes \<subseteq> set NUM_BITS" "pack_codes idx codes src = Some (val, n)"
  shows "\<exists>k b. k < length codes \<and> codes ! k = (n, b) \<and> n \<le> length src \<and> narrow b (take n src)
    \<and> val = push_bit 60 (of_nat (idx + k + 2)) OR packed b 0 (take n src)"
  using assms
proof (induction codes arbitrary: idx)
  case (Cons c codes)
  obtain m b where c: "c = (m, b)" by (cases c)
  have rec: "pack_codes idx (c # codes) src = (if m \<le> length src \<and> narrow b (take m src)
      then Some (push_bit 60 (of_nat (idx + 2)) OR packed b 0 (take m src), m) else pack_codes (idx + 1) codes src)"
    unfolding c by (rule pack_codes_Cons) (use Cons.prems(1) c in simp)
  show ?case
  proof (cases "m \<le> length src \<and> narrow b (take m src)")
    case True
    then show ?thesis using Cons.prems(2) rec c by (intro exI [of _ 0] exI [of _ b]) auto
  next
    case False
    have "pack_codes (idx + 1) codes src = Some (val, n)" using Cons.prems(2) unfolding rec if_not_P [OF False] .
    then obtain k b where "k < length codes" "codes ! k = (n, b)" "n \<le> length src" "narrow b (take n src)"
        "val = push_bit 60 (of_nat (idx + 1 + k + 2)) OR packed b 0 (take n src)"
      using Cons.IH [of "idx + 1"] Cons.prems(1) by auto
    then show ?thesis by (intro exI [of _ "Suc k"] exI [of _ b]) (simp add: add_ac)
  qed
qed simp

lemma pack_codes_None:
  assumes "set codes \<subseteq> set NUM_BITS"
  shows "pack_codes idx codes src = None \<longleftrightarrow> (\<forall>(n, b) \<in> set codes. n > length src \<or> \<not> narrow b (take n src))"
  using assms by (induction codes arbitrary: idx) (auto simp: pack_codes_Cons simp del: pack_codes.simps(2) split: if_splits)

lemma max_value_narrow: "x \<le> MAX_VALUE \<longleftrightarrow> x < push_bit 60 1"
  by (simp add: MAX_VALUE_def word_le_def word_less_def) presburger

lemma narrow_mono:
  assumes "x < push_bit b (1 :: u64)" "b \<le> 60"
  shows "x < push_bit 60 1"
proof -
  have "(2 ^ b :: int) \<le> 2 ^ 60" using assms(2) by (rule power_increasing) simp
  then show ?thesis using assms by (simp add: word_less_def uint_power_u64)
qed

lemma pack_codes_NUM_BITS: "pack_codes 0 NUM_BITS (x # src) = None \<longleftrightarrow> \<not> x \<le> MAX_VALUE"
proof -
  have "narrow b (take n (x # src)) \<Longrightarrow> x \<le> MAX_VALUE" if "(n, b) \<in> set NUM_BITS" for n b
    using NUM_BITS_fit [OF that] narrow_mono [of x b] unfolding max_value_narrow by (cases n) simp_all
  moreover have "(1, 60) \<in> set NUM_BITS" by (simp add: NUM_BITS_def)
  moreover have "narrow 60 (take 1 (x # src)) \<longleftrightarrow> x \<le> MAX_VALUE" unfolding max_value_narrow by simp
  ultimately show ?thesis unfolding pack_codes_None [OF subset_refl] by (metis (no_types, lifting) case_prodD case_prodI2 length_Cons less_Suc_eq_0_disj not_less_eq One_nat_def zero_less_Suc)
qed

section \<open>Round trip\<close>

lemma length_unpack_values [simp]: "length (unpack_values n m s v) = n"
  by (induction n m s v rule: unpack_values.induct) auto

lemma length_decode_value: "length (decode_value v) \<le> 240"
  by (simp add: decode_value_def Let_def)

text \<open>A stream of words decodes word by word, whatever the destination held before.\<close>

lemma decode_loop_words:
  assumes "j \<le> length dst"
  shows "decode_loop (concat (map to_be_bytes ws)) j dst = Some (take j dst @ concat (map decode_value ws))"
  using assms
proof (induction ws arbitrary: j dst)
  case Nil
  then show ?case by (subst decode_loop.simps) simp
next
  case (Cons w ws)
  let ?dst = "if length dst < j + 240 then resize (j + 240) 0 dst else dst"
  let ?n = "j + length (decode_value w)"
  let ?dst' = "take j ?dst @ decode_value w @ drop ?n ?dst"
  have len: "j + 240 \<le> length ?dst" by simp
  have keep: "take j ?dst = take j dst" using Cons.prems by (simp add: resize_grow)
  have "?n \<le> length ?dst'" using len by simp
  note IH = Cons.IH [OF this]
  have take: "take ?n ?dst' = take j dst @ decode_value w" using len keep Cons.prems by simp
  have "to_be_bytes w \<noteq> []" by (metis length_to_be_bytes list.size(3) zero_neq_numeral)
  have "decode_loop (concat (map to_be_bytes (w # ws))) j dst = decode_loop (concat (map to_be_bytes ws)) ?n ?dst'"
    using \<open>to_be_bytes w \<noteq> []\<close> by (subst decode_loop.simps) (simp add: Let_def)
  then show ?case unfolding IH take by simp
qed

lemma takeWhile_ones:
  assumes "n \<le> length (takeWhile (\<lambda>x. x = (1 :: u64)) (take m src))"
  shows "take n src = replicate n 1"
proof -
  let ?t = "takeWhile (\<lambda>x. x = 1) (take m src)"
  have "take n ?t = take n (take m src)" using assms by (metis takeWhile_eq_take take_take min.absorb1)
  moreover have "n \<le> m" using assms length_takeWhile_le [of "\<lambda>x. x = 1" "take m src"] by simp
  ultimately have "take n src = take n ?t" by (simp add: min_def)
  moreover have "\<forall>x \<in> set (take n ?t). x = 1" by (meson in_set_takeD set_takeWhileD)
  moreover have "length (take n ?t) = n" using assms by simp
  ultimately show ?thesis by (metis replicate_eqI)
qed

lemma ones_run_prefix: "n \<le> ones_run src \<Longrightarrow> take n src = replicate n 1"
  unfolding ones_run_def Let_def by (auto intro: takeWhile_ones split: if_splits)

lemma zeros_word: "resize (length dst + 8) 0 dst = dst @ to_be_bytes 0"
  by (simp add: resize_grow to_be_bytes_def upt_rec numeral_eq_Suc)

lemma decode_ones: "decode_value 0 = replicate 240 1" "decode_value 0x1000000000000000 = replicate 120 1"
  by (simp_all add: decode_value_def S8B_BIT_SIZE_def)

lemma one_le_max: "1 \<le> MAX_VALUE"
  by (simp add: MAX_VALUE_def)

text \<open>One step of the encoder: the first \<open>n\<close> values go into the word \<open>w\<close>.\<close>

definition emits :: "u64 list \<Rightarrow> nat \<Rightarrow> u64 \<Rightarrow> bool" where
  "emits src n w \<longleftrightarrow> 0 < n \<and> n \<le> length src \<and> decode_value w = take n src \<and> (\<forall>x \<in> set (take n src). x \<le> MAX_VALUE)
     \<and> (\<forall>dst. simple8b_encode src dst = simple8b_encode (drop n src) (dst @ to_be_bytes w))"

lemma encode_step:
  assumes "src \<noteq> []"
  shows "(\<exists>n w. emits src n w) \<or> (\<forall>dst. simple8b_encode src dst = Inl ''value out of bounds'') \<and> \<not> hd src \<le> MAX_VALUE"
proof -
  consider (run240) "length src \<ge> 120" "ones_run src = 240" | (run120) "length src \<ge> 120" "ones_run src \<noteq> 240" "ones_run src \<ge> 120"
    | (codes) "\<not> (length src \<ge> 120 \<and> ones_run src \<ge> 120)" by linarith
  then show ?thesis
  proof cases
    case run240
    then have "\<forall>dst. simple8b_encode src dst = simple8b_encode (drop 240 src) (dst @ to_be_bytes 0)"
      using assms by (simp add: simple8b_encode.simps [of src] zeros_word)
    moreover have "240 \<le> length src" "decode_value 0 = take 240 src" "\<forall>x \<in> set (take 240 src). x \<le> MAX_VALUE"
      using run240 ones_run_le [of src] ones_run_prefix [of 240 src] by (simp_all add: decode_ones one_le_max)
    ultimately have "emits src 240 0" by (simp add: emits_def)
    then show ?thesis by blast
  next
    case run120
    then have "\<forall>dst. simple8b_encode src dst = simple8b_encode (drop 120 src) (dst @ to_be_bytes 0x1000000000000000)"
      using assms by (simp add: simple8b_encode.simps [of src])
    moreover have "decode_value 0x1000000000000000 = take 120 src" "\<forall>x \<in> set (take 120 src). x \<le> MAX_VALUE"
      using run120 ones_run_prefix [of 120 src] by (simp_all add: decode_ones one_le_max)
    ultimately have "emits src 120 0x1000000000000000" using run120(1) by (simp add: emits_def)
    then show ?thesis by blast
  next
    case codes
    then have step: "simple8b_encode src dst = (case pack_codes 0 NUM_BITS src of None \<Rightarrow> Inl ''value out of bounds''
        | Some (val, int_n) \<Rightarrow> simple8b_encode (drop int_n src) (dst @ to_be_bytes val))" for dst
      using assms by (subst simple8b_encode.simps) auto
    show ?thesis
    proof (cases "pack_codes 0 NUM_BITS src")
      case None
      then show ?thesis using step pack_codes_NUM_BITS [of "hd src" "tl src"] assms by simp
    next
      case (Some r)
      obtain w n where r: "r = (w, n)" by (cases r)
      obtain k b where c: "k < length NUM_BITS" "NUM_BITS ! k = (n, b)" "n \<le> length src" "narrow b (take n src)"
          "w = push_bit 60 (of_nat (0 + k + 2)) OR packed b 0 (take n src)"
        using pack_codes_Some [OF subset_refl, of 0 src w n] Some r by blast
      have k: "k < 14" using c(1) by (simp add: NUM_BITS_def)
      then have "zip [2..<16] NUM_BITS ! k = (k + 2, n, b)" using c(1,2) by (simp add: nth_upt del: upt_Suc upt_conv_Cons_Cons upt_rec_numeral)
      moreover have "k < length (zip [2..<16] NUM_BITS)" using k c(1) by simp
      ultimately have "(k + 2, n, b) \<in> set (zip [2..<16] NUM_BITS)" by (metis nth_mem)
      then have "decode_value w = take n src" unfolding c(5) using decode_value_code [of "k + 2" n b "take n src"] c(3,4) by simp
      moreover have fit: "0 < n" "b \<le> 60" using NUM_BITS_fit [of n b] c(1,2) by (metis nth_mem)+
      moreover have "\<forall>x \<in> set (take n src). x \<le> MAX_VALUE"
        using c(4) narrow_mono [OF _ fit(2)] unfolding narrow_def max_value_narrow by blast
      ultimately have "emits src n w" using c(3) Some r by (simp add: emits_def step)
      then show ?thesis by blast
    qed
  qed
qed

lemma encode_words:
  assumes "\<forall>x \<in> set src. x \<le> MAX_VALUE"
  shows "\<exists>ws. (\<forall>dst. simple8b_encode src dst = Inr (dst @ concat (map to_be_bytes ws))) \<and> concat (map decode_value ws) = src \<and> length ws \<le> length src"
  using assms
proof (induction src rule: length_induct)
  case (1 src)
  show ?case
  proof (cases "src = []")
    case True
    then show ?thesis by (intro exI [of _ "[]"]) (simp add: simple8b_encode.simps)
  next
    case False
    then obtain n w where "emits src n w" using encode_step [OF False] 1(2) by (meson hd_in_set)
    then have s: "0 < n" "n \<le> length src" "decode_value w = take n src"
        "\<And>dst. simple8b_encode src dst = simple8b_encode (drop n src) (dst @ to_be_bytes w)"
      by (simp_all add: emits_def)
    obtain ws where ws: "\<And>dst. simple8b_encode (drop n src) dst = Inr (dst @ concat (map to_be_bytes ws))"
        "concat (map decode_value ws) = drop n src" "length ws \<le> length (drop n src)"
      using 1(1) [rule_format, of "drop n src"] 1(2) False s(1) by (auto dest: in_set_dropD)
    then show ?thesis using s by (intro exI [of _ "w # ws"]) auto
  qed
qed

lemma encode_too_wide:
  assumes "\<exists>x \<in> set src. \<not> x \<le> MAX_VALUE"
  shows "simple8b_encode src dst = Inl ''value out of bounds''"
  using assms
proof (induction src arbitrary: dst rule: length_induct)
  case (1 src)
  then have ne: "src \<noteq> []" by auto
  show ?case
  proof (cases "\<forall>dst. simple8b_encode src dst = Inl ''value out of bounds''")
    case False
    then obtain n w where "emits src n w" using encode_step [OF ne] by blast
    then have s: "0 < n" "\<And>dst. simple8b_encode src dst = simple8b_encode (drop n src) (dst @ to_be_bytes w)"
        "\<forall>x \<in> set (take n src). x \<le> MAX_VALUE"
      by (simp_all add: emits_def)
    have "\<exists>x \<in> set (drop n src). \<not> x \<le> MAX_VALUE"
      using 1(2) s(3) set_append [of "take n src" "drop n src"] by (auto simp del: set_append)
    then have "simple8b_encode (drop n src) (dst @ to_be_bytes w) = Inl ''value out of bounds''"
      using 1(1) [rule_format, of "drop n src"] ne s(1) by simp
    then show ?thesis by (simp add: s(2))
  qed simp
qed

lemma simple8b_inverse:
  assumes "\<forall>x \<in> set src. x \<le> MAX_VALUE"
  shows "\<exists>bs. (\<forall>dst. simple8b_encode src dst = Inr (dst @ bs)) \<and> (\<forall>dst. simple8b_decode bs dst = Some src) \<and> length bs \<le> 8 * length src"
proof -
  obtain ws where ws: "\<And>dst. simple8b_encode src dst = Inr (dst @ concat (map to_be_bytes ws))" "concat (map decode_value ws) = src" "length ws \<le> length src"
    using encode_words [OF assms] by blast
  have "length (concat (map to_be_bytes ws)) = 8 * length ws" by (induction ws) simp_all
  moreover have "simple8b_decode (concat (map to_be_bytes ws)) dst = Some src" for dst
    using decode_loop_words [of 0 dst ws] ws(2) by (simp add: simple8b_decode_def)
  ultimately show ?thesis using ws(1,3) by auto
qed

text \<open>
  C21. Packing with simple8b succeeds exactly if every value fits 60 bits, and then unpacking gives the values back,
  into any destination. It never takes more than eight bytes for a value. Otherwise the error is reported.
\<close>

theorem simple8b_roundtrip:
  "if \<forall>x \<in> set src. x \<le> MAX_VALUE
   then \<exists>bs. simple8b_encode src dst = Inr (dst @ bs) \<and> simple8b_decode bs dst' = Some src \<and> length bs \<le> 8 * length src
   else simple8b_encode src dst = Inl ''value out of bounds''"
proof (cases "\<forall>x \<in> set src. x \<le> MAX_VALUE")
  case True
  then show ?thesis using simple8b_inverse [OF True] by auto
next
  case False
  then show ?thesis using encode_too_wide by auto
qed

theorem simple8b_roundtrip_witness:
  "\<exists>bs. simple8b_encode [7, 6, 256] [1] = Inr (1 # bs) \<and> simple8b_decode bs [] = Some [7, 6, 256]"
  using simple8b_roundtrip [of "[7, 6, 256]" "[1]" "[]"] by (auto simp: MAX_VALUE_def)

end
