(* ===== verification/Tsm_Integer.thy ===== *)
theory Tsm_Integer
  imports Tsm_Simple8b
begin

text \<open>
  Blocks of signed and unsigned integers (\<^verbatim>\<open>influxdb_tsm/src/encoders/integer.rs\<close> and \<^verbatim>\<open>unsigned.rs\<close>): differences of
  neighbours, zig-zag encoded, stored as a run, packed with simple8b, or as they are.

  An \<^verbatim>\<open>i64\<close> is the word of its bits, so that a cast to \<^verbatim>\<open>u64\<close> is the identity. The variable-length integers come from
  the \<^verbatim>\<open>integer_encoding\<close> crate and are parameters: \<open>enc\<close> gives the bytes of a value, \<open>dec\<close> the value at the
  front of some bytes and how many of them it took. The flag \<open>checks\<close> says whether the build has overflow checks: plain
  addition that overflows panics with them and wraps without.
\<close>

section \<open>Variable-length integers\<close>

type_synonym encode_var = "u64 \<Rightarrow> u8 list"
type_synonym decode_var = "u8 list \<Rightarrow> (u64 \<times> nat) option"

text \<open>What the crate promises: a byte for every seven bits, which decode to the value whatever follows them.\<close>

definition varint_codec :: "encode_var \<Rightarrow> decode_var \<Rightarrow> bool" where
  "varint_codec enc dec \<longleftrightarrow> (\<forall>v rest. dec (enc v @ rest) = Some (v, length (enc v))) \<and> (\<forall>v. enc v \<noteq> [])
     \<and> (\<forall>v k. 0 < k \<and> unat v < 128 ^ k \<longrightarrow> length (enc v) \<le> k)"

lemma varint_length:
  assumes "varint_codec enc dec"
  shows "length (enc v) \<le> 10"
proof -
  have "unat v < 2 ^ 64" using unsigned_less [of v] by simp
  then have "unat v < 128 ^ 10" by simp
  then show ?thesis using assms unfolding varint_codec_def by (metis zero_less_numeral)
qed

lemma varint_decode:
  assumes "varint_codec enc dec"
  shows "dec (enc v @ rest) = Some (v, length (enc v))" "dec (enc v) = Some (v, length (enc v))"
  using assms unfolding varint_codec_def by (metis append_Nil2)+

definition MAX_VAR_INT_64 :: nat where
  "MAX_VAR_INT_64 = 10"

text \<open>\<^verbatim>\<open>v.encode_var(&mut dst[n..])\<close>: writes into the slice, panics if it is too short, returns the number of bytes.\<close>

definition encode_var_at :: "encode_var \<Rightarrow> u64 \<Rightarrow> nat \<Rightarrow> u8 list \<Rightarrow> (u8 list \<times> nat) option" where
  "encode_var_at enc v n dst = (let bs = enc v in if n + length bs \<le> length dst
     then Some (take n dst @ bs @ drop (n + length bs) dst, length bs) else None)"

section \<open>Zig-zag\<close>

definition zig_zag_encode :: "u64 \<Rightarrow> u64" where
  "zig_zag_encode v = push_bit 1 v XOR signed_drop_bit 63 v"

definition zig_zag_decode :: "u64 \<Rightarrow> u64" where
  "zig_zag_decode v = drop_bit 1 v XOR signed_drop_bit 63 (push_bit 63 (v AND 1))"

lemma bit_zig_zag_encode: "bit (zig_zag_encode v) n \<longleftrightarrow> n < 64 \<and> (0 < n \<and> bit v (n - 1)) \<noteq> bit v 63"
  unfolding zig_zag_encode_def by (cases n; simp only: bit_xor_iff bit_push_bit_iff bit_signed_drop_bit_iff; auto dest: bit_imp_le_length)

lemma bit_zig_zag_decode: "n < 64 \<Longrightarrow> bit (zig_zag_decode v) n \<longleftrightarrow> (n < 63 \<and> bit v (Suc n)) \<noteq> bit v 0"
  unfolding zig_zag_decode_def
  by (simp only: bit_xor_iff bit_push_bit_iff bit_signed_drop_bit_iff bit_drop_bit_eq bit_and_iff bit_1_iff) (auto dest: bit_imp_le_length)

lemma zig_zag_roundtrip [simp]: "zig_zag_decode (zig_zag_encode v) = v"
proof (rule bit_word_eqI)
  fix n assume "n < LENGTH(64)"
  then have "n < 63 \<or> n = 63" by auto
  then show "bit (zig_zag_decode (zig_zag_encode v)) n \<longleftrightarrow> bit v n" by (auto simp: bit_zig_zag_decode bit_zig_zag_encode)
qed

section \<open>Encoding\<close>

definition i64_to_u64_vector :: "u64 list \<Rightarrow> u64 list" where
  "i64_to_u64_vector src = map (\<lambda>x. x) src"

text \<open>
  The loop from the last index down to 1 that replaces values by differences, encoded by \<open>f\<close>, and notes the greatest one.
\<close>

fun delta_loop :: "(u64 \<Rightarrow> u64) \<Rightarrow> nat \<Rightarrow> u64 list \<Rightarrow> u64 \<Rightarrow> u64 list \<times> u64" where
  "delta_loop f 0 deltas mx = (deltas, mx)"
| "delta_loop f (Suc i) deltas mx =
     (let d = f (deltas ! Suc i - deltas ! i)
      in delta_loop f i (deltas[Suc i := d]) (if d > mx then d else mx))"

definition use_rle :: "u64 list \<Rightarrow> bool" where
  "use_rle deltas = list_all (\<lambda>d. deltas ! 1 = d) (drop 2 deltas)"

definition encode_rle :: "encode_var \<Rightarrow> u64 \<Rightarrow> u64 \<Rightarrow> u64 \<Rightarrow> u8 list \<Rightarrow> u8 list option" where
  "encode_rle enc v delta count dst = do {
     let dst = dst @ [0];
     let dst = dst @ to_be_bytes v;
     let n = 9;
     room \<leftarrow> checked_sub (length dst) n;
     let dst = (if room \<le> MAX_VAR_INT_64 then resize (n + MAX_VAR_INT_64) 0 dst else dst);
     (dst, k) \<leftarrow> encode_var_at enc delta n dst;
     let n = n + k;
     room \<leftarrow> checked_sub (length dst) n;
     let dst = (if room \<le> MAX_VAR_INT_64 then resize (n + MAX_VAR_INT_64) 0 dst else dst);
     (dst, k) \<leftarrow> encode_var_at enc count n dst;
     Some (take (n + k) dst)
   }"

definition integer_encode :: "encode_var \<Rightarrow> u64 list \<Rightarrow> (string + u8 list) option" where
  "integer_encode enc src =
     (if src = [] then Some (Inr [])
      else let (deltas, mx) = delta_loop zig_zag_encode (length src - 1) (i64_to_u64_vector src) 0;
               deltas = deltas[0 := zig_zag_encode (src ! 0)]
           in if length deltas > 2 \<and> use_rle deltas
              then do {
                dst \<leftarrow> encode_rle enc (deltas ! 0) (deltas ! 1) (of_nat (length deltas) - 1) [];
                hd0 \<leftarrow> nth_opt dst 0;
                Some (Inr (dst[0 := hd0 OR push_bit 4 2]))
              }
              else if mx > MAX_VALUE then Some (Inr (push_bit 4 0 # concat (map to_be_bytes deltas)))
              else Some (simple8b_encode (drop 1 deltas) (push_bit 4 1 # to_be_bytes (deltas ! 0))))"

section \<open>Decoding\<close>

definition add_i64 :: "bool \<Rightarrow> u64 \<Rightarrow> u64 \<Rightarrow> u64 option" where
  "add_i64 checks a b = (if checks \<and> \<not> in_i64 (sint a + sint b) then None else Some (a + b))"

fun uncompressed_loop :: "u8 list \<Rightarrow> u64 \<Rightarrow> u64 list \<Rightarrow> u64 list option" where
  "uncompressed_loop src prev dst =
     (if src = [] then Some dst
      else do {
        buf \<leftarrow> subslice 0 8 src;
        let prev = prev + zig_zag_decode (from_be_bytes buf);
        uncompressed_loop (drop 8 src) prev (dst @ [prev])
      })"

declare uncompressed_loop.simps [simp del]

definition decode_uncompressed :: "u8 list \<Rightarrow> u64 list \<Rightarrow> (string + u64 list) option" where
  "decode_uncompressed src dst =
     (if src = [] \<or> length src mod 8 \<noteq> 0 then Some (Inl ''invalid uncompressed block length'')
      else map_option Inr (uncompressed_loop src 0 dst))"

fun rle_loop :: "nat \<Rightarrow> u64 \<Rightarrow> u64 \<Rightarrow> u64 list \<Rightarrow> u64 list" where
  "rle_loop 0 first delta_z dst = dst"
| "rle_loop (Suc count) first delta_z dst = rle_loop count (first + delta_z) delta_z (dst @ [first + delta_z])"

definition decode_rle :: "decode_var \<Rightarrow> u8 list \<Rightarrow> u64 list \<Rightarrow> (string + u64 list) option" where
  "decode_rle dec src dst =
     (if length src < 8 then Some (Inl ''not enough data to decode using RLE'')
      else do {
        s \<leftarrow> subslice 8 (length src) src;
        (case dec s of
           None \<Rightarrow> Some (Inl ''unable to decode delta'')
         | Some (delta, n) \<Rightarrow> do {
             s \<leftarrow> subslice (8 + n) (length src) src;
             (case dec s of
                None \<Rightarrow> Some (Inl ''unable to decode count'')
              | Some (count, _) \<Rightarrow> do {
                  a \<leftarrow> subslice 0 8 src;
                  let first = zig_zag_decode (from_be_bytes a);
                  let delta_z = zig_zag_decode delta;
                  Some (Inr (rle_loop (unat count) first delta_z (dst @ [first])))
                })
           })
      })"

fun sum_loop :: "bool \<Rightarrow> u64 \<Rightarrow> u64 list \<Rightarrow> u64 list \<Rightarrow> u64 list option" where
  "sum_loop checks nxt [] dst = Some dst"
| "sum_loop checks nxt (v # vs) dst = do {
     nxt \<leftarrow> add_i64 checks nxt (zig_zag_decode v);
     sum_loop checks nxt vs (dst @ [nxt])
   }"

definition decode_simple8b :: "bool \<Rightarrow> u8 list \<Rightarrow> u64 list \<Rightarrow> (string + u64 list) option" where
  "decode_simple8b checks src dst =
     (if length src < 8 then Some (Inl ''not enough data to decode packed integer.'')
      else do {
        buf \<leftarrow> subslice 0 8 src;
        let dst = dst @ [zig_zag_decode (from_be_bytes buf)];
        res \<leftarrow> simple8b_decode (drop 8 src) [];
        nxt \<leftarrow> nth_opt dst 0;
        map_option Inr (sum_loop checks nxt res dst)
      })"

definition integer_decode :: "bool \<Rightarrow> decode_var \<Rightarrow> u8 list \<Rightarrow> u64 list \<Rightarrow> (string + u64 list) option" where
  "integer_decode checks dec src dst =
     (if src = [] then Some (Inr dst)
      else let encoding = drop_bit 4 (src ! 0)
           in if encoding = 0 then decode_uncompressed (drop 1 src) dst
              else if encoding = 2 then decode_rle dec (drop 1 src) dst
              else if encoding = 1 then decode_simple8b checks (drop 1 src) dst
              else Some (Inl ''invalid block encoding''))"

section \<open>Unsigned integers\<close>

definition unsigned_encode :: "encode_var \<Rightarrow> u64 list \<Rightarrow> (string + u8 list) option" where
  "unsigned_encode enc src = integer_encode enc (map (\<lambda>x. x) src)"

text \<open>
  The results replace the contents of the destination. Its spare capacity is asked for as the number of results less
  its capacity \<open>cap\<close>: if that is negative, the subtraction overflows, or wraps to a number no vector can reserve, so
  that every build panics.
\<close>

definition unsigned_decode :: "bool \<Rightarrow> decode_var \<Rightarrow> u8 list \<Rightarrow> nat \<Rightarrow> u64 list \<Rightarrow> (string + u64 list) option" where
  "unsigned_decode checks dec src cap dst =
     (if src = [] then Some (Inr dst)
      else do {
        r \<leftarrow> integer_decode checks dec src [];
        (case r of
           Inl e \<Rightarrow> Some (Inl e)
         | Inr signed_results \<Rightarrow> do {
             _ \<leftarrow> checked_sub (length signed_results) cap;
             Some (Inr (map (\<lambda>s. s) signed_results))
           })
      })"

section \<open>Differences\<close>

text \<open>The differences as a function of the values, and the sums that undo them.\<close>

fun deltas_from :: "(u64 \<Rightarrow> u64) \<Rightarrow> u64 \<Rightarrow> u64 list \<Rightarrow> u64 list" where
  "deltas_from f p [] = []"
| "deltas_from f p (x # xs) = f (x - p) # deltas_from f x xs"

lemma length_deltas_from [simp]: "length (deltas_from f p xs) = length xs"
  by (induction f p xs rule: deltas_from.induct) auto

lemma deltas_from_append: "deltas_from f p (xs @ [y, z]) = deltas_from f p (xs @ [y]) @ [f (z - y)]"
  by (induction f p xs rule: deltas_from.induct) auto

lemma delta_loop_exact:
  "\<exists>mx'. delta_loop f (length xs) ((x # xs) @ rest) mx = (x # deltas_from f x xs @ rest, mx')
     \<and> mx \<le> mx' \<and> (\<forall>d \<in> set (deltas_from f x xs). d \<le> mx') \<and> (mx' = mx \<or> mx' \<in> set (deltas_from f x xs))"
proof (induction "length xs" arbitrary: xs rest mx)
  case (Suc n)
  then obtain ys y where xs: "xs = ys @ [y]" by (metis length_Suc_conv_rev)
  then have n: "length ys = n" using Suc.hyps(2) by simp
  let ?p = "(x # xs) ! n"
  let ?d = "f (y - ?p)"
  let ?mx = "if ?d > mx then ?d else mx"
  have nth: "((x # xs) @ rest) ! Suc n = y" "((x # xs) @ rest) ! n = ?p"
    using n nth_append [of "x # xs" rest n] by (simp_all add: xs nth_append)
  have upd: "((x # xs) @ rest)[Suc n := ?d] = (x # ys) @ ?d # rest" using n by (simp add: xs list_update_append)
  have deltas: "deltas_from f x xs = deltas_from f x ys @ [?d]"
  proof (cases ys rule: rev_cases)
    case (snoc zs z)
    then show ?thesis using deltas_from_append [of f x zs z y] n [symmetric] by (simp add: xs nth_append)
  qed (use n in \<open>simp add: xs\<close>)
  obtain mx' where IH: "delta_loop f (length ys) ((x # ys) @ ?d # rest) ?mx = (x # deltas_from f x ys @ ?d # rest, mx')"
      "?mx \<le> mx'" "\<forall>d \<in> set (deltas_from f x ys). d \<le> mx'" "mx' = ?mx \<or> mx' \<in> set (deltas_from f x ys)"
    using Suc.hyps(1) [of ys "?d # rest" ?mx] n by blast
  have "delta_loop f (length xs) ((x # xs) @ rest) mx = (x # deltas_from f x xs @ rest, mx')"
    unfolding Suc.hyps(2) [symmetric] delta_loop.simps Let_def nth upd using IH(1) n by (simp add: deltas)
  then show ?case using IH(2-4) deltas by (auto split: if_splits)
qed simp

section \<open>Undoing the differences\<close>

lemma uncompressed_loop_exact:
  "uncompressed_loop (concat (map to_be_bytes (deltas_from zig_zag_encode p xs))) p dst = Some (dst @ xs)"
proof (induction xs arbitrary: p dst)
  case Nil
  then show ?case by (simp add: uncompressed_loop.simps)
next
  case (Cons x xs)
  have "to_be_bytes (zig_zag_encode (x - p)) \<noteq> []" by (metis length_to_be_bytes list.size(3) zero_neq_numeral)
  then show ?case using Cons by (subst uncompressed_loop.simps) (simp add: Let_def)
qed

lemma rle_loop_exact: "deltas_from zig_zag_encode p xs = replicate n d \<Longrightarrow> rle_loop n p (zig_zag_decode d) dst = dst @ xs"
proof (induction xs arbitrary: p n dst)
  case (Cons x xs)
  then obtain m where n: "n = Suc m" by (cases n) auto
  then have "d = zig_zag_encode (x - p)" "deltas_from zig_zag_encode x xs = replicate m d" using Cons.prems by auto
  then show ?case using Cons.IH [of x m] n by simp
qed simp

text \<open>No sum of a value and the difference to the next one leaves the range.\<close>

fun sums_in_range :: "u64 \<Rightarrow> u64 list \<Rightarrow> bool" where
  "sums_in_range p [] = True"
| "sums_in_range p (x # xs) = (in_i64 (sint p + sint (x - p)) \<and> sums_in_range x xs)"

lemma sum_loop_exact:
  "\<not> checks \<or> sums_in_range p xs \<Longrightarrow> sum_loop checks p (deltas_from zig_zag_encode p xs) dst = Some (dst @ xs)"
  by (induction xs arbitrary: p dst) (auto simp: add_i64_def)

lemma encode_var_at_room:
  "n \<le> length dst \<Longrightarrow> n + length (enc v) \<le> length dst \<Longrightarrow>
    encode_var_at enc v n dst = Some (take n dst @ enc v @ drop (n + length (enc v)) dst, length (enc v))"
  by (simp add: encode_var_at_def Let_def)

lemma take_exact: "length xs = n \<Longrightarrow> take n (xs @ ys) = xs"
  by simp

text \<open>Two numbers written behind nine bytes, with room made for each.\<close>

lemma var_writes:
  assumes "varint_codec enc dec" "length pre = 9"
  obtains d2 d3 where "encode_var_at enc a 9 (resize 19 0 pre) = Some (d2, length (enc a))" "length d2 = 19"
    and "encode_var_at enc c (9 + length (enc a)) (resize (19 + length (enc a)) 0 d2) = Some (d3, length (enc c))"
    and "take (9 + length (enc a) + length (enc c)) d3 = pre @ enc a @ enc c"
proof -
  have le: "length (enc w) \<le> 10" for w by (rule varint_length [OF assms(1)])
  let ?d1 = "resize 19 0 pre"
  let ?d2 = "take 9 ?d1 @ enc a @ drop (9 + length (enc a)) ?d1"
  let ?n = "9 + length (enc a)"
  let ?d3 = "resize (19 + length (enc a)) 0 ?d2"
  have len: "length ?d2 = 19" using le [of a] by simp
  have "\<exists>r. ?d3 = (pre @ enc a) @ r" using len assms(2) by (simp add: resize_grow)
  then have d3: "take ?n ?d3 = pre @ enc a" using assms(2) by (metis take_exact length_append)
  show thesis
  proof (rule that)
    show "encode_var_at enc a 9 ?d1 = Some (?d2, length (enc a))" by (rule encode_var_at_room) (use le [of a] in simp_all)
    show "length ?d2 = 19" by (rule len)
    show "encode_var_at enc c ?n ?d3 = Some (take ?n ?d3 @ enc c @ drop (?n + length (enc c)) ?d3, length (enc c))"
      by (rule encode_var_at_room) (use le [of c] in simp_all)
    have "length (pre @ enc a @ enc c) = ?n + length (enc c)" using assms(2) by simp
    then show "take (?n + length (enc c)) (take ?n ?d3 @ enc c @ drop (?n + length (enc c)) ?d3) = pre @ enc a @ enc c"
      unfolding d3 using take_exact [of "pre @ enc a @ enc c"] by simp
  qed
qed

lemma encode_rle_exact:
  assumes "varint_codec enc dec"
  shows "encode_rle enc v delta count [] = Some (0 # to_be_bytes v @ enc delta @ enc count)"
proof -
  have le: "length (enc delta) \<le> 10" by (rule varint_length [OF assms])
  obtain d2 d3 where w: "encode_var_at enc delta 9 (resize 19 0 (0 # to_be_bytes v)) = Some (d2, length (enc delta))" "length d2 = 19"
      "encode_var_at enc count (9 + length (enc delta)) (resize (19 + length (enc delta)) 0 d2) = Some (d3, length (enc count))"
      "take (9 + length (enc delta) + length (enc count)) d3 = (0 # to_be_bytes v) @ enc delta @ enc count"
    by (rule var_writes [OF assms, of "0 # to_be_bytes v" delta count]) simp
  show ?thesis using w le by (simp add: encode_rle_def MAX_VAR_INT_64_def Let_def)
qed

section \<open>Round trip\<close>

text \<open>The block written for given differences, by the greatest of them after the first.\<close>

definition block_of :: "encode_var \<Rightarrow> u64 list \<Rightarrow> u64 \<Rightarrow> (string + u8 list) option" where
  "block_of enc deltas mx =
     (if length deltas > 2 \<and> use_rle deltas
      then do {
        dst \<leftarrow> encode_rle enc (deltas ! 0) (deltas ! 1) (of_nat (length deltas) - 1) [];
        hd0 \<leftarrow> nth_opt dst 0;
        Some (Inr (dst[0 := hd0 OR push_bit 4 2]))
      }
      else if mx > MAX_VALUE then Some (Inr (push_bit 4 0 # concat (map to_be_bytes deltas)))
      else Some (simple8b_encode (drop 1 deltas) (push_bit 4 1 # to_be_bytes (deltas ! 0))))"

lemma integer_encode_Cons:
  "\<exists>mx. (\<forall>d \<in> set (deltas_from zig_zag_encode x xs). d \<le> mx) \<and> integer_encode enc (x # xs) = block_of enc (zig_zag_encode x # deltas_from zig_zag_encode x xs) mx"
proof -
  obtain mx where "delta_loop zig_zag_encode (length xs) (x # xs) 0 = (x # deltas_from zig_zag_encode x xs, mx)" "\<forall>d \<in> set (deltas_from zig_zag_encode x xs). d \<le> mx"
    using delta_loop_exact [of zig_zag_encode xs x "[]" 0] by auto
  then show ?thesis by (intro exI [of _ mx]) (simp add: integer_encode_def block_of_def i64_to_u64_vector_def Let_def)
qed

lemma decode_rle_block:
  assumes "varint_codec enc dec" "deltas_from zig_zag_encode x xs = replicate (length xs) d" "length xs < 2 ^ 64"
  shows "decode_rle dec (to_be_bytes (zig_zag_encode x) @ enc d @ enc (of_nat (length xs))) [] = Some (Inr (x # xs))"
proof -
  note varint_decode [OF assms(1)]
  moreover have "unat (of_nat (length xs) :: u64) = length xs" using assms(3) by (simp add: unat_of_nat)
  ultimately show ?thesis
    using rle_loop_exact [OF assms(2), of "[x]"] by (simp add: decode_rle_def Let_def)
qed

lemma header_bytes: "drop_bit 4 (push_bit 4 2 :: u8) = 2" "drop_bit 4 (push_bit 4 1 :: u8) = 1" "drop_bit 4 (push_bit 4 0 :: u8) = 0"
  by simp_all

lemma use_rle_replicate:
  assumes "use_rle (y # deltas)" "deltas \<noteq> []"
  shows "deltas = replicate (length deltas) ((y # deltas) ! 1)"
  using assms by (cases deltas) (auto simp: use_rle_def list_all_iff intro!: replicate_eqI)

lemma length_words: "length (concat (map to_be_bytes ds)) = 8 * length ds"
  by (induction ds) simp_all

lemma integer_block_rle:
  assumes "varint_codec enc dec" "length xs < 2 ^ 64 - 1" "length (zig_zag_encode x # deltas_from zig_zag_encode x xs) > 2 \<and> use_rle (zig_zag_encode x # deltas_from zig_zag_encode x xs)"
  shows "\<exists>bs. block_of enc (zig_zag_encode x # deltas_from zig_zag_encode x xs) mx = Some (Inr bs) \<and> bs \<noteq> [] \<and> integer_decode checks dec bs [] = Some (Inr (x # xs))"
proof -
  let ?ds = "zig_zag_encode x # deltas_from zig_zag_encode x xs"
  let ?d = "?ds ! 1"
  let ?bs = "push_bit 4 2 # to_be_bytes (zig_zag_encode x) @ enc ?d @ enc (of_nat (length xs))"
  have "deltas_from zig_zag_encode x xs \<noteq> []" using assms(3) by (cases xs) auto
  then have "deltas_from zig_zag_encode x xs = replicate (length xs) ?d"
    using use_rle_replicate [of "zig_zag_encode x" "deltas_from zig_zag_encode x xs"] assms(3) unfolding length_deltas_from by blast
  then have "decode_rle dec (tl ?bs) [] = Some (Inr (x # xs))" using decode_rle_block [OF assms(1)] assms(2) by simp
  moreover have "block_of enc ?ds mx = Some (Inr ?bs)"
    unfolding block_of_def if_P [OF assms(3)] by (simp add: encode_rle_exact [OF assms(1)])
  ultimately show ?thesis by (intro exI [of _ ?bs]) (simp add: integer_decode_def header_bytes)
qed

lemma integer_block_raw:
  assumes "\<not> (length (zig_zag_encode x # deltas_from zig_zag_encode x xs) > 2 \<and> use_rle (zig_zag_encode x # deltas_from zig_zag_encode x xs))" "mx > MAX_VALUE"
  shows "\<exists>bs. block_of enc (zig_zag_encode x # deltas_from zig_zag_encode x xs) mx = Some (Inr bs) \<and> bs \<noteq> [] \<and> integer_decode checks dec bs [] = Some (Inr (x # xs))"
proof -
  let ?ds = "zig_zag_encode x # deltas_from zig_zag_encode x xs"
  let ?bs = "push_bit 4 0 # concat (map to_be_bytes ?ds)"
  have "?ds = deltas_from zig_zag_encode 0 (x # xs)" by simp
  then have "uncompressed_loop (concat (map to_be_bytes ?ds)) 0 [] = Some (x # xs)"
    using uncompressed_loop_exact [of 0 "x # xs" "[]"] by (simp only: append_Nil)
  moreover have "concat (map to_be_bytes ?ds) \<noteq> []" using length_words [of ?ds] by (metis length_0_conv length_Cons mult_eq_0_iff nat.distinct(1) zero_neq_numeral)
  ultimately have "decode_uncompressed (tl ?bs) [] = Some (Inr (x # xs))"
    unfolding decode_uncompressed_def by (simp only: list.sel length_words) simp
  moreover have "block_of enc ?ds mx = Some (Inr ?bs)"
    unfolding block_of_def if_not_P [OF assms(1)] if_P [OF assms(2)] ..
  ultimately show ?thesis by (intro exI [of _ ?bs]) (simp add: integer_decode_def)
qed

lemma integer_block_packed:
  assumes "\<not> checks \<or> sums_in_range x xs" "\<not> (length (zig_zag_encode x # deltas_from zig_zag_encode x xs) > 2 \<and> use_rle (zig_zag_encode x # deltas_from zig_zag_encode x xs))" "\<not> mx > MAX_VALUE"
    and "\<forall>d \<in> set (deltas_from zig_zag_encode x xs). d \<le> mx"
  shows "\<exists>bs. block_of enc (zig_zag_encode x # deltas_from zig_zag_encode x xs) mx = Some (Inr bs) \<and> bs \<noteq> [] \<and> integer_decode checks dec bs [] = Some (Inr (x # xs))"
proof -
  let ?ds = "zig_zag_encode x # deltas_from zig_zag_encode x xs"
  have "\<forall>d \<in> set (deltas_from zig_zag_encode x xs). d \<le> MAX_VALUE" using assms(4,3) by (meson linorder_not_less order_trans)
  then obtain bs where bs: "\<And>dst. simple8b_encode (deltas_from zig_zag_encode x xs) dst = Inr (dst @ bs)" "\<And>dst. simple8b_decode bs dst = Some (deltas_from zig_zag_encode x xs)"
    using simple8b_inverse by blast
  let ?bs = "push_bit 4 1 # to_be_bytes (zig_zag_encode x) @ bs"
  have "decode_simple8b checks (tl ?bs) [] = Some (Inr (x # xs))"
    using sum_loop_exact [OF assms(1), of "[x]"] bs(2) by (simp add: decode_simple8b_def Let_def)
  moreover have "block_of enc ?ds mx = Some (Inr ?bs)"
    unfolding block_of_def if_not_P [OF assms(2)] if_not_P [OF assms(3)] by (simp add: bs(1))
  ultimately show ?thesis by (intro exI [of _ ?bs]) (simp add: integer_decode_def header_bytes)
qed

lemma integer_block:
  assumes "varint_codec enc dec" "length xs < 2 ^ 64 - 1" "\<not> checks \<or> sums_in_range x xs"
  shows "\<exists>bs. integer_encode enc (x # xs) = Some (Inr bs) \<and> bs \<noteq> [] \<and> integer_decode checks dec bs [] = Some (Inr (x # xs))"
proof -
  obtain mx where mx: "\<forall>d \<in> set (deltas_from zig_zag_encode x xs). d \<le> mx" "integer_encode enc (x # xs) = block_of enc (zig_zag_encode x # deltas_from zig_zag_encode x xs) mx"
    using integer_encode_Cons by blast
  show ?thesis
    unfolding mx(2) using integer_block_rle [OF assms(1,2)] integer_block_raw integer_block_packed [OF assms(3) _ _ mx(1)] by blast
qed

text \<open>
  C12. A block of signed integers decodes to the values it was encoded from, whichever of the three encodings was chosen. In a
  build with overflow checks this takes that the sums of neighbouring differences stay in the range of the type;
  without them there is no condition.
\<close>

theorem integer_roundtrip:
  assumes "varint_codec enc dec" "length src < 2 ^ 64" "\<not> checks \<or> sums_in_range (hd src) (tl src)"
  shows "\<exists>bs. integer_encode enc src = Some (Inr bs) \<and> integer_decode checks dec bs [] = Some (Inr src)"
proof (cases src)
  case Nil
  then show ?thesis by (simp add: integer_encode_def integer_decode_def)
next
  case (Cons x xs)
  then show ?thesis using integer_block [OF assms(1), of xs checks x] assms(2,3) by auto
qed

text \<open>A code that keeps these promises, LEB128: seven bits to a byte, the highest bit set on all but the last.\<close>

fun leb_enc :: "nat \<Rightarrow> u8 list" where
  "leb_enc n = (if n < 128 then [of_nat n] else of_nat (128 + n mod 128) # leb_enc (n div 128))"

declare leb_enc.simps [simp del]

fun leb_dec :: "u8 list \<Rightarrow> (nat \<times> nat) option" where
  "leb_dec [] = None"
| "leb_dec (b # bs) = (if unat b < 128 then Some (unat b, 1)
     else case leb_dec bs of None \<Rightarrow> None | Some (v, k) \<Rightarrow> Some (unat b - 128 + 128 * v, k + 1))"

lemma unat_u8: "n < 256 \<Longrightarrow> unat (of_nat n :: u8) = n"
  by (simp add: unat_of_nat)

lemma leb_roundtrip: "leb_dec (leb_enc n @ rest) = Some (n, length (leb_enc n))"
proof (induction n rule: leb_enc.induct)
  case (1 n)
  have b: "128 + n mod 128 < 256" by (metis add_strict_left_mono mod_less_divisor numeral_Bit0 zero_less_numeral)
  show ?case
  proof (cases "n < 128")
    case True
    then show ?thesis by (simp add: leb_enc.simps [of n] unat_u8)
  next
    case False
    then have "leb_dec (leb_enc (n div 128) @ rest) = Some (n div 128, length (leb_enc (n div 128)))" by (rule 1)
    then show ?thesis using False by (simp add: leb_enc.simps [of n] unat_u8 [OF b] del: of_nat_add of_nat_numeral)
  qed
qed

lemma leb_length: "0 < k \<Longrightarrow> n < 128 ^ k \<Longrightarrow> length (leb_enc n) \<le> k"
proof (induction k arbitrary: n)
  case (Suc k)
  show ?case
  proof (cases "n < 128")
    case True
    then show ?thesis by (simp add: leb_enc.simps [of n])
  next
    case False
    then have "0 < k" using Suc.prems(2) by (cases k) auto
    moreover have "n div 128 < 128 ^ k" using Suc.prems(2) by (simp add: less_mult_imp_div_less mult.commute)
    ultimately show ?thesis using Suc.IH False by (simp add: leb_enc.simps [of n])
  qed
qed simp

definition leb128_encode :: encode_var where
  "leb128_encode v = leb_enc (unat v)"

definition leb128_decode :: decode_var where
  "leb128_decode bs = map_option (apfst of_nat) (leb_dec bs)"

lemma leb128_codec: "varint_codec leb128_encode leb128_decode"
proof -
  have "leb128_encode v \<noteq> []" for v by (simp add: leb128_encode_def leb_enc.simps [of "unat v"])
  moreover have "leb128_decode (leb128_encode v @ rest) = Some (v, length (leb128_encode v))" for v rest
    by (simp add: leb128_decode_def leb128_encode_def leb_roundtrip)
  moreover have "length (leb128_encode v) \<le> k" if "0 < k" "unat v < 128 ^ k" for v k
    unfolding leb128_encode_def using that by (rule leb_length)
  ultimately show ?thesis unfolding varint_codec_def by blast
qed

theorem integer_roundtrip_witness:
  "\<exists>bs. integer_encode leb128_encode [5, 7, 9, 11] = Some (Inr bs) \<and> integer_decode True leb128_decode bs [] = Some (Inr [5, 7, 9, 11])"
  using integer_roundtrip [OF leb128_codec, of "[5, 7, 9, 11]" True] by (simp add: in_i64_def i64_min_def i64_max_def)

text \<open>
  C40. A block of unsigned integers decodes to the values it was encoded from, if the destination has no more capacity than there
  are values; with more capacity the decoder panics. No values give an empty block, which leaves the destination as it
  is. In a build with overflow checks this takes that the sums of neighbouring differences, read as signed integers,
  stay in their range; without them there is no condition.
\<close>

theorem unsigned_roundtrip:
  assumes "varint_codec enc dec" "length src < 2 ^ 64" "\<not> checks \<or> sums_in_range (hd src) (tl src)"
  shows "\<exists>bs. unsigned_encode enc src = Some (Inr bs)
    \<and> unsigned_decode checks dec bs cap dst =
        (if src = [] then Some (Inr dst) else if cap \<le> length src then Some (Inr src) else None)"
proof (cases src)
  case Nil
  then show ?thesis by (simp add: unsigned_encode_def unsigned_decode_def integer_encode_def)
next
  case (Cons x xs)
  then obtain bs where "integer_encode enc src = Some (Inr bs)" "bs \<noteq> []" "integer_decode checks dec bs [] = Some (Inr src)"
    using integer_block [OF assms(1), of xs checks x] assms(2,3) by auto
  then show ?thesis using Cons by (intro exI [of _ bs]) (simp add: unsigned_encode_def unsigned_decode_def not_le)
qed

theorem unsigned_roundtrip_witness:
  "\<exists>bs. unsigned_encode leb128_encode [3, 1] = Some (Inr bs) \<and> unsigned_decode True leb128_decode bs 2 [] = Some (Inr [3, 1])"
  using unsigned_roundtrip [OF leb128_codec, of "[3, 1]" True 2 "[]"] by (simp add: in_i64_def i64_min_def i64_max_def)

end
