(* ===== verification/Tsm_Timestamp.thy ===== *)
theory Tsm_Timestamp
  imports Tsm_Integer
begin

text \<open>
  Blocks of timestamps (\<^verbatim>\<open>influxdb_tsm/src/encoders/timestamp.rs\<close>): differences of neighbours, divided by the greatest power of ten
  up to \<open>10\<^sup>1\<^sup>2\<close> that divides all of them, stored as a run or packed with simple8b, or the differences as
  they are. The logarithm to base ten, which the code takes of a power of ten as a double, is exact there.
\<close>

section \<open>Encoding\<close>

lemma unat_div_10: "1 < (d :: u64) \<Longrightarrow> unat (d div 10) < unat d"
  by (simp add: unat_div word_less_nat_alt)

function reduce_div :: "u64 \<Rightarrow> u64 \<Rightarrow> u64" where
  "reduce_div delta d = (if d > 1 \<and> delta mod d \<noteq> 0 then reduce_div delta (d div 10) else d)"
  by pat_completeness auto
termination
  by (relation "measure (\<lambda>(_, d). unat d)") (simp_all add: unat_div_10)

declare reduce_div.simps [simp del]

fun find_div :: "u64 list \<Rightarrow> u64 \<Rightarrow> u64" where
  "find_div [] d = d"
| "find_div (delta # deltas) d = (if d \<le> 1 then d else find_div deltas (reduce_div delta d))"

text \<open>\<^verbatim>\<open>((div as f64).log10()) as u8\<close>\<close>

function log10_u8 :: "u64 \<Rightarrow> u8" where
  "log10_u8 d = (if d < 10 then 0 else 1 + log10_u8 (d div 10))"
  by pat_completeness auto
termination
proof (relation "measure unat")
  fix d :: u64 assume "\<not> d < 10"
  then have "1 < d" by (simp add: word_less_nat_alt)
  then show "(d div 10, d) \<in> measure unat" by (simp add: unat_div_10)
qed simp

declare log10_u8.simps [simp del]

definition ts_encode_rle :: "encode_var \<Rightarrow> u64 \<Rightarrow> u64 \<Rightarrow> u64 \<Rightarrow> u8 list \<Rightarrow> u8 list option" where
  "ts_encode_rle enc v delta count dst = do {
     let dst = dst @ [0];
     let n = 1;
     let dst = dst @ to_be_bytes v;
     let n = n + 8;
     let d = reduce_div delta 1000000000000;
     let dst = (if length dst \<le> n + MAX_VAR_INT_64 then resize (n + MAX_VAR_INT_64) 0 dst else dst);
     (dst, k) \<leftarrow> (if d > 1
       then do {
         let scaler = log10_u8 d;
         assert_that (scaler \<le> 15);
         encode_var_at enc (delta div d) n (dst[0 := dst ! 0 OR scaler])
       }
       else encode_var_at enc delta n dst);
     let n = n + k;
     room \<leftarrow> checked_sub (length dst) n;
     let dst = (if room \<le> MAX_VAR_INT_64 then resize (n + MAX_VAR_INT_64) 0 dst else dst);
     (dst, k) \<leftarrow> encode_var_at enc count n dst;
     Some (take (n + k) dst)
   }"

definition ts_encode :: "encode_var \<Rightarrow> u64 list \<Rightarrow> (string + u8 list) option" where
  "ts_encode enc src =
     (if src = [] then Some (Inr [])
      else let deltas = i64_to_u64_vector src;
               (deltas, mx) = (if length deltas > 1 then delta_loop (\<lambda>d. d) (length deltas - 1) deltas 0 else (deltas, 0))
           in if length deltas > 1 \<and> use_rle deltas
              then do {
                dst \<leftarrow> ts_encode_rle enc (deltas ! 0) (deltas ! 1) (of_nat (length deltas)) [];
                hd0 \<leftarrow> nth_opt dst 0;
                Some (Inr (dst[0 := hd0 OR push_bit 4 2]))
              }
              else if mx > MAX_VALUE then Some (Inr (push_bit 4 0 # concat (map to_be_bytes deltas)))
              else let d = find_div (drop 1 deltas) 1000000000000;
                       rest = (if d > 1 then map (\<lambda>delta. delta div d) (drop 1 deltas) else drop 1 deltas)
                   in Some (simple8b_encode rest ((push_bit 4 1 OR log10_u8 d) # to_be_bytes (deltas ! 0))))"

section \<open>Decoding\<close>

definition mul_u64 :: "bool \<Rightarrow> u64 \<Rightarrow> u64 \<Rightarrow> u64 option" where
  "mul_u64 checks a b = (if checks \<and> unat a * unat b \<ge> 2 ^ 64 then None else Some (a * b))"

fun ts_uncompressed_loop :: "bool \<Rightarrow> u8 list \<Rightarrow> u64 \<Rightarrow> u64 list \<Rightarrow> u64 list option" where
  "ts_uncompressed_loop checks src prev dst =
     (if src = [] then Some dst
      else do {
        buf \<leftarrow> subslice 0 8 src;
        prev \<leftarrow> add_i64 checks prev (from_be_bytes buf);
        ts_uncompressed_loop checks (drop 8 src) prev (dst @ [prev])
      })"

declare ts_uncompressed_loop.simps [simp del]

definition ts_decode_uncompressed :: "bool \<Rightarrow> u8 list \<Rightarrow> u64 list \<Rightarrow> (string + u64 list) option" where
  "ts_decode_uncompressed checks src dst =
     (if src = [] \<or> length src mod 8 \<noteq> 0 then Some (Inl ''invalid uncompressed block length'')
      else map_option Inr (ts_uncompressed_loop checks src 0 dst))"

fun ts_rle_loop :: "nat \<Rightarrow> u64 \<Rightarrow> u64 \<Rightarrow> u64 list \<Rightarrow> u64 list" where
  "ts_rle_loop 0 first delta dst = dst"
| "ts_rle_loop (Suc count) first delta dst = ts_rle_loop count (first + delta) delta (dst @ [first])"

definition ts_decode_rle :: "bool \<Rightarrow> decode_var \<Rightarrow> u8 list \<Rightarrow> u64 list \<Rightarrow> (string + u64 list) option" where
  "ts_decode_rle checks dec src dst =
     (if length src < 9 then Some (Inl ''not enough data to decode using RLE'')
      else do {
        let scaler = 10 ^ unat (src ! 0 AND 15);
        a \<leftarrow> subslice 1 9 src;
        s \<leftarrow> subslice 9 (length src) src;
        (case dec s of
           None \<Rightarrow> Some (Inl ''unable to decode delta'')
         | Some (delta, n) \<Rightarrow> do {
             delta \<leftarrow> mul_u64 checks delta scaler;
             s \<leftarrow> subslice (9 + n) (length src) src;
             (case dec s of
                None \<Rightarrow> Some (Inl ''unable to decode count'')
              | Some (count, _) \<Rightarrow> Some (Inr (ts_rle_loop (unat count) (from_be_bytes a) delta dst)))
           })
      })"

fun ts_sum_loop :: "bool \<Rightarrow> u64 \<Rightarrow> u64 \<Rightarrow> u64 list \<Rightarrow> u64 list \<Rightarrow> u64 list option" where
  "ts_sum_loop checks scaler nxt [] dst = Some dst"
| "ts_sum_loop checks scaler nxt (v # vs) dst = do {
     d \<leftarrow> (if scaler > 1 then mul_u64 checks v scaler else Some v);
     nxt \<leftarrow> add_i64 checks nxt d;
     ts_sum_loop checks scaler nxt vs (dst @ [nxt])
   }"

definition ts_decode_simple8b :: "bool \<Rightarrow> u8 list \<Rightarrow> u64 list \<Rightarrow> (string + u64 list) option" where
  "ts_decode_simple8b checks src dst =
     (if length src < 9 then Some (Inl ''not enough data to decode packed timestamp'')
      else do {
        let scaler = 10 ^ unat (src ! 0 AND 15);
        buf \<leftarrow> subslice 1 9 src;
        let dst = dst @ [from_be_bytes buf];
        res \<leftarrow> simple8b_decode (drop 9 src) [];
        map_option Inr (ts_sum_loop checks scaler (last dst) res dst)
      })"

definition ts_decode :: "bool \<Rightarrow> decode_var \<Rightarrow> u8 list \<Rightarrow> u64 list \<Rightarrow> (string + u64 list) option" where
  "ts_decode checks dec src dst =
     (if src = [] then Some (Inr dst)
      else let encoding = drop_bit 4 (src ! 0)
           in if encoding = 0 then ts_decode_uncompressed checks (drop 1 src) dst
              else if encoding = 2 then ts_decode_rle checks dec src dst
              else if encoding = 1 then ts_decode_simple8b checks src dst
              else Some (Inl ''invalid block encoding''))"

section \<open>Powers of ten\<close>

lemma unat_pow10:
  assumes "j \<le> 19"
  shows "unat (10 ^ j :: u64) = 10 ^ j"
proof -
  have "(10 ^ j :: nat) \<le> 10 ^ 19" using assms by (rule power_increasing) simp
  then have "unat (of_nat (10 ^ j) :: u64) = 10 ^ j" unfolding unat_of_nat by simp
  then show ?thesis by simp
qed

lemma pow10_Suc_div: "k < 19 \<Longrightarrow> (10 ^ Suc k :: u64) div 10 = 10 ^ k"
  by (simp only: word_unat_eq_iff unat_div unat_pow10 Suc_leI less_imp_le) simp

lemma pow10_gt:
  assumes "k \<le> 19"
  shows "(10 ^ k :: u64) > 1 \<longleftrightarrow> k > 0"
proof -
  have "0 < k \<Longrightarrow> (1 :: nat) < 10 ^ k" by (rule one_less_power) simp_all
  then show ?thesis using assms by (cases "k = 0") (auto simp: word_less_nat_alt unat_pow10)
qed

lemma ten_12: "(10 ^ 12 :: u64) = 1000000000000"
  by simp

lemma reduce_div_pow10:
  assumes "k \<le> 12"
  shows "\<exists>j \<le> k. reduce_div delta (10 ^ k) = 10 ^ j \<and> delta mod 10 ^ j = 0"
  using assms
proof (induction k)
  case 0
  then show ?case by (simp add: reduce_div.simps)
next
  case (Suc k)
  show ?case
  proof (cases "delta mod 10 ^ Suc k = 0")
    case True
    then have "reduce_div delta (10 ^ Suc k) = 10 ^ Suc k" by (subst reduce_div.simps) simp
    then show ?thesis using True by (intro exI [of _ "Suc k"]) simp
  next
    case False
    then have "reduce_div delta (10 ^ Suc k) = reduce_div delta (10 ^ k)"
      using Suc.prems by (subst reduce_div.simps) (simp only: pow10_gt pow10_Suc_div, simp)
    then show ?thesis using Suc by (metis Suc_leD le_Suc_eq)
  qed
qed

lemma mod_pow10_mono: "(d :: u64) mod 10 ^ k = 0 \<Longrightarrow> j \<le> k \<Longrightarrow> k \<le> 19 \<Longrightarrow> d mod 10 ^ j = 0"
proof -
  assume a: "d mod 10 ^ k = 0" "j \<le> k" "k \<le> 19"
  then have "10 ^ k dvd unat d" by (simp add: word_unat_eq_iff unat_mod unat_pow10 dvd_eq_mod_eq_0)
  then have "10 ^ j dvd unat d" using le_imp_power_dvd [OF a(2), of 10] dvd_trans by blast
  then show ?thesis using a by (simp add: word_unat_eq_iff unat_mod unat_pow10 dvd_eq_mod_eq_0)
qed

lemma find_div_pow10:
  assumes "k \<le> 12"
  shows "\<exists>j \<le> k. find_div deltas (10 ^ k) = 10 ^ j \<and> (\<forall>d \<in> set deltas. d mod 10 ^ j = 0)"
  using assms
proof (induction deltas arbitrary: k)
  case (Cons d deltas)
  show ?case
  proof (cases "(10 ^ k :: u64) \<le> 1")
    case True
    then have "k = 0" using pow10_gt [of k] Cons.prems by (simp add: not_less [symmetric])
    then show ?thesis by simp
  next
    case False
    obtain m where m: "m \<le> k" "reduce_div d (10 ^ k) = 10 ^ m" "d mod 10 ^ m = 0" using reduce_div_pow10 [OF Cons.prems, of d] by metis
    obtain j where j: "j \<le> m" "find_div deltas (10 ^ m) = 10 ^ j" "\<forall>d \<in> set deltas. d mod 10 ^ j = 0"
      using Cons.IH [of m] m(1) Cons.prems by auto
    have "d mod 10 ^ j = 0" using mod_pow10_mono [OF m(3) j(1)] m(1) Cons.prems by simp
    then show ?thesis using False m j by (intro exI [of _ j]) auto
  qed
qed auto

lemma log10_pow10: "j \<le> 12 \<Longrightarrow> log10_u8 (10 ^ j) = of_nat j"
proof (induction j)
  case 0
  then show ?case by (simp add: log10_u8.simps)
next
  case (Suc j)
  have "\<not> (10 ^ Suc j :: u64) < 10" using Suc.prems unat_pow10 [of "Suc j"] by (simp add: word_less_nat_alt del: power_Suc) simp
  then have "log10_u8 (10 ^ Suc j) = 1 + log10_u8 (10 ^ j)"
    using Suc.prems pow10_Suc_div [of j] by (subst log10_u8.simps) simp
  then show ?case using Suc by simp
qed

lemma scaled:
  assumes "(d :: u64) mod 10 ^ j = 0" "j \<le> 12"
  shows "mul_u64 checks (d div 10 ^ j) (10 ^ j) = Some d"
proof -
  have "unat (d div 10 ^ j) * unat (10 ^ j :: u64) = unat d"
    using assms by (simp add: unat_div unat_pow10 word_unat_eq_iff unat_mod dvd_eq_mod_eq_0)
  moreover from this have "d div 10 ^ j * 10 ^ j = d" by (metis div_mult_mod_eq add.right_neutral assms(1))
  moreover have "unat d < 2 ^ 64" using unsigned_less [of d] by simp
  ultimately show ?thesis by (simp add: mul_u64_def)
qed

section \<open>Round trip\<close>

lemma ts_uncompressed_loop_exact:
  "\<not> checks \<or> sums_in_range p xs \<Longrightarrow> ts_uncompressed_loop checks (concat (map to_be_bytes (deltas_from (\<lambda>d. d) p xs))) p dst = Some (dst @ xs)"
proof (induction xs arbitrary: p dst)
  case Nil
  then show ?case by (simp add: ts_uncompressed_loop.simps)
next
  case (Cons x xs)
  have "to_be_bytes (x - p) \<noteq> []" by (metis length_to_be_bytes list.size(3) zero_neq_numeral)
  moreover have "add_i64 checks p (x - p) = Some x" using Cons.prems by (auto simp: add_i64_def)
  ultimately show ?case using Cons by (subst ts_uncompressed_loop.simps) auto
qed

lemma ts_rle_loop_exact:
  "deltas_from (\<lambda>d. d) x xs = replicate (length xs) d \<Longrightarrow> ts_rle_loop (Suc (length xs)) x d dst = dst @ x # xs"
proof (induction xs arbitrary: x dst)
  case (Cons y xs)
  then have "d = y - x" "deltas_from (\<lambda>d. d) y xs = replicate (length xs) d" by auto
  then show ?case using Cons.IH [of y "dst @ [x]"] by simp
qed simp

lemma ts_sum_loop_exact:
  assumes "\<forall>d \<in> set (deltas_from (\<lambda>d. d) p xs). d mod 10 ^ j = 0" "j \<le> 12" "\<not> checks \<or> sums_in_range p xs"
  shows "ts_sum_loop checks (10 ^ j) p (map (\<lambda>d. d div 10 ^ j) (deltas_from (\<lambda>d. d) p xs)) dst = Some (dst @ xs)"
  using assms
proof (induction xs arbitrary: p dst)
  case (Cons x xs)
  have "(if (10 ^ j :: u64) > 1 then mul_u64 checks ((x - p) div 10 ^ j) (10 ^ j) else Some ((x - p) div 10 ^ j)) = Some (x - p)"
    using scaled [of "x - p" j checks] Cons.prems(1,2) pow10_gt [of j] by auto
  moreover have "add_i64 checks p (x - p) = Some x" using Cons.prems(3) by (auto simp: add_i64_def)
  ultimately show ?case using Cons by simp
qed simp

lemma ts_encode_rle_exact:
  assumes "varint_codec enc dec"
  shows "\<exists>j \<le> 12. delta mod 10 ^ j = 0
    \<and> ts_encode_rle enc v delta count [] = Some (of_nat j # to_be_bytes v @ enc (delta div 10 ^ j) @ enc count)"
proof -
  obtain j where j: "j \<le> 12" "reduce_div delta 1000000000000 = 10 ^ j" "delta mod 10 ^ j = 0"
    using reduce_div_pow10 [of 12 delta, OF order_refl, unfolded ten_12] by (elim exE conjE) (rule that)
  let ?e = "enc (delta div 10 ^ j)"
  have le: "length ?e \<le> 10" by (rule varint_length [OF assms])
  obtain d2 d3 where w: "encode_var_at enc (delta div 10 ^ j) 9 (resize 19 0 (of_nat j # to_be_bytes v)) = Some (d2, length ?e)" "length d2 = 19"
      "encode_var_at enc count (9 + length ?e) (resize (19 + length ?e) 0 d2) = Some (d3, length (enc count))"
      "take (9 + length ?e + length (enc count)) d3 = (of_nat j # to_be_bytes v) @ ?e @ enc count"
    by (rule var_writes [OF assms, of "of_nat j # to_be_bytes v" "delta div 10 ^ j" count]) simp
  have r: "(resize 19 0 (0 # to_be_bytes v))[0 := resize 19 0 (0 # to_be_bytes v) ! 0 OR of_nat j] = resize 19 0 (of_nat j # to_be_bytes v)"
    by (simp add: resize_grow)
  have "(of_nat j :: u8) \<le> 15" using j(1) by (simp add: word_le_nat_alt unat_of_nat)
  then have "ts_encode_rle enc v delta count [] = Some (of_nat j # to_be_bytes v @ ?e @ enc count)"
    using w le j(1) pow10_gt [of j] by (auto simp: ts_encode_rle_def MAX_VAR_INT_64_def Let_def j(2) log10_pow10 r)
  then show ?thesis using j(1,3) by (intro exI [of _ j]) simp
qed

lemma drop_exact: "length xs = n \<Longrightarrow> drop n (xs @ ys) = ys"
  by simp

lemma ts_header:
  assumes "j \<le> 12"
  shows "drop_bit 4 (of_nat j OR push_bit 4 2 :: u8) = 2" "unat ((of_nat j OR push_bit 4 2 :: u8) AND 15) = j"
    and "drop_bit 4 (push_bit 4 1 OR of_nat j :: u8) = 1" "unat ((push_bit 4 1 OR of_nat j :: u8) AND 15) = j"
proof -
  have "j \<in> {0, 1, 2, 3, 4, 5, 6, 7, 8, 9, 10, 11, 12}" using assms by simp presburger
  then show "drop_bit 4 (of_nat j OR push_bit 4 2 :: u8) = 2" "unat ((of_nat j OR push_bit 4 2 :: u8) AND 15) = j"
    and "drop_bit 4 (push_bit 4 1 OR of_nat j :: u8) = 1" "unat ((push_bit 4 1 OR of_nat j :: u8) AND 15) = j"
    by (elim insertE emptyE; simp)+
qed

lemma ts_decode_rle_block:
  assumes "varint_codec enc dec" "deltas_from (\<lambda>d. d) x xs = replicate (length xs) d" "Suc (length xs) < 2 ^ 64" "d mod 10 ^ j = 0" "j \<le> 12"
  shows "ts_decode_rle checks dec ((of_nat j OR push_bit 4 2) # to_be_bytes x @ enc (d div 10 ^ j) @ enc (of_nat (Suc (length xs)))) [] = Some (Inr (x # xs))"
proof -
  note dec = varint_decode [OF assms(1)]
  have drop: "drop (9 + length e) (h # to_be_bytes x @ e @ c) = c" for h e c
    using drop_exact [of "h # to_be_bytes x @ e" "9 + length e" c] by simp
  have "unat (of_nat (Suc (length xs)) :: u64) = Suc (length xs)" using assms(3) by (simp only: unat_of_nat) simp
  then show ?thesis
    using ts_rle_loop_exact [OF assms(2), of "[]"] ts_header(2) [OF assms(5)] scaled [OF assms(4,5)]
    by (simp add: ts_decode_rle_def Let_def dec drop subslice_def del: of_nat_Suc)
qed

text \<open>The block written for given differences.\<close>

definition ts_block_of :: "encode_var \<Rightarrow> u64 list \<Rightarrow> u64 \<Rightarrow> (string + u8 list) option" where
  "ts_block_of enc deltas mx =
     (if length deltas > 1 \<and> use_rle deltas
      then do {
        dst \<leftarrow> ts_encode_rle enc (deltas ! 0) (deltas ! 1) (of_nat (length deltas)) [];
        hd0 \<leftarrow> nth_opt dst 0;
        Some (Inr (dst[0 := hd0 OR push_bit 4 2]))
      }
      else if mx > MAX_VALUE then Some (Inr (push_bit 4 0 # concat (map to_be_bytes deltas)))
      else let d = find_div (drop 1 deltas) 1000000000000;
               rest = (if d > 1 then map (\<lambda>delta. delta div d) (drop 1 deltas) else drop 1 deltas)
           in Some (simple8b_encode rest ((push_bit 4 1 OR log10_u8 d) # to_be_bytes (deltas ! 0))))"

lemma ts_encode_Cons:
  "\<exists>mx. (\<forall>d \<in> set (deltas_from (\<lambda>d. d) x xs). d \<le> mx) \<and> ts_encode enc (x # xs) = ts_block_of enc (x # deltas_from (\<lambda>d. d) x xs) mx"
proof -
  obtain mx where "delta_loop (\<lambda>d. d) (length xs) (x # xs) 0 = (x # deltas_from (\<lambda>d. d) x xs, mx)" "\<forall>d \<in> set (deltas_from (\<lambda>d. d) x xs). d \<le> mx"
    using delta_loop_exact [of "\<lambda>d. d" xs x "[]" 0] by auto
  then show ?thesis
    by (intro exI [of _ mx]) (cases xs; simp add: ts_encode_def ts_block_of_def i64_to_u64_vector_def Let_def)
qed

lemma sint_in_i64: "in_i64 (sint (x :: u64))"
  using sint_lt [of x] sint_ge [of x] by (simp add: in_i64_def i64_min_def i64_max_def)

lemma ts_packed:
  assumes "\<forall>d \<in> set ds. d \<le> MAX_VALUE" "j \<le> 12" "find_div ds 1000000000000 = 10 ^ j"
  shows "\<exists>bs. (let d = find_div ds 1000000000000; rest = (if d > 1 then map (\<lambda>delta. delta div d) ds else ds)
      in simple8b_encode rest ((push_bit 4 1 OR log10_u8 d) # to_be_bytes x)) = Inr ((push_bit 4 1 OR of_nat j) # to_be_bytes x @ bs)
    \<and> simple8b_decode bs [] = Some (map (\<lambda>d. d div 10 ^ j) ds)"
proof -
  have "\<forall>d \<in> set (map (\<lambda>d. d div 10 ^ j) ds). d \<le> MAX_VALUE"
    using assms(1) by (auto simp: word_le_nat_alt unat_div intro: order_trans [OF div_le_dividend])
  then obtain bs where "\<And>dst. simple8b_encode (map (\<lambda>d. d div 10 ^ j) ds) dst = Inr (dst @ bs)"
      "simple8b_decode bs [] = Some (map (\<lambda>d. d div 10 ^ j) ds)"
    using simple8b_inverse by metis
  moreover have "(if (10 ^ j :: u64) > 1 then map (\<lambda>delta. delta div 10 ^ j) ds else ds) = map (\<lambda>d. d div 10 ^ j) ds"
    using pow10_gt [of j] assms(2) by simp
  ultimately show ?thesis by (intro exI [of _ bs]) (simp add: Let_def assms(3) log10_pow10 [OF assms(2)])
qed

lemma ts_block_rle:
  assumes "varint_codec enc dec" "Suc (length xs) < 2 ^ 64" "length (x # deltas_from (\<lambda>d. d) x xs) > 1 \<and> use_rle (x # deltas_from (\<lambda>d. d) x xs)"
  shows "\<exists>bs. ts_block_of enc (x # deltas_from (\<lambda>d. d) x xs) mx = Some (Inr bs) \<and> ts_decode checks dec bs [] = Some (Inr (x # xs))"
proof -
  let ?ts = "deltas_from (\<lambda>d. d) x xs"
  let ?ds = "x # ?ts"
  let ?d = "?ds ! 1"
  have "?ts \<noteq> []" using assms(3) by (cases xs) auto
  then have rep: "?ts = replicate (length xs) ?d" using use_rle_replicate [of x ?ts] assms(3) unfolding length_deltas_from by blast
  obtain j where j: "j \<le> 12" "?d mod 10 ^ j = 0"
      "ts_encode_rle enc x ?d (of_nat (length ?ds)) [] = Some (of_nat j # to_be_bytes x @ enc (?d div 10 ^ j) @ enc (of_nat (length ?ds)))"
    using ts_encode_rle_exact [OF assms(1), of ?d x "of_nat (length ?ds)"] by (elim exE conjE) (rule that)
  let ?bs = "(of_nat j OR push_bit 4 2) # to_be_bytes x @ enc (?d div 10 ^ j) @ enc (of_nat (Suc (length xs)))"
  have "ts_block_of enc ?ds mx = Some (Inr ?bs)"
    unfolding ts_block_of_def if_P [OF assms(3)] using j(3) by simp
  moreover have "ts_decode_rle checks dec ?bs [] = Some (Inr (x # xs))"
    by (rule ts_decode_rle_block [OF assms(1) rep assms(2) j(2,1)])
  ultimately show ?thesis using ts_header(1) [OF j(1)] by (intro exI [of _ ?bs]) (simp add: ts_decode_def)
qed

lemma ts_block_raw:
  assumes "\<not> checks \<or> sums_in_range x xs" "\<not> (length (x # deltas_from (\<lambda>d. d) x xs) > 1 \<and> use_rle (x # deltas_from (\<lambda>d. d) x xs))" "mx > MAX_VALUE"
  shows "\<exists>bs. ts_block_of enc (x # deltas_from (\<lambda>d. d) x xs) mx = Some (Inr bs) \<and> ts_decode checks dec bs [] = Some (Inr (x # xs))"
proof -
  let ?ts = "deltas_from (\<lambda>d. d) x xs"
  let ?ds = "x # ?ts"
  let ?bs = "push_bit 4 0 # concat (map to_be_bytes ?ds)"
  have "?ds = deltas_from (\<lambda>d. d) 0 (x # xs)" by simp
  moreover have "\<not> checks \<or> sums_in_range 0 (x # xs)" using assms(1) sint_in_i64 [of x] by auto
  ultimately have "ts_uncompressed_loop checks (concat (map to_be_bytes ?ds)) 0 [] = Some (x # xs)"
    using ts_uncompressed_loop_exact [of checks 0 "x # xs" "[]"] by (simp only: append_Nil)
  moreover have "concat (map to_be_bytes ?ds) \<noteq> []" using length_words [of ?ds] by (metis length_0_conv length_Cons mult_eq_0_iff nat.distinct(1) zero_neq_numeral)
  ultimately have "ts_decode_uncompressed checks (tl ?bs) [] = Some (Inr (x # xs))"
    unfolding ts_decode_uncompressed_def by (simp only: list.sel length_words) simp
  moreover have "ts_block_of enc ?ds mx = Some (Inr ?bs)"
    unfolding ts_block_of_def if_not_P [OF assms(2)] if_P [OF assms(3)] ..
  ultimately show ?thesis by (intro exI [of _ ?bs]) (simp add: ts_decode_def)
qed

lemma ts_block_packed:
  assumes "\<not> checks \<or> sums_in_range x xs" "\<not> (length (x # deltas_from (\<lambda>d. d) x xs) > 1 \<and> use_rle (x # deltas_from (\<lambda>d. d) x xs))" "\<not> mx > MAX_VALUE"
    and "\<forall>d \<in> set (deltas_from (\<lambda>d. d) x xs). d \<le> mx"
  shows "\<exists>bs. ts_block_of enc (x # deltas_from (\<lambda>d. d) x xs) mx = Some (Inr bs) \<and> ts_decode checks dec bs [] = Some (Inr (x # xs))"
proof -
  let ?ts = "deltas_from (\<lambda>d. d) x xs"
  let ?ds = "x # ?ts"
  have narrow: "\<forall>d \<in> set ?ts. d \<le> MAX_VALUE" using assms(4,3) by (meson linorder_not_less order_trans)
  obtain j where j: "j \<le> 12" "find_div ?ts 1000000000000 = 10 ^ j" "\<forall>d \<in> set ?ts. d mod 10 ^ j = 0"
    using find_div_pow10 [of 12 ?ts, OF order_refl, unfolded ten_12] by (elim exE conjE) (rule that)
  obtain bs where bs: "(let d = find_div ?ts 1000000000000; rest = (if d > 1 then map (\<lambda>delta. delta div d) ?ts else ?ts)
      in simple8b_encode rest ((push_bit 4 1 OR log10_u8 d) # to_be_bytes x)) = Inr ((push_bit 4 1 OR of_nat j) # to_be_bytes x @ bs)"
      "simple8b_decode bs [] = Some (map (\<lambda>d. d div 10 ^ j) ?ts)"
    using ts_packed [OF narrow j(1,2)] by blast
  let ?bs = "(push_bit 4 1 OR of_nat j) # to_be_bytes x @ bs"
  have "drop 9 ?bs = bs" using drop_exact [of "(push_bit 4 1 OR of_nat j) # to_be_bytes x" 9 bs] by simp
  then have "ts_decode_simple8b checks ?bs [] = Some (Inr (x # xs))"
    using ts_sum_loop_exact [OF j(3,1) assms(1), of "[x]"] bs(2) ts_header(4) [OF j(1)] by (simp add: ts_decode_simple8b_def Let_def subslice_def)
  moreover have "ts_block_of enc ?ds mx = Some (Inr ?bs)"
    unfolding ts_block_of_def if_not_P [OF assms(2)] if_not_P [OF assms(3)] using bs(1) by (auto simp: Let_def split: if_splits)
  ultimately show ?thesis using ts_header(3) [OF j(1)] by (intro exI [of _ ?bs]) (simp add: ts_decode_def)
qed

lemma ts_block:
  assumes "varint_codec enc dec" "Suc (length xs) < 2 ^ 64" "\<not> checks \<or> sums_in_range x xs"
  shows "\<exists>bs. ts_encode enc (x # xs) = Some (Inr bs) \<and> ts_decode checks dec bs [] = Some (Inr (x # xs))"
proof -
  obtain mx where mx: "\<forall>d \<in> set (deltas_from (\<lambda>d. d) x xs). d \<le> mx" "ts_encode enc (x # xs) = ts_block_of enc (x # deltas_from (\<lambda>d. d) x xs) mx"
    using ts_encode_Cons by blast
  show ?thesis
    unfolding mx(2) using ts_block_rle [OF assms(1,2)] ts_block_raw [OF assms(3)] ts_block_packed [OF assms(3) _ _ mx(1)] by blast
qed

text \<open>
  C11. A block of timestamps decodes to the values it was encoded from, whichever encoding and divisor were chosen. In a build
  with overflow checks this takes that the sums of neighbouring differences stay in the range of the type;
  without them there is no condition.
\<close>

theorem timestamp_roundtrip:
  assumes "varint_codec enc dec" "length src < 2 ^ 64" "\<not> checks \<or> sums_in_range (hd src) (tl src)"
  shows "\<exists>bs. ts_encode enc src = Some (Inr bs) \<and> ts_decode checks dec bs [] = Some (Inr src)"
proof (cases src)
  case Nil
  then show ?thesis by (simp add: ts_encode_def ts_decode_def)
next
  case (Cons x xs)
  then show ?thesis using ts_block [OF assms(1), of xs checks x] assms(2,3) by auto
qed

theorem timestamp_roundtrip_witness:
  "\<exists>bs. ts_encode leb128_encode [1000, 3000, 4000] = Some (Inr bs) \<and> ts_decode True leb128_decode bs [] = Some (Inr [1000, 3000, 4000])"
  using timestamp_roundtrip [OF leb128_codec, of "[1000, 3000, 4000]" True] by (simp add: in_i64_def i64_min_def i64_max_def)

end
