(* ===== verification/Tsm_Blocks.thy ===== *)
theory Tsm_Blocks
  imports Tsm_Integer
begin

text \<open>
  Blocks of booleans and of strings (\<^verbatim>\<open>influxdb_tsm/src/encoders/boolean.rs\<close> and \<^verbatim>\<open>string.rs\<close>): bits packed most significant first behind
  their number, and strings with their lengths in front, compressed by the \<^verbatim>\<open>snap\<close> crate, which is a parameter.
\<close>

section \<open>Booleans\<close>

definition HEADER_LEN :: nat where
  "HEADER_LEN = 1"

definition BOOLEAN_COMPRESSED_BIT_PACKED :: u8 where
  "BOOLEAN_COMPRESSED_BIT_PACKED = 1"

fun bool_loop :: "bool list \<Rightarrow> nat \<Rightarrow> u8 list \<Rightarrow> (u8 list \<times> nat) option" where
  "bool_loop [] n dst = Some (dst, n)"
| "bool_loop (v # src) n dst = do {
     let index = n div 8;
     b \<leftarrow> nth_opt dst index;
     let b = (if v then b OR drop_bit (n mod 8) 128 else b AND NOT (drop_bit (n mod 8) 128));
     bool_loop src (n + 1) (dst[index := b])
   }"

definition bool_encode :: "encode_var \<Rightarrow> bool list \<Rightarrow> (string + u8 list) option" where
  "bool_encode enc src =
     (if src = [] then Some (Inr [])
      else do {
        let size = HEADER_LEN + 8 + (length src + 7) div 8;
        let dst = (resize size 0 [])[0 := push_bit 4 BOOLEAN_COMPRESSED_BIT_PACKED];
        (dst, i) \<leftarrow> encode_var_at enc (of_nat (length src)) 1 dst;
        (dst, n) \<leftarrow> bool_loop src (8 + i * 8) dst;
        Some (Inr (take (n div 8 + (if n mod 8 > 0 then 1 else 0)) dst))
      })"

function byte_loop :: "u8 \<Rightarrow> u8 \<Rightarrow> nat \<Rightarrow> nat \<Rightarrow> bool list \<Rightarrow> bool list \<times> nat" where
  "byte_loop v i j count dst = (if i > 0 \<and> j < count then byte_loop v (drop_bit 1 i) (j + 1) count (dst @ [v AND i \<noteq> 0]) else (dst, j))"
  by pat_completeness auto
termination
  by (relation "measure (\<lambda>(_, _, j, count, _). count - j)") auto

declare byte_loop.simps [simp del]

fun bytes_loop :: "u8 list \<Rightarrow> nat \<Rightarrow> nat \<Rightarrow> bool list \<Rightarrow> bool list" where
  "bytes_loop [] j count dst = dst"
| "bytes_loop (v # src) j count dst = (let (dst, j) = byte_loop v 128 j count dst in bytes_loop src j count dst)"

definition bool_decode :: "decode_var \<Rightarrow> u8 list \<Rightarrow> bool list \<Rightarrow> (string + bool list) option" where
  "bool_decode dec src dst =
     (if src = [] then Some (Inr dst)
      else do {
        assert_that (src ! 0 = push_bit 4 BOOLEAN_COMPRESSED_BIT_PACKED);
        let src = drop HEADER_LEN src;
        (case dec src of
           None \<Rightarrow> Some (Inl ''boolean decoder: invalid count'')
         | Some (count, num_bytes_read) \<Rightarrow> do {
             src \<leftarrow> subslice num_bytes_read (length src) src;
             let count = min (length src * 8) (unat count);
             Some (Inr (bytes_loop src 0 count dst))
           })
      })"

section \<open>Strings\<close>

definition STRING_COMPRESSED_SNAPPY :: u8 where
  "STRING_COMPRESSED_SNAPPY = 1"

definition MAX_VAR_INT_32 :: nat where
  "MAX_VAR_INT_32 = 5"

definition MAX_I32 :: nat where
  "MAX_I32 = 2147483647"

text \<open>
  The compressor: the space it needs at most, 0 for too much input; compression into a buffer of a given length; decompression.
\<close>

record snap =
  max_compress_len :: "nat \<Rightarrow> nat"
  compress :: "u8 list \<Rightarrow> nat \<Rightarrow> string + u8 list"
  decompress_vec :: "u8 list \<Rightarrow> string + u8 list"

text \<open>What the crate promises: with the space it asks for compression succeeds and decompression undoes it.\<close>

definition snap_codec :: "snap \<Rightarrow> bool" where
  "snap_codec sn \<longleftrightarrow> (\<forall>d room. max_compress_len sn (length d) \<noteq> 0 \<and> max_compress_len sn (length d) \<le> room
       \<longrightarrow> (\<exists>c. compress sn d room = Inr c \<and> decompress_vec sn c = Inr d))
     \<and> (\<forall>n m. n \<le> m \<and> max_compress_len sn m \<noteq> 0 \<longrightarrow> max_compress_len sn n \<noteq> 0 \<and> max_compress_len sn n \<le> max_compress_len sn m)"

fun write_strings :: "encode_var \<Rightarrow> u8 list list \<Rightarrow> nat \<Rightarrow> u8 list \<Rightarrow> (u8 list \<times> nat) option" where
  "write_strings enc [] n data = Some (data, n)"
| "write_strings enc (s # src) n data = do {
     let len = length s;
     (data, k) \<leftarrow> encode_var_at enc (of_nat len) n data;
     let n = n + k;
     assert_that (n + len \<le> length data);
     let data = take n data @ s @ drop (n + len) data;
     write_strings enc src (n + len) data
   }"

definition string_encode :: "encode_var \<Rightarrow> snap \<Rightarrow> u8 list list \<Rightarrow> (string + u8 list) option" where
  "string_encode enc sn src =
     (if src = [] then Some (Inr [])
      else do {
        let length_of_lengths = length src * MAX_VAR_INT_32;
        assert_that (\<forall>s \<in> set src. length s < MAX_I32);
        let sum_of_lengths = sum_list (map length src);
        let source_size = 2 + length_of_lengths + sum_of_lengths;
        let max_encoded_len = max_compress_len sn source_size;
        if max_encoded_len = 0 then Some (Inl ''source length too large'')
        else do {
          (data, n) \<leftarrow> write_strings enc src 0 (replicate source_size 0);
          (case compress sn (take n data) max_encoded_len of
             Inl e \<Rightarrow> Some (Inl e)
           | Inr c \<Rightarrow> Some (Inr (push_bit 4 STRING_COMPRESSED_SNAPPY # c)))
        }
      })"

text \<open>The loop over the decompressed bytes, here with what is left of them. Nothing in it shows that it ends.\<close>

partial_function (option) strings_loop :: "bool \<Rightarrow> decode_var \<Rightarrow> nat \<Rightarrow> nat \<Rightarrow> u8 list \<Rightarrow> u8 list list \<Rightarrow> (string + u8 list list) option" where
  "strings_loop checks dec num i bytes dst =
     (if i < num
      then (case dec (drop i bytes) of
          None \<Rightarrow> Some (Inl ''invalid encoded string length'')
        | Some (len, num_bytes_read) \<Rightarrow>
            let lower = i + num_bytes_read; upper = lower + unat len
            in if upper \<ge> 2 ^ 64 then (if checks then None else Some (Inl ''length overflow''))
               else if upper > num then Some (Inl ''short buffer'')
               else strings_loop checks dec num (i + (unat len + num_bytes_read)) bytes (dst @ [take (unat len) (drop lower bytes)]))
      else Some (Inr dst))"

definition string_decode :: "bool \<Rightarrow> decode_var \<Rightarrow> snap \<Rightarrow> u8 list \<Rightarrow> u8 list list \<Rightarrow> (string + u8 list list) option" where
  "string_decode checks dec sn src dst =
     (if src = [] then Some (Inr dst)
      else (case decompress_vec sn (drop HEADER_LEN src) of
          Inl e \<Rightarrow> Some (Inl e)
        | Inr decoded_bytes \<Rightarrow> strings_loop checks dec (length decoded_bytes) 0 decoded_bytes dst))"

section \<open>Bits in a stream of bytes\<close>

text \<open>The bit at a position of a byte stream, most significant first.\<close>

definition stream_bit :: "u8 list \<Rightarrow> nat \<Rightarrow> bool" where
  "stream_bit bs m = bit (bs ! (m div 8)) (7 - m mod 8)"

lemma bit_128: "bit (drop_bit r (128 :: u8)) q \<longleftrightarrow> r + q = 7"
proof -
  have "(128 :: u8) = 2 ^ 7" by simp
  then show ?thesis by (simp only: bit_drop_bit_eq bit_exp_iff comp_def) (auto simp: bit_simps)
qed

lemma stream_bit_update:
  assumes "m < 8 * length bs" "n < 8 * length bs" "b = bs ! (n div 8)"
  shows "stream_bit (bs[n div 8 := (if v then b OR drop_bit (n mod 8) 128 else b AND NOT (drop_bit (n mod 8) 128))]) m
    = (if m = n then v else stream_bit bs m)"
proof (cases "m div 8 = n div 8")
  case True
  have i: "n div 8 < length bs" using assms(2) by (simp add: less_mult_imp_div_less mult.commute)
  have r: "m mod 8 < 8" "n mod 8 < 8" by simp_all
  have "n mod 8 + (7 - m mod 8) = 7 \<longleftrightarrow> m mod 8 = n mod 8" using r by linarith
  also have "\<dots> \<longleftrightarrow> m = n" using True by (metis div_mult_mod_eq)
  finally have eq: "n mod 8 + (7 - m mod 8) = 7 \<longleftrightarrow> m = n" .
  have "7 - m mod 8 < 8" by simp
  then show ?thesis
    unfolding stream_bit_def True using i assms(3) eq by (auto simp: bit_or_iff bit_and_iff bit_not_iff bit_128)
next
  case False
  then show ?thesis by (auto simp: stream_bit_def)
qed

lemma bool_loop_exact:
  assumes "n + length src \<le> 8 * length dst"
  shows "\<exists>dst'. bool_loop src n dst = Some (dst', n + length src) \<and> length dst' = length dst \<and> (\<forall>k < n div 8. dst' ! k = dst ! k)
    \<and> (\<forall>m < 8 * length dst. stream_bit dst' m = (if n \<le> m \<and> m < n + length src then src ! (m - n) else stream_bit dst m))"
  using assms
proof (induction src arbitrary: n dst)
  case (Cons v src)
  have n: "n < 8 * length dst" using Cons.prems by simp
  then have i: "n div 8 < length dst" by (simp add: less_mult_imp_div_less mult.commute)
  let ?b = "dst ! (n div 8)"
  let ?dst = "dst[n div 8 := (if v then ?b OR drop_bit (n mod 8) 128 else ?b AND NOT (drop_bit (n mod 8) 128))]"
  obtain dst' where IH: "bool_loop src (n + 1) ?dst = Some (dst', n + 1 + length src)" "length dst' = length dst"
      "\<And>k. k < (n + 1) div 8 \<Longrightarrow> dst' ! k = ?dst ! k"
      "\<And>m. m < 8 * length dst \<Longrightarrow> stream_bit dst' m = (if n + 1 \<le> m \<and> m < n + 1 + length src then src ! (m - (n + 1)) else stream_bit ?dst m)"
    using Cons.IH [of "n + 1" ?dst] Cons.prems by auto
  have "dst' ! k = dst ! k" if "k < n div 8" for k
  proof -
    have "n div 8 \<le> (n + 1) div 8" by (rule div_le_mono) simp
    then show ?thesis using IH(3) [of k] that by simp
  qed
  moreover have "stream_bit dst' m = (if n \<le> m \<and> m < n + length (v # src) then (v # src) ! (m - n) else stream_bit dst m)"
    if m: "m < 8 * length dst" for m
  proof -
    have "stream_bit ?dst m = (if m = n then v else stream_bit dst m)" by (rule stream_bit_update [OF m n refl])
    then show ?thesis using IH(4) [OF m] by (auto simp: nth_Cons' not_le)
  qed
  ultimately show ?case using IH(1,2) i by auto
qed auto

text \<open>The bits of a byte, most significant first, and what the decoder makes of bytes.\<close>

definition msb_bits :: "u8 \<Rightarrow> bool list" where
  "msb_bits v = map (\<lambda>q. bit v (7 - q)) [0..<8]"

lemma byte_zero_bits: "w = 0 \<longleftrightarrow> (\<forall>q. \<not> bit (w :: u8) q)"
  by (auto intro: bit_word_eqI)

lemma and_128:
  assumes "k < 8"
  shows "v AND drop_bit k (128 :: u8) \<noteq> 0 \<longleftrightarrow> bit v (7 - k)"
proof -
  have "k + q = 7 \<longleftrightarrow> q = 7 - k" for q using assms by linarith
  moreover have "v AND drop_bit k 128 = 0 \<longleftrightarrow> (\<forall>q. \<not> bit (v AND drop_bit k 128) q)"
    by (rule byte_zero_bits)
  ultimately show ?thesis by (simp only: bit_and_iff bit_128) simp
qed

lemma drop_128_pos: "drop_bit k (128 :: u8) > 0 \<longleftrightarrow> k < 8"
proof -
  have "drop_bit k (128 :: u8) = 0 \<longleftrightarrow> (\<forall>q. \<not> bit (drop_bit k (128 :: u8)) q)"
    by (rule byte_zero_bits)
  also have "\<dots> \<longleftrightarrow> \<not> k < 8" unfolding bit_128 by presburger
  finally show ?thesis by (simp add: word_gt_0)
qed

lemma byte_loop_from:
  assumes "k \<le> 8" "j \<le> count"
  shows "byte_loop v (drop_bit k 128) j count dst = (dst @ take (count - j) (map (\<lambda>q. bit v (7 - q)) [k..<8]), j + min (8 - k) (count - j))"
  using assms
proof (induction "8 - k" arbitrary: k j dst)
  case 0
  then show ?case by (simp add: byte_loop.simps [of v 0])
next
  case (Suc d)
  have k: "k < 8" using Suc.hyps(2) by simp
  show ?case
  proof (cases "j < count")
    case True
    have "byte_loop v (drop_bit k 128) j count dst = byte_loop v (drop_bit (Suc k) 128) (j + 1) count (dst @ [bit v (7 - k)])"
      using k True by (simp add: byte_loop.simps [of v "drop_bit k 128"] drop_128_pos and_128 drop_bit_drop_bit)
    also have "\<dots> = (dst @ take (count - j) (map (\<lambda>q. bit v (7 - q)) [k..<8]), j + min (8 - k) (count - j))"
      using Suc.hyps(1) [of "Suc k" "j + 1" "dst @ [bit v (7 - k)]"] Suc.hyps(2) k True
      by (simp add: upt_conv_Cons [of k] Suc_diff_Suc [symmetric, of j count] Suc_diff_le)
    finally show ?thesis .
  next
    case False
    then show ?thesis using Suc.prems by (simp add: byte_loop.simps [of v "drop_bit k 128"])
  qed
qed

lemma bytes_loop_exact:
  "j \<le> count \<Longrightarrow> bytes_loop src j count dst = dst @ take (count - j) (concat (map msb_bits src))"
proof (induction src arbitrary: j dst)
  case (Cons v src)
  have len: "length (msb_bits v) = 8" by (simp add: msb_bits_def)
  have "byte_loop v 128 j count dst = (dst @ take (count - j) (msb_bits v), j + min 8 (count - j))"
    using byte_loop_from [of 0 j count v dst] Cons.prems by (simp add: msb_bits_def)
  moreover have "count - (j + min 8 (count - j)) = count - j - 8" "j + min 8 (count - j) \<le> count" using Cons.prems by simp_all
  ultimately show ?case using Cons.IH [of "j + min 8 (count - j)"] len by simp
qed simp

lemma stream_bits: "m < 8 * length bs \<Longrightarrow> concat (map msb_bits bs) ! m = stream_bit bs m"
proof (induction bs arbitrary: m)
  case (Cons v bs)
  have len: "length (msb_bits v) = 8" by (simp add: msb_bits_def)
  show ?case
  proof (cases "m < 8")
    case True
    then have "msb_bits v ! m = bit v (7 - m)" by (simp add: msb_bits_def)
    then show ?thesis using True by (simp add: nth_append len stream_bit_def)
  next
    case False
    then obtain q where "m = q + 8" by (metis le_add_diff_inverse2 not_le)
    moreover have "(q + 8) div 8 = Suc (q div 8)" by simp
    ultimately show ?thesis using Cons by (simp add: nth_append len stream_bit_def del: div_add_self2)
  qed
qed simp

lemma stream_bits_take:
  assumes "length src \<le> 8 * length bs" "\<And>m. m < length src \<Longrightarrow> stream_bit bs m = src ! m"
  shows "take (length src) (concat (map msb_bits bs)) = src"
proof (rule nth_equalityI)
  have "length (concat (map msb_bits bs)) = 8 * length bs" by (induction bs) (simp_all add: msb_bits_def)
  then show len: "length (take (length src) (concat (map msb_bits bs))) = length src" using assms(1) by simp
  show "take (length src) (concat (map msb_bits bs)) ! m = src ! m" if "m < length (take (length src) (concat (map msb_bits bs)))" for m
  proof -
    have "m < length src" using that len by simp
    then show ?thesis using stream_bits [of m bs] assms by simp
  qed
qed

section \<open>Round trips\<close>

lemma stream_bit_behind: "stream_bit (pre @ bs) (8 * length pre + m) = stream_bit bs m"
proof -
  have "(8 * length pre + m) div 8 = length pre + m div 8" "(8 * length pre + m) mod 8 = m mod 8" by simp_all
  then show ?thesis unfolding stream_bit_def by (simp only: nth_append_length_plus)
qed

lemma stream_bit_take: "m div 8 < k \<Longrightarrow> stream_bit (take k bs) m = stream_bit bs m"
  by (simp add: stream_bit_def)

lemma bool_loop_behind:
  assumes "length src \<le> 8 * q" "n = 8 * length pre"
  obtains bs where "bool_loop src n (pre @ replicate q 0) = Some (pre @ bs, n + length src)" "length bs = q"
    and "\<forall>m < length src. stream_bit bs m = src ! m"
proof -
  let ?d = "pre @ replicate q 0"
  have "n + length src \<le> 8 * length ?d" using assms by simp
  then obtain d where d: "bool_loop src n ?d = Some (d, n + length src)" "length d = length ?d" "\<forall>k < n div 8. d ! k = ?d ! k"
      "\<forall>m < 8 * length ?d. stream_bit d m = (if n \<le> m \<and> m < n + length src then src ! (m - n) else stream_bit ?d m)"
    using bool_loop_exact by blast
  have "take (length pre) d = pre"
    using d(2,3) assms(2) by (intro nth_equalityI) (auto simp: nth_append)
  then obtain bs where bs: "d = pre @ bs" by (metis append_take_drop_id)
  moreover have "stream_bit bs m = src ! m" if "m < length src" for m
  proof -
    have "stream_bit d (8 * length pre + m) = src ! m" using d(4) [rule_format, of "8 * length pre + m"] that assms by simp
    then show ?thesis unfolding bs stream_bit_behind .
  qed
  ultimately show thesis using d(1,2) that by simp
qed

lemma bool_block:
  assumes "varint_codec enc dec" "length src < 2 ^ 56" "src \<noteq> []"
  obtains bs where "bool_encode enc src = Some (Inr (16 # enc (of_nat (length src)) @ bs))" "length bs = (length src + 7) div 8"
    and "\<forall>m < length src. stream_bit bs m = src ! m"
proof -
  let ?e = "enc (of_nat (length src))"
  let ?k = "(length src + 7) div 8"
  have "unat (of_nat (length src) :: u64) < 128 ^ 8" using assms(2) by (simp add: unat_of_nat)
  then have i: "length ?e \<le> 8" using assms(1) unfolding varint_codec_def by (metis zero_less_numeral)
  have "resize (9 + ?k) (0 :: u8) [] = 0 # replicate (8 + ?k) 0" unfolding resize_def by (simp flip: replicate_Suc)
  then have start: "(resize (9 + ?k) 0 [])[0 := push_bit 4 (1 :: u8)] = 16 # replicate (8 + ?k) 0" by simp
  have writes: "encode_var_at enc (of_nat (length src)) 1 (16 # replicate (8 + ?k) 0) = Some ((16 # ?e) @ replicate (8 + ?k - length ?e) 0, length ?e)"
    using i by (simp add: encode_var_at_def Let_def)
  let ?n = "8 + length ?e * 8"
  have "length src \<le> 8 * (8 + ?k - length ?e)" "?n = 8 * length (16 # ?e)" using i by simp_all
  then obtain bs where bs: "bool_loop src ?n ((16 # ?e) @ replicate (8 + ?k - length ?e) 0) = Some ((16 # ?e) @ bs, ?n + length src)"
      "length bs = 8 + ?k - length ?e" "\<forall>m < length src. stream_bit bs m = src ! m"
    by (rule bool_loop_behind)
  have "(?n + length src) div 8 + (if (?n + length src) mod 8 > 0 then 1 else 0) = length (16 # ?e) + ?k" by simp presburger
  then have "take ((?n + length src) div 8 + (if (?n + length src) mod 8 > 0 then 1 else 0)) ((16 # ?e) @ bs) = (16 # ?e) @ take ?k bs"
    by (simp only: take_append) simp
  then have "bool_encode enc src = Some (Inr ((16 # ?e) @ take ?k bs))"
    unfolding bool_encode_def HEADER_LEN_def BOOLEAN_COMPRESSED_BIT_PACKED_def Let_def
    by (simp only: assms(3) if_False add.assoc [of 1 8, symmetric] one_plus_numeral numeral_plus_numeral start writes bs(1) bind.bind_lunit prod.case add.commute [of 1 8] add_num_simps)
  moreover have "stream_bit (take ?k bs) m = src ! m" if "m < length src" for m
    using bs(3) that by (subst stream_bit_take) auto
  ultimately show thesis using bs(2) i that by simp
qed

text \<open>
  C27. A block of booleans decodes to the values it was encoded from, after what the destination held.
\<close>

theorem bool_roundtrip:
  assumes "varint_codec enc dec" "length src < 2 ^ 56" "src \<noteq> []"
  shows "\<exists>bs. bool_encode enc src = Some (Inr bs) \<and> bool_decode dec bs dst = Some (Inr (dst @ src))"
proof -
  obtain bs where bs: "bool_encode enc src = Some (Inr (16 # enc (of_nat (length src)) @ bs))" "length bs = (length src + 7) div 8"
      "\<forall>m < length src. stream_bit bs m = src ! m"
    using bool_block [OF assms] .
  have "unat (of_nat (length src) :: u64) = length src" using assms(2) by (simp add: unat_of_nat)
  moreover have le: "length src \<le> 8 * length bs" using bs(2) by simp
  moreover have take: "take (length src) (concat (map msb_bits bs)) = src" using le bs(3) by (intro stream_bits_take) simp_all
  ultimately have "bool_decode dec (16 # enc (of_nat (length src)) @ bs) dst = Some (Inr (bytes_loop bs 0 (length src) dst))"
    using varint_decode [OF assms(1)]
    by (simp add: bool_decode_def BOOLEAN_COMPRESSED_BIT_PACKED_def HEADER_LEN_def subslice_def min_def mult.commute)
  then show ?thesis using bs(1) by (simp add: bytes_loop_exact take)
qed

theorem bool_roundtrip_witness:
  "\<exists>bs. bool_encode leb128_encode [True, False, True] = Some (Inr bs) \<and> bool_decode leb128_decode bs [False] = Some (Inr [False, True, False, True])"
  using bool_roundtrip [OF leb128_codec, of "[True, False, True]" "[False]"] by simp

definition strings_payload :: "encode_var \<Rightarrow> u8 list list \<Rightarrow> u8 list" where
  "strings_payload enc src = concat (map (\<lambda>s. enc (of_nat (length s)) @ s) src)"

lemma strings_payload_simps [simp]:
  "strings_payload enc [] = []" "strings_payload enc (s # src) = enc (of_nat (length s)) @ s @ strings_payload enc src"
  by (simp_all add: strings_payload_def)

lemma write_strings_exact:
  "length (strings_payload enc src) \<le> length rest \<Longrightarrow>
   write_strings enc src (length pre) (pre @ rest)
     = Some (pre @ strings_payload enc src @ drop (length (strings_payload enc src)) rest, length pre + length (strings_payload enc src))"
proof (induction src arbitrary: pre rest)
  case (Cons s src)
  let ?e = "enc (of_nat (length s))"
  have "length (strings_payload enc src) \<le> length (drop (length ?e + length s) rest)" using Cons.prems by simp
  from Cons.IH [OF this, of "pre @ ?e @ s"] show ?case using Cons.prems by (simp add: encode_var_at_def Let_def ac_simps)
qed simp

lemma payload_length:
  assumes "varint_codec enc dec" "\<forall>s \<in> set src. length s < MAX_I32"
  shows "length (strings_payload enc src) \<le> length src * MAX_VAR_INT_32 + sum_list (map length src)"
  using assms(2)
proof (induction src)
  case (Cons s src)
  have "unat (of_nat (length s) :: u64) < 128 ^ 5" using Cons.prems by (simp add: unat_of_nat MAX_I32_def)
  then have "length (enc (of_nat (length s))) \<le> 5" using assms(1) unfolding varint_codec_def by (metis zero_less_numeral)
  then show ?case using Cons by (simp add: MAX_VAR_INT_32_def)
qed simp

lemma strings_loop_payload:
  assumes "varint_codec enc dec" "\<forall>s \<in> set src. length s < MAX_I32" "length pre + length (strings_payload enc src) < 2 ^ 64"
  shows "strings_loop checks dec (length pre + length (strings_payload enc src)) (length pre) (pre @ strings_payload enc src) dst = Some (Inr (dst @ src))"
  using assms(2,3)
proof (induction src arbitrary: pre dst)
  case Nil
  then show ?case by (simp add: strings_loop.simps)
next
  case (Cons s src)
  let ?e = "enc (of_nat (length s))"
  have len: "unat (of_nat (length s) :: u64) = length s" using Cons.prems(1) by (simp add: unat_of_nat MAX_I32_def)
  have ne: "?e \<noteq> []" using assms(1) by (simp add: varint_codec_def)
  note dec = varint_decode [OF assms(1)]
  have "strings_loop checks dec (length (pre @ ?e @ s) + length (strings_payload enc src)) (length (pre @ ?e @ s)) ((pre @ ?e @ s) @ strings_payload enc src) (dst @ [s])
    = Some (Inr ((dst @ [s]) @ src))"
    using Cons.prems by (intro Cons.IH) (simp_all add: add.assoc)
  then show ?case using Cons.prems(2) ne
    by (subst strings_loop.simps) (simp add: dec len Let_def ac_simps)
qed

text \<open>
  C26. A block of strings decodes to the strings it was encoded from, after what the destination held, for every compressor that keeps
  its promise, if the compressor takes the buffer at all and no string is longer than the encoder's limit. The decoder's loop ends.
\<close>

theorem string_roundtrip:
  assumes "varint_codec enc dec" "snap_codec sn" "\<forall>s \<in> set src. length s < MAX_I32" "src \<noteq> []"
    and "room = 2 + length src * MAX_VAR_INT_32 + sum_list (map length src)" "room < 2 ^ 64" "max_compress_len sn room \<noteq> 0"
  shows "\<exists>bs. string_encode enc sn src = Some (Inr bs) \<and> string_decode checks dec sn bs dst = Some (Inr (dst @ src))"
proof -
  let ?p = "strings_payload enc src"
  have le: "length ?p \<le> room" using payload_length [OF assms(1,3)] assms(5) by simp
  have w: "write_strings enc src 0 (replicate room 0) = Some (?p @ drop (length ?p) (replicate room 0), length ?p)"
    using write_strings_exact [of enc src "replicate room 0" "[]"] le by simp
  have "max_compress_len sn (length ?p) \<noteq> 0" "max_compress_len sn (length ?p) \<le> max_compress_len sn room"
    using assms(2,7) le unfolding snap_codec_def by blast+
  then obtain c where c: "compress sn ?p (max_compress_len sn room) = Inr c" "decompress_vec sn c = Inr ?p"
    using assms(2) unfolding snap_codec_def by blast
  have "string_encode enc sn src = Some (Inr (push_bit 4 STRING_COMPRESSED_SNAPPY # c))"
    unfolding string_encode_def Let_def assms(5) [symmetric] using assms(3,4,7) c(1) w by simp
  moreover have "string_decode checks dec sn (push_bit 4 STRING_COMPRESSED_SNAPPY # c) dst = Some (Inr (dst @ src))"
    using strings_loop_payload [OF assms(1,3), of "[]" checks dst] le assms(6) c(2) by (simp add: string_decode_def HEADER_LEN_def)
  ultimately show ?thesis by blast
qed

text \<open>A compressor that copies.\<close>

definition copy_snap :: snap where
  "copy_snap = \<lparr>max_compress_len = (\<lambda>n. n + 1), compress = (\<lambda>d room. Inr d), decompress_vec = Inr\<rparr>"

theorem string_roundtrip_witness:
  "\<exists>bs. string_encode leb128_encode copy_snap [[104, 105], []] = Some (Inr bs)
     \<and> string_decode True leb128_decode copy_snap bs [] = Some (Inr [[104, 105], []])"
  using string_roundtrip [OF leb128_codec, of copy_snap "[[104, 105], []]" 14 True "[]"]
  by (simp add: snap_codec_def copy_snap_def MAX_I32_def MAX_VAR_INT_32_def)

end
