(* ===== verification/Packed_Strings.thy ===== *)
theory Packed_Strings
  imports Prelude
begin

text \<open>
  String storage of the write path: the packed string array (\<^verbatim>\<open>arrow_util/src/string.rs\<close>), which keeps all strings in one buffer
  with an array of offsets, and the string dictionary on top of it (\<^verbatim>\<open>arrow_util/src/dictionary.rs\<close>). Both with 32 bit keys, as
  columns use them.

  The lists of strings they stand for have one packed form each (\<open>packed\<close>, \<open>dict_of\<close>), and every operation is shown to map packed
  forms to packed forms. Strings are lists of bytes. All offsets lie between whole strings, so that no cut falls inside a character.
\<close>

section \<open>Packed string arrays\<close>

record PackedStringArray =
  ps_offsets :: "nat list"
  ps_storage :: string

text \<open>\<^verbatim>\<open>K::from_usize(..).expect(..)\<close> for 32 bit keys.\<close>

definition i32_from_usize :: "nat \<Rightarrow> nat option" where
  "i32_from_usize n = (if n < 2 ^ 31 then Some n else None)"

definition ps_new :: PackedStringArray where
  "ps_new = \<lparr>ps_offsets = [0], ps_storage = []\<rparr>"

definition ps_new_empty :: "nat \<Rightarrow> PackedStringArray" where
  "ps_new_empty len = \<lparr>ps_offsets = replicate (len + 1) 0, ps_storage = []\<rparr>"

definition ps_append :: "PackedStringArray \<Rightarrow> string \<Rightarrow> (PackedStringArray \<times> nat) option" where
  "ps_append self data = do {
     id \<leftarrow> checked_sub (length (ps_offsets self)) 1;
     offset \<leftarrow> i32_from_usize (length (ps_storage self) + length data);
     Some (\<lparr>ps_offsets = ps_offsets self @ [offset], ps_storage = ps_storage self @ data\<rparr>, id)
   }"

definition ps_extend_from :: "PackedStringArray \<Rightarrow> PackedStringArray \<Rightarrow> PackedStringArray option" where
  "ps_extend_from self other = do {
     let offset = length (ps_storage self);
     new \<leftarrow> those (map (\<lambda>x. i32_from_usize (x + offset)) (drop 1 (ps_offsets other)));
     Some \<lparr>ps_offsets = ps_offsets self @ new, ps_storage = ps_storage self @ ps_storage other\<rparr>
   }"

definition ps_extend_from_range :: "PackedStringArray \<Rightarrow> PackedStringArray \<Rightarrow> nat \<Rightarrow> nat \<Rightarrow> PackedStringArray option" where
  "ps_extend_from_range self other range_start range_end = do {
     first_offset \<leftarrow> nth_opt (ps_offsets other) range_start;
     end_offset \<leftarrow> nth_opt (ps_offsets other) range_end;
     let insert_offset = length (ps_storage self);
     s \<leftarrow> subslice first_offset end_offset (ps_storage other);
     os \<leftarrow> subslice (range_start + 1) (range_end + 1) (ps_offsets other);
     new \<leftarrow> those (map (\<lambda>x. do { d \<leftarrow> checked_sub x first_offset; i32_from_usize (d + insert_offset) }) os);
     Some \<lparr>ps_offsets = ps_offsets self @ new, ps_storage = ps_storage self @ s\<rparr>
   }"

definition ps_get :: "PackedStringArray \<Rightarrow> nat \<Rightarrow> string option option" where
  "ps_get self index =
     (case (nth_opt (ps_offsets self) index, nth_opt (ps_offsets self) (index + 1)) of
        (Some start_offset, Some end_offset) \<Rightarrow> map_option Some (subslice start_offset end_offset (ps_storage self))
      | _ \<Rightarrow> Some None)"

definition ps_extend :: "PackedStringArray \<Rightarrow> nat \<Rightarrow> PackedStringArray option" where
  "ps_extend self len = do {
     offset \<leftarrow> i32_from_usize (length (ps_storage self));
     Some (self\<lparr>ps_offsets := resize (length (ps_offsets self) + len) offset (ps_offsets self)\<rparr>)
   }"

definition ps_truncate :: "PackedStringArray \<Rightarrow> nat \<Rightarrow> PackedStringArray option" where
  "ps_truncate self len = do {
     let offsets = take (len + 1) (ps_offsets self);
     assert_that (offsets \<noteq> []);
     Some \<lparr>ps_offsets = offsets, ps_storage = take (last offsets) (ps_storage self)\<rparr>
   }"

definition ps_clear :: "PackedStringArray \<Rightarrow> PackedStringArray" where
  "ps_clear self = \<lparr>ps_offsets = take 1 (ps_offsets self), ps_storage = []\<rparr>"

definition ps_len :: "PackedStringArray \<Rightarrow> nat option" where
  "ps_len self = checked_sub (length (ps_offsets self)) 1"

definition ps_is_empty :: "PackedStringArray \<Rightarrow> bool" where
  "ps_is_empty self = (length (ps_offsets self) = 1)"

definition ps_split_off :: "PackedStringArray \<Rightarrow> nat \<Rightarrow> (PackedStringArray \<times> PackedStringArray) option" where
  "ps_split_off self n = do {
     len \<leftarrow> ps_len self;
     if n > len then Some (self, ps_new)
     else do {
       let offsets = drop (n + 1) (ps_offsets self);
       let left = take (n + 1) (ps_offsets self);
       assert_that (left \<noteq> []);
       let split_point = last left;
       storage \<leftarrow> subslice split_point (length (ps_storage self)) (ps_storage self);
       new \<leftarrow> those (map (\<lambda>v. do { d \<leftarrow> checked_sub v split_point; i32_from_usize d }) offsets);
       Some (\<lparr>ps_offsets = left, ps_storage = take split_point (ps_storage self)\<rparr>, \<lparr>ps_offsets = 0 # new, ps_storage = storage\<rparr>)
     }
   }"

text \<open>The iterator: \<^verbatim>\<open>get\<close> of one index after the other until there is none.\<close>

function ps_iter_from :: "PackedStringArray \<Rightarrow> nat \<Rightarrow> string list option" where
  "ps_iter_from self index =
     (case ps_get self index of
        None \<Rightarrow> None
      | Some None \<Rightarrow> Some []
      | Some (Some item) \<Rightarrow> map_option ((#) item) (ps_iter_from self (index + 1)))"
  by pat_completeness auto
termination
  by (relation "measure (\<lambda>(self, index). length (ps_offsets self) - index)")
    (auto simp: ps_get_def nth_opt_def split: option.splits if_splits)

declare ps_iter_from.simps [simp del]

definition ps_iter :: "PackedStringArray \<Rightarrow> string list option" where
  "ps_iter self = ps_iter_from self 0"

section \<open>The packed form of a list of strings\<close>

fun offsets_from :: "nat \<Rightarrow> string list \<Rightarrow> nat list" where
  "offsets_from n [] = [n]"
| "offsets_from n (v # vs) = n # offsets_from (n + length v) vs"

definition packed :: "string list \<Rightarrow> PackedStringArray" where
  "packed vs = \<lparr>ps_offsets = offsets_from 0 vs, ps_storage = concat vs\<rparr>"

text \<open>The total length of the strings can be an offset.\<close>

definition fits :: "string list \<Rightarrow> bool" where
  "fits vs \<longleftrightarrow> length (concat vs) < 2 ^ 31"

lemma packed_simps [simp]: "ps_offsets (packed vs) = offsets_from 0 vs" "ps_storage (packed vs) = concat vs"
  by (simp_all add: packed_def)

lemma length_offsets_from [simp]: "length (offsets_from n vs) = Suc (length vs)"
  by (induction n vs rule: offsets_from.induct) auto

lemma offsets_from_not_Nil [simp]: "offsets_from n vs \<noteq> []"
  by (cases vs) auto

lemma nth_offsets_from: "i \<le> length vs \<Longrightarrow> offsets_from n vs ! i = n + length (concat (take i vs))"
proof (induction n vs arbitrary: i rule: offsets_from.induct)
  case (2 n v vs)
  then show ?case by (cases i) auto
qed simp

lemma offsets_from_append: "offsets_from n (vs @ ws) = offsets_from n vs @ tl (offsets_from (n + length (concat vs)) ws)"
proof (induction n vs rule: offsets_from.induct)
  case (1 n)
  then show ?case by (cases ws) auto
next
  case (2 n v vs)
  then show ?case by (cases vs) (auto simp: add.assoc)
qed

lemma last_offsets_from [simp]: "last (offsets_from n vs) = n + length (concat vs)"
  by (induction n vs rule: offsets_from.induct) auto

lemma take_offsets_from: "k \<le> length vs \<Longrightarrow> take (Suc k) (offsets_from n vs) = offsets_from n (take k vs)"
proof (induction n vs arbitrary: k rule: offsets_from.induct)
  case (2 n v vs)
  then show ?case by (cases k) auto
qed simp

lemma offsets_from_shift: "offsets_from (n + m) vs = map (\<lambda>x. x + m) (offsets_from n vs)"
proof (induction vs arbitrary: n)
  case (Cons v vs)
  have "offsets_from (n + m + length v) vs = offsets_from (n + length v + m) vs" by (simp add: ac_simps)
  then show ?case using Cons [of "n + length v"] by simp
qed simp

lemma tl_offsets_from: "tl (offsets_from n vs) = map (\<lambda>x. x + n) (tl (offsets_from 0 vs))"
  using offsets_from_shift [of 0 n vs] by (simp add: map_tl)

lemma fits_append: "fits (vs @ ws) \<Longrightarrow> fits vs" "fits (vs @ ws) \<Longrightarrow> fits ws"
  by (simp_all add: fits_def)

lemma fits_take: "fits vs \<Longrightarrow> fits (take k vs)" and fits_drop: "fits vs \<Longrightarrow> fits (drop k vs)"
  using fits_append [of "take k vs" "drop k vs"] by simp_all

lemma offsets_fit: "x \<in> set (offsets_from n vs) \<Longrightarrow> n \<le> x \<and> x \<le> n + length (concat vs)"
  by (induction n vs rule: offsets_from.induct) auto

lemma those_map_in: "(\<And>x. x \<in> set xs \<Longrightarrow> f x = Some (g x)) \<Longrightarrow> those (map f xs) = Some (map g xs)"
  by (induction xs) auto

text \<open>Every operation on packed forms.\<close>

lemma ps_new_packed [simp]: "ps_new = packed []" "ps_new_empty n = packed (replicate n [])" "ps_clear (packed vs) = packed []"
proof -
  have "offsets_from 0 (replicate n []) = replicate (Suc n) 0" for n by (induction n) auto
  then show "ps_new_empty n = packed (replicate n [])" by (simp add: ps_new_empty_def packed_def)
  show "ps_new = packed []" by (simp add: ps_new_def packed_def)
  show "ps_clear (packed vs) = packed []" by (cases vs) (simp_all add: ps_clear_def packed_def)
qed

lemma ps_len_packed [simp]: "ps_len (packed vs) = Some (length vs)" "ps_is_empty (packed vs) = (vs = [])"
  by (simp_all add: ps_len_def ps_is_empty_def checked_sub_def)

lemma ps_append_packed: "fits (vs @ [v]) \<Longrightarrow> ps_append (packed vs) v = Some (packed (vs @ [v]), length vs)"
  by (simp add: ps_append_def i32_from_usize_def fits_def packed_def offsets_from_append checked_sub_def)

lemma offsets_extend: "offsets_from 0 vs @ map (\<lambda>x. x + length (concat vs)) (tl (offsets_from 0 ws)) = offsets_from 0 (vs @ ws)"
  by (simp add: offsets_from_append tl_offsets_from [of "length (concat vs)"])

lemma tl_offsets_fit: "x \<in> set (tl (offsets_from n vs)) \<Longrightarrow> n \<le> x \<and> x \<le> n + length (concat vs)"
  by (auto dest: list.set_sel(2) [OF offsets_from_not_Nil] intro!: offsets_fit)

lemma ps_extend_from_packed:
  assumes "fits (vs @ ws)"
  shows "ps_extend_from (packed vs) (packed ws) = Some (packed (vs @ ws))"
proof -
  have "those (map (\<lambda>x. i32_from_usize (x + length (concat vs))) (tl (offsets_from 0 ws)))
      = Some (map (\<lambda>x. x + length (concat vs)) (tl (offsets_from 0 ws)))"
    using assms by (intro those_map_in) (auto simp: i32_from_usize_def fits_def dest!: tl_offsets_fit)
  moreover have "drop 1 (offsets_from 0 ws) = tl (offsets_from 0 ws)" by (simp add: drop_Suc)
  ultimately show ?thesis unfolding ps_extend_from_def Let_def packed_simps
    by (simp only: bind.bind_lunit offsets_extend) (simp add: packed_def)
qed

lemma ps_extend_packed: "fits vs \<Longrightarrow> ps_extend (packed vs) n = Some (packed (vs @ replicate n []))"
proof -
  have "offsets_from m (replicate n []) = replicate (Suc n) m" for m by (induction n) auto
  then show "fits vs \<Longrightarrow> ?thesis"
    by (simp add: ps_extend_def i32_from_usize_def fits_def packed_def offsets_from_append resize_def)
qed

lemma ps_truncate_packed [simp]: "ps_truncate (packed vs) n = Some (packed (take n vs))"
proof (cases "n \<le> length vs")
  case True
  have "concat vs = concat (take n vs) @ concat (drop n vs)" by (metis append_take_drop_id concat_append)
  then show ?thesis using take_offsets_from [OF True, of 0] by (simp add: ps_truncate_def packed_def)
next
  case False
  then show ?thesis by (simp add: ps_truncate_def packed_def)
qed

lemma ps_get_packed [simp]: "ps_get (packed vs) i = Some (if i < length vs then Some (vs ! i) else None)"
proof (cases "i < length vs")
  case True
  have "concat vs = concat (take i vs) @ vs ! i @ concat (drop (Suc i) vs)"
    by (metis True concat.simps(2) concat_append id_take_nth_drop)
  moreover have "length (concat (take (Suc i) vs)) = length (concat (take i vs)) + length (vs ! i)"
    using True by (simp add: take_Suc_conv_app_nth)
  ultimately show ?thesis using True by (simp add: ps_get_def nth_offsets_from del: length_concat)
qed (simp add: ps_get_def nth_opt_def)

lemma ps_iter_packed [simp]: "ps_iter (packed vs) = Some vs"
proof -
  have "ps_iter_from (packed vs) i = Some (drop i vs)" if "i \<le> length vs" for i
    using that
  proof (induction i rule: inc_induct)
    case base
    then show ?case by (simp add: ps_iter_from.simps [of _ "length vs"])
  next
    case (step i)
    then show ?case by (simp add: ps_iter_from.simps [of _ i] Cons_nth_drop_Suc)
  qed
  then show ?thesis by (simp add: ps_iter_def)
qed

text \<open>A middle part of the offsets.\<close>

lemma offsets_middle:
  "take (length bs) (drop (Suc (length as)) (offsets_from 0 (as @ bs @ cs))) = tl (offsets_from (length (concat as)) bs)"
  by (simp add: offsets_from_append)

lemma shift_back:
  assumes "fits (vs @ bs)"
  shows "those (map (\<lambda>x. do { d \<leftarrow> checked_sub x n; i32_from_usize (d + length (concat vs)) }) (tl (offsets_from n bs)))
    = Some (map (\<lambda>x. x + length (concat vs)) (tl (offsets_from 0 bs)))"
proof -
  have "those (map (\<lambda>x. i32_from_usize (x + length (concat vs))) (tl (offsets_from 0 bs))) = Some (map (\<lambda>x. x + length (concat vs)) (tl (offsets_from 0 bs)))"
    using assms by (intro those_map_in) (auto simp: i32_from_usize_def fits_def dest!: tl_offsets_fit)
  then show ?thesis by (simp add: tl_offsets_from [of n] checked_sub_def comp_def)
qed

lemma ps_extend_from_range_packed:
  assumes "fits (vs @ bs)"
  shows "ps_extend_from_range (packed vs) (packed (as @ bs @ cs)) (length as) (length as + length bs) = Some (packed (vs @ bs))"
proof -
  let ?os = "offsets_from 0 (as @ bs @ cs)" and ?n = "length (concat as)"
  have first: "nth_opt ?os (length as) = Some ?n" by (simp add: nth_offsets_from del: length_concat)
  have last: "nth_opt ?os (length as + length bs) = Some (?n + length (concat bs))" by (simp add: nth_offsets_from del: length_concat)
  have bytes: "subslice ?n (?n + length (concat bs)) (concat (as @ bs @ cs)) = Some (concat bs)" by (simp del: length_concat)
  have offsets: "subslice (length as + 1) (length as + length bs + 1) ?os = Some (tl (offsets_from ?n bs))"
    using offsets_middle [of bs as cs] by (simp add: subslice_def)
  show ?thesis
    unfolding ps_extend_from_range_def Let_def packed_simps
    by (simp only: first last bytes offsets bind.bind_lunit shift_back [OF assms] offsets_extend) (simp add: packed_def)
qed

lemma ps_split_off_packed:
  assumes "fits vs"
  shows "ps_split_off (packed vs) n = Some (packed (take n vs), packed (drop n vs))"
proof (cases "n \<le> length vs")
  case True
  let ?as = "take n vs" and ?bs = "drop n vs"
  have n: "length ?as = n" using True by simp
  have "those (map (\<lambda>v. do { d \<leftarrow> checked_sub v (length (concat ?as)); i32_from_usize d }) (tl (offsets_from (length (concat ?as)) ?bs)))
      = Some (tl (offsets_from 0 ?bs))"
    using shift_back [of "[]" ?bs "length (concat ?as)"] fits_drop [OF assms] by simp
  moreover have "drop (n + 1) (offsets_from 0 vs) = tl (offsets_from (length (concat ?as)) ?bs)"
    using offsets_middle [of ?bs ?as "[]"] n True by simp
  moreover have "take (n + 1) (offsets_from 0 vs) = offsets_from 0 ?as" using take_offsets_from [OF True, of 0] by simp
  moreover have "subslice (length (concat ?as)) (length (concat vs)) (concat vs) = Some (concat ?bs)" "take (length (concat ?as)) (concat vs) = concat ?as"
    using concat_append [of ?as ?bs] by (metis append_eq_conv_conj append_take_drop_id length_append le_add1 order_refl subslice_Some take_all_iff add_diff_cancel_left')+
  moreover have "packed ?bs = \<lparr>ps_offsets = 0 # tl (offsets_from 0 ?bs), ps_storage = concat ?bs\<rparr>" by (cases ?bs) (simp_all add: packed_def)
  ultimately show ?thesis using True
    unfolding ps_split_off_def Let_def packed_simps ps_len_packed bind.bind_lunit
    by (simp only: last_offsets_from add_0 not_less if_False assert_that_simps offsets_from_not_Nil bind.bind_lunit not_False_eq_True simp_thms)
      (simp add: packed_def)
qed (simp add: ps_split_off_def)

end
