(* ===== verification/String_Dictionary.thy ===== *)
theory String_Dictionary
  imports Packed_Strings Statistics
begin

text \<open>
  The string dictionary (\<^verbatim>\<open>arrow_util/src/dictionary.rs\<close>) and what tag columns do with it: rebuilding a dictionary for a part of
  a column (\<^verbatim>\<open>mutable_batch/src/column.rs\<close>) and undoing the writes to a tag column (\<^verbatim>\<open>mutable_batch/src/writer.rs\<close>).
\<close>

section \<open>The dictionary\<close>

text \<open>
  The hash table holds keys under the hashes of their strings. An entry of the model has its key and the string whose hash it
  was stored under. Which entries a lookup compares depends on the hash function and on how the table probes: \<open>probes s v\<close> says that
  a lookup of \<open>v\<close> compares an entry stored under the hash of \<open>s\<close>. All that is known is that a lookup compares the entries stored
  under the same string. The moving of entries when the table grows is left out.
\<close>

type_synonym probe = "string \<Rightarrow> string \<Rightarrow> bool"

definition hash_table :: "probe \<Rightarrow> bool" where
  "hash_table probes \<longleftrightarrow> (\<forall>s. probes s s)"

record StringDictionary =
  sd_dedup :: "(nat \<times> string) list"
  sd_storage :: PackedStringArray

definition sd_new :: StringDictionary where
  "sd_new = \<lparr>sd_dedup = [], sd_storage = ps_new\<rparr>"

fun find_entry :: "probe \<Rightarrow> PackedStringArray \<Rightarrow> string \<Rightarrow> (nat \<times> string) list \<Rightarrow> nat option option" where
  "find_entry probes storage value [] = Some None"
| "find_entry probes storage value ((key, hashed) # dedup) =
     (if probes hashed value
      then do {
        r \<leftarrow> ps_get storage key;
        s \<leftarrow> r;
        if value = s then Some (Some key) else find_entry probes storage value dedup
      }
      else find_entry probes storage value dedup)"

definition lookup_value_or_insert :: "probe \<Rightarrow> StringDictionary \<Rightarrow> string \<Rightarrow> (StringDictionary \<times> nat) option" where
  "lookup_value_or_insert probes self value = do {
     entry \<leftarrow> find_entry probes (sd_storage self) value (sd_dedup self);
     (case entry of
        Some key \<Rightarrow> Some (self, key)
      | None \<Rightarrow> do {
          (storage, index) \<leftarrow> ps_append (sd_storage self) value;
          key \<leftarrow> i32_from_usize index;
          Some (\<lparr>sd_dedup = sd_dedup self @ [(key, value)], sd_storage = storage\<rparr>, key)
        })
   }"

definition lookup_value :: "probe \<Rightarrow> StringDictionary \<Rightarrow> string \<Rightarrow> nat option option" where
  "lookup_value probes self value = find_entry probes (sd_storage self) value (sd_dedup self)"

text \<open>The conversion \<^verbatim>\<open>as_()\<close> of a 32 bit key into \<^verbatim>\<open>usize\<close> extends its sign.\<close>

definition usize_of_i32 :: "int \<Rightarrow> nat" where
  "usize_of_i32 k = nat (k mod 2 ^ 64)"

definition lookup_id :: "StringDictionary \<Rightarrow> int \<Rightarrow> string option option" where
  "lookup_id self did = ps_get (sd_storage self) (usize_of_i32 did)"

definition usize_inc :: "bool \<Rightarrow> nat \<Rightarrow> nat option" where
  "usize_inc checks n = (if n + 1 < 2 ^ 64 then Some (n + 1) else if checks then None else Some 0)"

definition sd_truncate :: "bool \<Rightarrow> StringDictionary \<Rightarrow> int \<Rightarrow> StringDictionary option" where
  "sd_truncate checks self did = do {
     let i = usize_of_i32 did;
     let dedup = filter (\<lambda>(k, _). k \<le> i) (sd_dedup self);
     len \<leftarrow> usize_inc checks i;
     storage \<leftarrow> ps_truncate (sd_storage self) len;
     Some \<lparr>sd_dedup = dedup, sd_storage = storage\<rparr>
   }"

definition sd_clear :: "StringDictionary \<Rightarrow> StringDictionary" where
  "sd_clear self = \<lparr>sd_dedup = [], sd_storage = ps_clear (sd_storage self)\<rparr>"

text \<open>\<^verbatim>\<open>TryFrom<PackedStringArray>\<close>, with the repeated string as the error.\<close>

fun try_from_loop :: "probe \<Rightarrow> PackedStringArray \<Rightarrow> nat \<Rightarrow> string list \<Rightarrow> (nat \<times> string) list \<Rightarrow> (string + (nat \<times> string) list) option" where
  "try_from_loop probes storage idx [] dedup = Some (Inr dedup)"
| "try_from_loop probes storage idx (value # values) dedup = do {
     entry \<leftarrow> find_entry probes storage value dedup;
     (case entry of
        Some _ \<Rightarrow> Some (Inl value)
      | None \<Rightarrow> do {
          key \<leftarrow> i32_from_usize idx;
          try_from_loop probes storage (idx + 1) values (dedup @ [(key, value)])
        })
   }"

definition sd_try_from :: "probe \<Rightarrow> PackedStringArray \<Rightarrow> (string + StringDictionary) option" where
  "sd_try_from probes storage = do {
     values \<leftarrow> ps_iter storage;
     r \<leftarrow> try_from_loop probes storage 0 values [];
     Some (map_sum id (\<lambda>dedup. \<lparr>sd_dedup = dedup, sd_storage = storage\<rparr>) r)
   }"

section \<open>Tag columns\<close>

definition NULL_DID :: int where
  "NULL_DID = -1"

text \<open>The loop that gives the ids of a part of a column new values in a new dictionary.\<close>

fun rebuild_loop :: "probe \<Rightarrow> StringDictionary \<Rightarrow> StringDictionary \<Rightarrow> int list \<Rightarrow> (StringDictionary \<times> int list) option" where
  "rebuild_loop probes original dict [] = Some (dict, [])"
| "rebuild_loop probes original dict (did # data) =
     (if did = NULL_DID
      then map_option (apsnd ((#) did)) (rebuild_loop probes original dict data)
      else do {
        r \<leftarrow> lookup_id original did;
        value \<leftarrow> r;
        (dict, key) \<leftarrow> lookup_value_or_insert probes dict value;
        map_option (apsnd ((#) (int key))) (rebuild_loop probes original dict data)
      })"

definition rebuild_dictionary :: "probe \<Rightarrow> StringDictionary \<Rightarrow> int list \<Rightarrow> (StringDictionary \<times> int list) option" where
  "rebuild_dictionary probes original data = rebuild_loop probes original sd_new data"

text \<open>
  The loop that writes tag values behind the rows of a column, one for each position, and counts them into statistics. It stops where the
  values run out, which is an error.
\<close>

fun write_tag_loop :: "probe \<Rightarrow> nat \<Rightarrow> nat list \<Rightarrow> string list \<Rightarrow> int list \<Rightarrow> StringDictionary \<Rightarrow> string StatValues
    \<Rightarrow> (int list \<times> StringDictionary \<times> (string + string StatValues)) option" where
  "write_tag_loop probes initial_rows [] values col_data dict stats = Some (col_data, dict, Inr stats)"
| "write_tag_loop probes initial_rows (idx # idxs) [] col_data dict stats = Some (col_data, dict, Inl ''Incorrect number of values provided'')"
| "write_tag_loop probes initial_rows (idx # idxs) (value # values) col_data dict stats = do {
     (dict, did) \<leftarrow> lookup_value_or_insert probes dict value;
     assert_that (initial_rows + idx < length col_data);
     stats \<leftarrow> sv_update (>) (\<lambda>_. False) stats value;
     write_tag_loop probes initial_rows idxs values (col_data[initial_rows + idx := int did]) dict stats
   }"

text \<open>What \<^verbatim>\<open>write_tag\<close> does to the data of a tag column, at the positions the validity mask has set.\<close>

definition write_tag_data :: "probe \<Rightarrow> nat \<Rightarrow> nat \<Rightarrow> nat list \<Rightarrow> string list \<Rightarrow> int list \<Rightarrow> StringDictionary
    \<Rightarrow> (int list \<times> StringDictionary \<times> (string + string StatValues)) option" where
  "write_tag_data probes initial_rows to_insert positions values col_data dict =
     write_tag_loop probes initial_rows positions values (resize (initial_rows + to_insert) NULL_DID col_data) dict sv_new_empty"

text \<open>What dropping a writer that has not committed does to the data of a tag column.\<close>

definition rollback_tag :: "bool \<Rightarrow> nat \<Rightarrow> int list \<Rightarrow> StringDictionary \<Rightarrow> (int list \<times> StringDictionary) option" where
  "rollback_tag checks initial_rows col_data dict = do {
     let col_data = take initial_rows col_data;
     dict \<leftarrow> (if col_data = [] then Some (sd_clear dict) else sd_truncate checks dict (Max (set col_data)));
     Some (col_data, dict)
   }"

section \<open>The dictionary as a list of strings\<close>

definition dict_of :: "string list \<Rightarrow> StringDictionary" where
  "dict_of vs = \<lparr>sd_dedup = zip [0..<length vs] vs, sd_storage = packed vs\<rparr>"

definition index_of :: "string \<Rightarrow> string list \<Rightarrow> nat option" where
  "index_of v vs = map_option fst (find (\<lambda>(k, s). s = v) (zip [0..<length vs] vs))"

text \<open>Interning: the strings so far in order of their keys, and the key of a string.\<close>

definition intern :: "string list \<Rightarrow> string \<Rightarrow> string list \<times> nat" where
  "intern vs v = (case index_of v vs of Some i \<Rightarrow> (vs, i) | None \<Rightarrow> (vs @ [v], length vs))"

lemma index_of_Some: "index_of v vs = Some i \<Longrightarrow> i < length vs \<and> vs ! i = v"
  by (auto simp: index_of_def find_Some_iff)

lemma index_of_None: "index_of v vs = None \<longleftrightarrow> v \<notin> set vs"
proof -
  have "index_of v vs = None \<longleftrightarrow> (\<forall>p \<in> set (zip [0..<length vs] vs). snd p \<noteq> v)"
    by (auto simp: index_of_def find_None_iff)
  also have "\<dots> \<longleftrightarrow> v \<notin> snd ` set (zip [0..<length vs] vs)" by blast
  also have "snd ` set (zip [0..<length vs] vs) = set vs" by (simp flip: set_map)
  finally show ?thesis .
qed

lemma find_entry_exact:
  assumes "hash_table probes" "\<forall>(k, s) \<in> set es. ps_get storage k = Some (Some s)"
  shows "find_entry probes storage v es = Some (map_option fst (find (\<lambda>(k, s). s = v) es))"
  using assms(2)
proof (induction es)
  case (Cons e es)
  then show ?case using assms(1) by (cases e) (auto simp: hash_table_def)
qed simp

lemma find_entry_dict: "hash_table probes \<Longrightarrow> find_entry probes (packed vs) v (zip [0..<length vs] vs) = Some (index_of v vs)"
  unfolding index_of_def by (rule find_entry_exact) (auto simp: in_set_zip)

lemma dict_of_Nil [simp]: "sd_new = dict_of []"
  by (simp add: sd_new_def dict_of_def)

lemma lookup_value_dict: "hash_table probes \<Longrightarrow> lookup_value probes (dict_of vs) v = Some (index_of v vs)"
  by (simp add: lookup_value_def dict_of_def find_entry_dict)

lemma lookup_id_dict: "lookup_id (dict_of vs) k = Some (if usize_of_i32 k < length vs then Some (vs ! usize_of_i32 k) else None)"
  by (simp add: lookup_id_def dict_of_def)

lemma usize_of_nat: "n < 2 ^ 64 \<Longrightarrow> usize_of_i32 (int n) = n"
  by (simp add: usize_of_i32_def nat_mod_as_int)

lemma lookup_or_insert_dict:
  assumes "hash_table probes" "fits (fst (intern vs v))" "length vs < 2 ^ 31"
  shows "lookup_value_or_insert probes (dict_of vs) v = Some (apfst dict_of (intern vs v))"
proof (cases "index_of v vs")
  case None
  then have "ps_append (packed vs) v = Some (packed (vs @ [v]), length vs)" using assms(2) by (intro ps_append_packed) (simp add: intern_def)
  then show ?thesis using None assms(3)
    by (simp add: lookup_value_or_insert_def dict_of_def find_entry_dict [OF assms(1)] intern_def i32_from_usize_def)
next
  case (Some i)
  then show ?thesis by (simp add: lookup_value_or_insert_def dict_of_def find_entry_dict [OF assms(1)] intern_def)
qed

lemma lookup_or_insert_old:
  assumes "hash_table probes" "v \<in> set vs"
  shows "lookup_value_or_insert probes (dict_of vs) v = Some (apfst dict_of (intern vs v))"
  using assms index_of_None [of v vs]
  by (auto simp: lookup_value_or_insert_def dict_of_def find_entry_dict intern_def split: option.split)

lemma retained_entries:
  "filter (\<lambda>(k, _). k \<le> n) (zip [0..<length vs] vs) = zip [0..<length (take (Suc n) vs)] (take (Suc n) vs)"
proof (induction vs rule: rev_induct)
  case (snoc v vs)
  then show ?case by (cases "length vs \<le> n") (auto simp: min_def)
qed simp

lemma truncate_dict: "n + 1 < 2 ^ 64 \<Longrightarrow> sd_truncate checks (dict_of vs) (int n) = Some (dict_of (take (Suc n) vs))"
  using retained_entries [of n vs] by (simp add: sd_truncate_def usize_of_nat usize_inc_def dict_of_def)

lemma clear_dict [simp]: "sd_clear (dict_of vs) = dict_of []"
  by (simp add: sd_clear_def dict_of_def)

lemma intern_cases:
  assumes "intern vs v = (us, i)"
  shows "i < length us" "us ! i = v" "\<exists>added. us = vs @ added" "set us = insert v (set vs)" "distinct vs \<Longrightarrow> distinct us"
    and "length us \<le> length vs + 1"
proof -
  have "i < length us \<and> us ! i = v \<and> (\<exists>added. us = vs @ added) \<and> set us = insert v (set vs) \<and> (distinct vs \<longrightarrow> distinct us) \<and> length us \<le> length vs + 1"
  proof (cases "index_of v vs")
    case None
    then have "v \<notin> set vs" by (simp add: index_of_None)
    moreover have "us = vs @ [v]" "i = length vs" using assms None by (simp_all add: intern_def)
    ultimately show ?thesis by auto
  next
    case (Some j)
    then have "us = vs" "i = j" "j < length vs" "vs ! j = v" using assms index_of_Some [OF Some] by (simp_all add: intern_def)
    then show ?thesis by auto
  qed
  then show "i < length us" "us ! i = v" "\<exists>added. us = vs @ added" "set us = insert v (set vs)" "distinct vs \<Longrightarrow> distinct us"
    "length us \<le> length vs + 1" by blast+
qed

text \<open>An array of strings is a dictionary if no string is repeated.\<close>

lemma try_from_loop_exact:
  assumes "hash_table probes" "length (us @ ws) \<le> 2 ^ 31" "distinct us"
  shows "if distinct (us @ ws) then try_from_loop probes (packed (us @ ws)) (length us) ws (zip [0..<length us] us) = Some (Inr (zip [0..<length (us @ ws)] (us @ ws)))
    else \<exists>v. try_from_loop probes (packed (us @ ws)) (length us) ws (zip [0..<length us] us) = Some (Inl v)"
  using assms(2,3)
proof (induction ws arbitrary: us)
  case (Cons w ws)
  have "find_entry probes (packed (us @ w # ws)) w (zip [0..<length us] us) = Some (index_of w us)"
    unfolding index_of_def by (rule find_entry_exact [OF assms(1)]) (auto simp: in_set_zip nth_append)
  then show ?case using Cons.IH [of "us @ [w]"] Cons.prems index_of_None [of w us]
    by (cases "index_of w us") (auto simp: i32_from_usize_def split: if_splits)
qed simp

lemma try_from_exact:
  assumes "hash_table probes" "length vs \<le> 2 ^ 31"
  shows "if distinct vs then sd_try_from probes (packed vs) = Some (Inr (dict_of vs)) else \<exists>v. sd_try_from probes (packed vs) = Some (Inl v)"
  using try_from_loop_exact [OF assms(1), of "[]" vs] assms(2) by (auto simp: sd_try_from_def dict_of_def split: if_splits)

section \<open>Sequences of operations\<close>

text \<open>Each operation with its answer, on the dictionary and on the list of its strings.\<close>

datatype sd_op = Intern string | Find_Value string | Find_Id int | Truncate int | Clear

datatype sd_answer = Key nat | Maybe_Key "nat option" | Maybe_String "string option" | Done

fun sd_step :: "bool \<Rightarrow> probe \<Rightarrow> StringDictionary \<Rightarrow> sd_op \<Rightarrow> (StringDictionary \<times> sd_answer) option" where
  "sd_step checks probes d (Intern v) = map_option (apsnd Key) (lookup_value_or_insert probes d v)"
| "sd_step checks probes d (Find_Value v) = map_option (\<lambda>r. (d, Maybe_Key r)) (lookup_value probes d v)"
| "sd_step checks probes d (Find_Id k) = map_option (\<lambda>r. (d, Maybe_String r)) (lookup_id d k)"
| "sd_step checks probes d (Truncate k) = map_option (\<lambda>d. (d, Done)) (sd_truncate checks d k)"
| "sd_step checks probes d Clear = Some (sd_clear d, Done)"

fun strings_step :: "string list \<Rightarrow> sd_op \<Rightarrow> string list \<times> sd_answer" where
  "strings_step vs (Intern v) = apsnd Key (intern vs v)"
| "strings_step vs (Find_Value v) = (vs, Maybe_Key (index_of v vs))"
| "strings_step vs (Find_Id k) = (vs, Maybe_String (if 0 \<le> k \<and> nat k < length vs then Some (vs ! nat k) else None))"
| "strings_step vs (Truncate k) = (take (Suc (nat k)) vs, Done)"
| "strings_step vs Clear = ([], Done)"

text \<open>What a call takes: room for a new string, keys of 32 bits, and a key for truncation that is not negative.\<close>

fun sd_may :: "string list \<Rightarrow> sd_op \<Rightarrow> bool" where
  "sd_may vs (Intern v) \<longleftrightarrow> fits (vs @ [v]) \<and> length vs < 2 ^ 31"
| "sd_may vs (Find_Value v) \<longleftrightarrow> True"
| "sd_may vs (Find_Id k) \<longleftrightarrow> - (2 ^ 31) \<le> k \<and> k < 2 ^ 31"
| "sd_may vs (Truncate k) \<longleftrightarrow> 0 \<le> k \<and> k < 2 ^ 31"
| "sd_may vs Clear \<longleftrightarrow> True"

fun sd_run :: "bool \<Rightarrow> probe \<Rightarrow> StringDictionary \<Rightarrow> sd_op list \<Rightarrow> (StringDictionary \<times> sd_answer list) option" where
  "sd_run checks probes d [] = Some (d, [])"
| "sd_run checks probes d (p # ps) = do {
     (d, a) \<leftarrow> sd_step checks probes d p;
     (d, as) \<leftarrow> sd_run checks probes d ps;
     Some (d, a # as)
   }"

fun strings_run :: "string list \<Rightarrow> sd_op list \<Rightarrow> string list \<times> sd_answer list" where
  "strings_run vs [] = (vs, [])"
| "strings_run vs (p # ps) = (let (vs, a) = strings_step vs p; (vs, as) = strings_run vs ps in (vs, a # as))"

fun sd_may_run :: "string list \<Rightarrow> sd_op list \<Rightarrow> bool" where
  "sd_may_run vs [] \<longleftrightarrow> True"
| "sd_may_run vs (p # ps) \<longleftrightarrow> sd_may vs p \<and> sd_may_run (fst (strings_step vs p)) ps"

lemma fits_intern: "fits (vs @ [v]) \<Longrightarrow> fits (fst (intern vs v))"
  by (auto simp: intern_def dest: fits_append split: option.split)

lemma sd_step_refines:
  assumes "hash_table probes" "sd_may vs p" "distinct vs" "length vs \<le> 2 ^ 31"
  shows "sd_step checks probes (dict_of vs) p = Some (apfst dict_of (strings_step vs p))"
    and "distinct (fst (strings_step vs p))" "length (fst (strings_step vs p)) \<le> 2 ^ 31"
proof -
  have "sd_step checks probes (dict_of vs) p = Some (apfst dict_of (strings_step vs p)) \<and> distinct (fst (strings_step vs p)) \<and> length (fst (strings_step vs p)) \<le> 2 ^ 31"
  proof (cases p)
    case (Intern v)
    obtain us i where i: "intern vs v = (us, i)" by fastforce
    have "fits (fst (intern vs v))" using assms(2) Intern by (intro fits_intern) simp
    then have "lookup_value_or_insert probes (dict_of vs) v = Some (dict_of us, i)"
      using lookup_or_insert_dict [OF assms(1), of vs v] assms(2) Intern i by simp
    then show ?thesis using intern_cases(5,6) [OF i] assms(2,3) Intern i by auto
  next
    case (Find_Id k)
    have "usize_of_i32 k = nat k" if "0 \<le> k" using that assms(2) Find_Id by (simp add: usize_of_i32_def)
    moreover have "\<not> usize_of_i32 k < length vs" if "k < 0"
    proof -
      have "k mod 2 ^ 64 = (k + 2 ^ 64) mod 2 ^ 64" by simp
      also have "\<dots> = k + 2 ^ 64" using that assms(2) Find_Id by (intro mod_pos_pos_trivial) simp_all
      finally show ?thesis using that assms(2,4) Find_Id by (simp add: usize_of_i32_def)
    qed
    ultimately show ?thesis using assms(3,4) Find_Id by (cases "0 \<le> k") (simp_all add: lookup_id_dict)
  next
    case (Truncate k)
    then obtain n where "k = int n" "n < 2 ^ 31" using assms(2) zero_le_imp_eq_int by fastforce
    then show ?thesis using assms(3,4) Truncate by (simp add: truncate_dict)
  qed (use assms in \<open>simp_all add: lookup_value_dict\<close>)
  then show "sd_step checks probes (dict_of vs) p = Some (apfst dict_of (strings_step vs p))"
    "distinct (fst (strings_step vs p))" "length (fst (strings_step vs p)) \<le> 2 ^ 31" by blast+
qed

lemma sd_run_refines:
  assumes "hash_table probes" "sd_may_run vs ps" "distinct vs" "length vs \<le> 2 ^ 31"
  shows "sd_run checks probes (dict_of vs) ps = Some (apfst dict_of (strings_run vs ps)) \<and> distinct (fst (strings_run vs ps))"
  using assms(2-)
proof (induction ps arbitrary: vs)
  case (Cons p ps)
  obtain us a where us: "strings_step vs p = (us, a)" by fastforce
  have "sd_step checks probes (dict_of vs) p = Some (dict_of us, a)" "distinct us" "length us \<le> 2 ^ 31"
    using sd_step_refines [OF assms(1), of vs p] Cons.prems us by simp_all
  then show ?case using Cons.IH [of us] Cons.prems us by (cases "strings_run us ps") simp
qed simp

section \<open>Tag columns as lists of optional strings\<close>

definition texts :: "string list \<Rightarrow> int list \<Rightarrow> string option list" where
  "texts vs data = map (\<lambda>k. if k = NULL_DID then None else Some (vs ! nat k)) data"

definition keys_in :: "string list \<Rightarrow> int list \<Rightarrow> bool" where
  "keys_in vs data \<longleftrightarrow> (\<forall>k \<in> set data. k = NULL_DID \<or> 0 \<le> k \<and> k < int (length vs))"

lemma texts_simps [simp]: "texts vs [] = []" "texts vs (k # data) = (if k = NULL_DID then None else Some (vs ! nat k)) # texts vs data"
  by (simp_all add: texts_def)

lemma keys_in_simps [simp]:
  "keys_in vs []" "keys_in vs (k # data) \<longleftrightarrow> (k = NULL_DID \<or> 0 \<le> k \<and> k < int (length vs)) \<and> keys_in vs data"
  by (simp_all add: keys_in_def)

lemma distinct_subset_length:
  fixes vs ws :: "string list"
  assumes "distinct vs" "distinct ws" "set vs \<subseteq> set ws"
  shows "length (concat vs) \<le> length (concat ws)" "length vs \<le> length ws"
proof -
  have "length (concat vs) = (\<Sum>v \<in> set vs. length v)" if "distinct vs" for vs :: "string list"
    using that by (simp add: length_concat sum_list_distinct_conv_sum_set)
  then show "length (concat vs) \<le> length (concat ws)" using assms by (simp add: sum_mono2 del: length_concat)
  show "length vs \<le> length ws" using assms by (metis List.finite_set card_mono distinct_card)
qed

lemma rebuild_loop_exact:
  assumes "hash_table probes" "distinct ws" "fits ws" "length ws \<le> 2 ^ 31"
    and "keys_in ws data" "distinct vs" "set vs \<subseteq> set ws"
  shows "\<exists>added data'. rebuild_loop probes (dict_of ws) (dict_of vs) data = Some (dict_of (vs @ added), data') \<and> distinct (vs @ added)
    \<and> keys_in (vs @ added) data' \<and> texts (vs @ added) data' = texts ws data \<and> set (vs @ added) = set vs \<union> {v. Some v \<in> set (texts ws data)}"
  using assms(5-)
proof (induction data arbitrary: vs)
  case (Cons k data)
  show ?case
  proof (cases "k = NULL_DID")
    case True
    obtain added data' where IH: "rebuild_loop probes (dict_of ws) (dict_of vs) data = Some (dict_of (vs @ added), data')" "distinct (vs @ added)"
        "keys_in (vs @ added) data'" "texts (vs @ added) data' = texts ws data" "set (vs @ added) = set vs \<union> {v. Some v \<in> set (texts ws data)}"
      using Cons.IH [of vs] Cons.prems by auto
    show ?thesis
      by (rule exI [of _ added], rule exI [of _ "k # data'"]) (use IH True in simp)
  next
    case False
    then have k: "0 \<le> k" "nat k < length ws" using Cons.prems(1) by auto
    let ?v = "ws ! nat k"
    obtain us i where us: "intern vs ?v = (us, i)" by fastforce
    note facts = intern_cases [OF us]
    have sub: "set us \<subseteq> set ws" "distinct us" using facts(4,5) Cons.prems k by auto
    have "fits us" using distinct_subset_length(1) [OF sub(2) assms(2) sub(1)] assms(3) by (simp add: fits_def)
    moreover have "length vs < 2 ^ 31 \<or> ?v \<in> set vs"
      using distinct_subset_length(2) [of "?v # vs" ws] assms(2,4) Cons.prems k by (auto simp: subset_iff)
    ultimately have ins: "lookup_value_or_insert probes (dict_of vs) ?v = Some (dict_of us, i)"
      using lookup_or_insert_dict [OF assms(1), of vs ?v] lookup_or_insert_old [OF assms(1), of ?v vs] us by auto
    have "k = int (nat k)" "nat k < 2 ^ 64" using k assms(4) by auto
    then have id: "lookup_id (dict_of ws) k = Some (Some ?v)" using k usize_of_nat [of "nat k"] by (simp add: lookup_id_dict)
    obtain added data' where IH: "rebuild_loop probes (dict_of ws) (dict_of us) data = Some (dict_of (us @ added), data')" "distinct (us @ added)"
        "keys_in (us @ added) data'" "texts (us @ added) data' = texts ws data" "set (us @ added) = set us \<union> {v. Some v \<in> set (texts ws data)}"
      using Cons.IH [of us] Cons.prems sub by auto
    obtain new where new: "us = vs @ new" using facts(3) by blast
    have "rebuild_loop probes (dict_of ws) (dict_of vs) (k # data) = Some (dict_of (us @ added), int i # data')"
      using False ins id IH(1) by simp
    moreover have "(us @ added) ! i = ?v" "i < length (us @ added)" "int i \<noteq> NULL_DID" using facts(1,2) by (simp_all add: nth_append NULL_DID_def)
    ultimately show ?thesis
      by (intro exI [of _ "new @ added"] exI [of _ "int i # data'"]) (use IH False facts(4) in \<open>auto simp: new\<close>)
  qed
qed (auto intro: exI [of _ "[]"])

text \<open>Writing tags only adds strings to the dictionary and leaves the old rows as they were.\<close>

definition room :: "string list \<Rightarrow> string list \<Rightarrow> bool" where
  "room vs vals \<longleftrightarrow> fits (vs @ vals) \<and> length vs + length vals < 2 ^ 31"

lemma room_intern:
  assumes "room vs (v # vals)" "intern vs v = (us, i)"
  shows "room us vals" "fits us" "length vs < 2 ^ 31"
  using assms by (auto simp: room_def intern_def fits_def split: option.splits)

lemma write_tag_loop_exact:
  assumes "hash_table probes" "room vs vals" "distinct vs"
    and "write_tag_loop probes n idxs vals col_data (dict_of vs) stats = Some (col_data', dict, r)"
  shows "\<exists>added. dict = dict_of (vs @ added) \<and> distinct (vs @ added) \<and> take n col_data' = take n col_data \<and> length col_data' = length col_data
    \<and> set added \<subseteq> set vals \<and> length (vs @ added) < 2 ^ 31"
  using assms(2-)
proof (induction idxs arbitrary: vals vs col_data stats)
  case Nil
  then show ?case by (auto simp: room_def intro: exI [of _ "[]"])
next
  case (Cons idx idxs)
  show ?case
  proof (cases vals)
    case Nil
    then show ?thesis using Cons.prems by (auto simp: room_def intro: exI [of _ "[]"])
  next
    case (Cons v rest)
    obtain us i where us: "intern vs v = (us, i)" by fastforce
    note facts = intern_cases [OF us] room_intern [OF Cons.prems(1) [unfolded Cons] us]
    have "lookup_value_or_insert probes (dict_of vs) v = Some (dict_of us, i)"
      using lookup_or_insert_dict [OF assms(1), of vs v] facts us by simp
    then obtain stats' where step: "write_tag_loop probes n idxs rest (col_data[n + idx := int i]) (dict_of us) stats' = Some (col_data', dict, r)"
      using Cons.prems(3) Cons by (auto simp: bind_eq_Some_conv)
    obtain added where "dict = dict_of (us @ added)" "distinct (us @ added)" "take n col_data' = take n col_data" "length col_data' = length col_data"
        "set added \<subseteq> set rest" "length (us @ added) < 2 ^ 31"
      using Cons.IH [OF _ _ step] facts Cons.prems(2) by auto
    moreover obtain new where "us = vs @ new" "set new \<subseteq> {v}"
      using us by (auto simp: intern_def split: option.splits)
    ultimately show ?thesis using Cons by (intro exI [of _ "new @ added"]) auto
  qed
qed

text \<open>The greatest key of some rows, and a dictionary cut behind it.\<close>

lemma texts_prefix: "keys_in vs data \<Longrightarrow> texts (vs @ added) data = texts vs data"
  by (auto simp: texts_def keys_in_def nth_append)

lemma greatest_key:
  assumes "keys_in vs data" "\<exists>k \<in> set data. k \<noteq> NULL_DID"
  obtains n where "Max (set data) = int n" "n < length vs" "keys_in (take (Suc n) vs) data"
proof -
  obtain k where k: "k \<in> set data" "0 \<le> k" using assms by (auto simp: keys_in_def)
  have "Max (set data) \<in> set data" using k(1) by (intro Max_in) auto
  moreover have "k \<le> Max (set data)" using k(1) by simp
  then have "0 \<le> Max (set data)" using k(2) by (rule order_trans [rotated])
  moreover from this calculation have "Max (set data) < int (length vs)" using assms(1) by (auto simp: keys_in_def NULL_DID_def)
  ultimately have m: "0 \<le> Max (set data)" "Max (set data) < int (length vs)" by simp_all
  then obtain n where n: "Max (set data) = int n" using zero_le_imp_eq_int by blast
  have "keys_in (take (Suc n) vs) data"
    unfolding keys_in_def
  proof
    fix j assume j: "j \<in> set data"
    then have "j \<le> int n" using n [symmetric] by simp
    then show "j = NULL_DID \<or> 0 \<le> j \<and> j < int (length (take (Suc n) vs))" using assms(1) j m n by (auto simp: keys_in_def)
  qed
  then show thesis using that m n by simp
qed

lemma find_entry_dangling:
  assumes "hash_table probes" "(k, v) \<in> set es"
  shows "find_entry probes (packed []) v es = None"
  using assms(2)
proof (induction es)
  case (Cons e es)
  then show ?case using assms(1) by (cases e) (auto simp: hash_table_def)
qed simp

section \<open>Properties\<close>

text \<open>
  C15. The string dictionary refines a list of distinct strings: any sequence of insertions, lookups by value and by any key,
  truncations to a key that is not negative, and clearings never panics while strings and keys fit 32 bits, whatever the hash
  function does, gives the answers the list gives, and holds every string under its position. Truncation to a negative key is
  excluded: it goes wrong, as undoing a write to a tag column without values shows.
\<close>

theorem dictionary_run_refines:
  assumes "hash_table probes" "sd_may_run [] ps"
  shows "\<exists>vs. sd_run checks probes sd_new ps = Some (dict_of vs, snd (strings_run [] ps)) \<and> vs = fst (strings_run [] ps) \<and> distinct vs"
  using sd_run_refines [OF assms, of checks] by (cases "strings_run [] ps") simp

theorem dictionary_run_refines_witness:
  "sd_run False (\<lambda>s v. True) sd_new [Intern ''b'', Intern ''a'', Intern ''b'', Truncate 0, Find_Value ''a'']
     = Some (dict_of [''b''], [Key 0, Key 1, Key 0, Done, Maybe_Key None])"
proof -
  have "sd_may_run [] [Intern ''b'', Intern ''a'', Intern ''b'', Truncate 0, Find_Value ''a'']"
    by (simp add: fits_def intern_def index_of_def)
  then show ?thesis
    using dictionary_run_refines [of "\<lambda>s v. True" "[Intern ''b'', Intern ''a'', Intern ''b'', Truncate 0, Find_Value ''a'']" False]
    by (simp add: hash_table_def intern_def index_of_def)
qed

text \<open>
  C25. Rebuilding the dictionary of a part of a tag column keeps the value of every row, NULL included, and the new dictionary
  has exactly the values that occur, each once.
\<close>

theorem rebuild_dictionary_exact:
  assumes "hash_table probes" "distinct ws" "fits ws" "length ws \<le> 2 ^ 31" "keys_in ws data"
  shows "\<exists>vs data'. rebuild_dictionary probes (dict_of ws) data = Some (dict_of vs, data') \<and> texts vs data' = texts ws data
    \<and> keys_in vs data' \<and> distinct vs \<and> set vs = {v. Some v \<in> set (texts ws data)}"
  using rebuild_loop_exact [OF assms, of "[]"] by (auto simp: rebuild_dictionary_def)

theorem rebuild_dictionary_exact_witness:
  "\<exists>vs data'. rebuild_dictionary (\<lambda>s v. s = v) (dict_of [''a'', ''b'', ''c'']) [2, -1, 0, 2] = Some (dict_of vs, data')
     \<and> texts vs data' = [Some ''c'', None, Some ''a'', Some ''c''] \<and> set vs = {''c'', ''a''}"
proof -
  have "\<exists>vs data'. rebuild_dictionary (\<lambda>s v. s = v) (dict_of [''a'', ''b'', ''c'']) [2, -1, 0, 2] = Some (dict_of vs, data')
      \<and> texts vs data' = texts [''a'', ''b'', ''c''] [2, -1, 0, 2] \<and> keys_in vs data' \<and> distinct vs
      \<and> set vs = {v. Some v \<in> set (texts [''a'', ''b'', ''c''] [2, -1, 0, 2])}"
    by (rule rebuild_dictionary_exact) (simp_all add: hash_table_def fits_def NULL_DID_def)
  moreover have "{v. Some v \<in> set (texts [''a'', ''b'', ''c''] [2, -1, 0, 2])} = {''c'', ''a''}"
    by (auto simp: NULL_DID_def)
  ultimately show ?thesis by (auto simp: NULL_DID_def)
qed

text \<open>
  C23. Undoing a write to a tag column with a value restores its rows, whether the write went through or ran out of
  values: the old keys are there again and stand for the old strings, in a dictionary that is consistent.
\<close>

theorem rollback_restores_tags:
  assumes "hash_table probes" "distinct vs" "room vs values" "keys_in vs rows" "\<exists>k \<in> set rows. k \<noteq> NULL_DID"
    and "write_tag_data probes (length rows) to_insert positions values rows (dict_of vs) = Some (col_data, dict, r)"
  shows "\<exists>us. rollback_tag checks (length rows) col_data dict = Some (rows, dict_of us) \<and> distinct us \<and> keys_in us rows \<and> texts us rows = texts vs rows"
proof -
  obtain added where w: "dict = dict_of (vs @ added)" "distinct (vs @ added)" "take (length rows) col_data = rows" "length (vs @ added) < 2 ^ 31"
    using write_tag_loop_exact [OF assms(1,3,2) assms(6) [unfolded write_tag_data_def]] by (auto simp: resize_def)
  obtain n where n: "Max (set rows) = int n" "n < length vs" "keys_in (take (Suc n) vs) rows"
    by (rule greatest_key [OF assms(4,5)])
  have "rows \<noteq> []" using assms(5) by auto
  then have "rollback_tag checks (length rows) col_data dict = Some (rows, dict_of (take (Suc n) vs))"
    using n w truncate_dict [of n checks "vs @ added"] by (simp add: rollback_tag_def)
  moreover have "texts (take (Suc n) vs) rows = texts vs rows" using texts_prefix [OF n(3), of "drop (Suc n) vs"] by simp
  ultimately show ?thesis using n(3) assms(2) by (blast intro: distinct_take)
qed

theorem rollback_restores_tags_witness:
  "\<exists>us. rollback_tag True 2 [0, -1, 1, -1] (dict_of [''a'', ''b'']) = Some ([0, -1], dict_of us) \<and> texts us [0, -1] = [Some ''a'', None]"
proof -
  have "lookup_value_or_insert (\<lambda>s v. True) (dict_of [''a'']) ''b'' = Some (dict_of [''a'', ''b''], 1)"
    using lookup_or_insert_dict [of "\<lambda>s v. True" "[''a'']" "''b''"] by (simp add: hash_table_def intern_def index_of_def fits_def)
  moreover have "u64_add 0 1 = Some 1" by (simp add: u64_add_def)
  ultimately obtain r where w: "write_tag_data (\<lambda>s v. True) (length [0 :: int, -1]) 2 [0, 1] [''b''] [0, -1] (dict_of [''a'']) = Some ([0, -1, 1, -1], dict_of [''a'', ''b''], r)"
    by (simp add: write_tag_data_def resize_def NULL_DID_def numeral_2_eq_2 sv_update_def sv_new_empty_def)
  have "\<exists>us. rollback_tag True (length [0 :: int, -1]) [0, -1, 1, -1] (dict_of [''a'', ''b'']) = Some ([0, -1], dict_of us) \<and> distinct us
      \<and> keys_in us [0, -1] \<and> texts us [0, -1] = texts [''a''] [0, -1]"
    by (rule rollback_restores_tags [OF _ _ _ _ _ w]) (simp_all add: hash_table_def room_def fits_def NULL_DID_def)
  then show ?thesis by (auto simp: NULL_DID_def numeral_2_eq_2)
qed

text \<open>
  C24. Undoing a write to a tag column whose rows are all NULL goes wrong: a build with overflow checks panics, and without them
  the strings are gone while the hash table keeps their keys, so that the next write of a string that was
  taken back panics.
\<close>

theorem rollback_null_tags_breaks:
  assumes "hash_table probes" "distinct vs" "room vs values" "rows \<noteq> []" "set rows = {NULL_DID}"
    and "write_tag_data probes (length rows) to_insert positions values rows (dict_of vs) = Some (col_data, dict, r)"
    and "v \<in> snd ` set (sd_dedup dict)"
  shows "rollback_tag True (length rows) col_data dict = None
    \<and> (\<exists>dict'. rollback_tag False (length rows) col_data dict = Some (rows, dict') \<and> lookup_value_or_insert probes dict' v = None)"
proof -
  obtain added where w: "dict = dict_of (vs @ added)" "take (length rows) col_data = rows" "length (vs @ added) < 2 ^ 31"
    using write_tag_loop_exact [OF assms(1,3,2) assms(6) [unfolded write_tag_data_def]] by (auto simp: resize_def)
  have max: "usize_of_i32 (Max (set rows)) = 2 ^ 64 - 1" by (simp add: assms(5) NULL_DID_def usize_of_i32_def)
  then have checked: "rollback_tag True (length rows) col_data dict = None"
    using w assms(4) by (simp add: rollback_tag_def sd_truncate_def usize_inc_def)
  let ?es = "filter (\<lambda>(k, _). k \<le> 2 ^ 64 - 1) (sd_dedup dict)"
  have "?es = sd_dedup dict" using w(1,3) by (auto simp: dict_of_def filter_id_conv dest!: set_zip_leftD)
  moreover obtain k where "(k, v) \<in> set (sd_dedup dict)" using assms(7) by auto
  ultimately have "find_entry probes (packed []) v ?es = None" by (intro find_entry_dangling [OF assms(1)]) simp
  moreover have "rollback_tag False (length rows) col_data dict = Some (rows, \<lparr>sd_dedup = ?es, sd_storage = packed []\<rparr>)"
    using w assms(4) max by (simp add: rollback_tag_def sd_truncate_def usize_inc_def dict_of_def)
  ultimately show ?thesis using checked by (simp add: lookup_value_or_insert_def)
qed

theorem rollback_null_tags_breaks_witness:
  "rollback_tag True 1 [-1, 0] (dict_of [''a'']) = None
   \<and> (\<exists>dict'. rollback_tag False 1 [-1, 0] (dict_of [''a'']) = Some ([-1], dict') \<and> lookup_value_or_insert (\<lambda>s v. True) dict' ''a'' = None)"
proof -
  have "lookup_value_or_insert (\<lambda>s v. True) (dict_of []) ''a'' = Some (dict_of [''a''], 0)"
    using lookup_or_insert_dict [of "\<lambda>s v. True" "[]" "''a''"] by (simp add: hash_table_def intern_def index_of_def fits_def)
  then obtain r where w: "write_tag_data (\<lambda>s v. True) (length [-1 :: int]) 1 [0] [''a''] [-1] (dict_of []) = Some ([-1, 0], dict_of [''a''], r)"
    by (simp add: write_tag_data_def resize_def NULL_DID_def sv_update_def sv_new_empty_def u64_add_def)
  show ?thesis
    using rollback_null_tags_breaks [OF _ _ _ _ _ w, of "''a''"] by (simp add: hash_table_def room_def fits_def NULL_DID_def dict_of_def)
qed

end
