(* ===== verification/Spec2Isabelle.thy ===== *)
theory Spec2Isabelle
  imports Bitset_Facts Statistics Columns Sort_Key Partition_Facts Mem_Ops Cache_Ttl Lru_System Tsm_Timestamp Tsm_Blocks String_Dictionary
begin

text \<open>
  This development models parts of the InfluxDB 3 core repository and proves them correct: the bit sets and string storage behind
  columns, statistics and column bookkeeping of the data types, partitioning of writes, the in-memory catalog, the cache with its
  eviction policies, and the block encoders of TSM files.

  \<^bold>\<open>Conventions.\<close> A panic (a failed assertion, an index out of range, an \<^verbatim>\<open>unwrap\<close> of nothing, an arithmetic overflow that panics)
  is the value \<open>None\<close> of an option type; an error the code returns is the left side of a sum. Code that mutates takes the old value
  and gives the new one. \<^verbatim>\<open>usize\<close> is \<open>nat\<close>; integers of a width are words where bits or wrap-around matter, and numbers with a
  range check where only values do. Where a build with overflow checks behaves differently from one without, a flag \<open>checks\<close> says
  which one is meant. A \<^verbatim>\<open>BTreeMap\<close> or \<^verbatim>\<open>BTreeSet\<close> is a sorted list and a \<^verbatim>\<open>HashMap\<close> a partial function, or an association list
  where it is iterated over. Doubles are their 64 bits. \<open>Prelude\<close> holds this vocabulary and the lemmas the components share.

  \<^bold>\<open>Bit sets\<close> (\<^verbatim>\<open>arrow_util/src/bitset.rs\<close>: \<open>Bitset\<close>, \<open>Bitset_Facts\<close>). A record of bytes and a length, one definition for each
  method and iterator. The locale \<open>bit_vector\<close> is the contract of a vector of booleans, interpreted on the code's operations: any
  sequence of operations refines a list of booleans, observers and iterators read that list exactly. Two theorems pin down where
  \<^verbatim>\<open>is_all_set\<close> and \<^verbatim>\<open>set\<close> depart from their documentation.

  \<^bold>\<open>Strings\<close> (\<^verbatim>\<open>arrow_util/src/string.rs\<close>, \<^verbatim>\<open>arrow_util/src/dictionary.rs\<close>: \<open>Packed_Strings\<close>, \<open>String_Dictionary\<close>). Every list of
  strings has one packed form, and each operation maps packed forms to packed forms. The dictionary refines a list of distinct
  strings for every hash function. Of columns under construction (\<^verbatim>\<open>mutable_batch/src\<close>) the handling of tag dictionaries is modelled:
  rebuilding one keeps all rows, and undoing a write restores the rows unless all of them are NULL, where it fails.

  \<^bold>\<open>Data types\<close> (\<^verbatim>\<open>data_types/src\<close>, \<^verbatim>\<open>schema/src/sort.rs\<close>: \<open>Time_Types\<close>, \<open>Statistics\<close>, \<open>Columns\<close>, \<open>Sort_Key\<close>). Timestamps and their
  ranges, delete predicates as SQL text, column statistics and table summaries, column sets as sorted lists of ids, sort keys. The locale
  \<open>stat_order\<close> says what statistics need of the order of a value type and is interpreted for all five types; statistics describe
  their column exactly and merging keeps that. Operations on column sets and sort keys are exact.

  \<^bold>\<open>Partitioning\<close> (\<^verbatim>\<open>data_types/src/partition_template.rs\<close>, \<^verbatim>\<open>partition/src\<close>: \<open>Partition_Template\<close>, \<open>Partition_Time\<close>,
  \<open>Partitioner\<close>, \<open>Partition_Facts\<close>). Templates and their validation, rendering of a key for a row with all the caches of the code (last rendered
  timestamps, last bucket, comparison with the row before), run-length encoding of keys, and the split of a write into partitions.
  The cached computation equals the uncached one row by row, partitions hold exactly their rows with exact time bounds, keys are
  bounded in length and can be read back: tag values, buckets, and for a time part the interval of the times in the same year, month or
  day. Percent encoding, grapheme segmentation, date formatting and the hash function are fields of the record \<open>Partition_Ext\<close>, and
  the calendar and parser of chrono of \<open>Chrono\<close>; what the proofs need of them is stated by \<open>percent_codec\<close>,
  \<open>grapheme_segmentation\<close>, \<open>ymd_by_day\<close>, \<open>utc_calendar\<close> and \<open>readable_format\<close>, and the witnesses instantiate the records with concrete
  functions.

  \<^bold>\<open>Catalog\<close> (\<^verbatim>\<open>iox_catalog/src/mem.rs\<close>: \<open>Catalog_Types\<close>, \<open>Mem_Catalog\<close>, \<open>Mem_Facts\<close>, \<open>Mem_Ops\<close>). The state is a record of six
  collections; each repository operation is one definition with its error branches. \<open>mem_step\<close> is the step relation of all operations
  (\<^verbatim>\<open>add_partition\<close>, which is for tests and makes no checks, with the next id and a fresh key),
  and the locale \<open>keyed_rows\<close>, interpreted for namespaces, tables, columns and partitions, carries the invariant that ids are dense and
  keys unique through every step; parquet files have unique object store ids, but not unique row ids. \<open>Mem_Ops\<close> has the exact effect of
  the operations (retention, compare-and-swap of sort keys, combined changes of parquet files) and the places where they depart from
  their interface. The digest that makes partition hash ids and the encoders of snapshots are parameters.

  \<^bold>\<open>Cache\<close> (\<^verbatim>\<open>cache_system/src\<close>: \<open>Addressable_Heap\<close>, \<open>Cache_Policy\<close>, \<open>Cache_Facts\<close>, \<open>Cache_Ttl\<close>, \<open>Lru_Pool\<close>, \<open>Lru_Facts\<close>,
  \<open>Lru_System\<close>). The heap of keys by order implements the locale \<open>priority_map\<close>. A cache is a map with policies that see every change
  and may request further ones; the loop that performs the requests is shown to end without a panic for the modelled policies, as long as the
  sizes in the pool add up to less than \<open>2 ^ 64\<close> (\<open>call_room\<close>). A cache with a time-to-live policy
  refines a map with deadlines in which setting a key that is overdue loses the new value; runs without such a set behave as the plain
  map. Several caches share a resource pool: \<open>sys_step\<close> interleaves their calls with the steps of the clean-up loop. In all reachable
  states the accounting of the pool is exact, nothing panics but the counter of the pool when it overflows, and left alone the clean-up
  loop brings the usage within the limit, choosing the least recently used keys. A call on one cache is one step, as its lock makes it,
  and a call that panics is no step; the clean-up loop takes one step for each lock it takes. A policy is registered with a pool under
  an id that is not in use. Other policies, the refresh policy among them, are not modelled. The provider of durations and the addition of a duration to a time are parameters.

  \<^bold>\<open>TSM blocks\<close> (\<^verbatim>\<open>influxdb_tsm/src/encoders\<close>: \<open>Tsm_Simple8b\<close>, \<open>Tsm_Integer\<close>, \<open>Tsm_Timestamp\<close>, \<open>Tsm_Blocks\<close>). Encoders and
  decoders of integers, unsigned integers, timestamps, booleans and strings down to bits. Encoding succeeds and decoding gives the values
  back, whichever encoding is chosen; with overflow checks this takes that differences stay in range, which the theorems state.
  Variable-length integers (\<open>varint_codec\<close>) and the compressor (\<open>snap_codec\<close>) are parameters with what their crates promise; the
  witnesses use a LEB128 codec and a compressor that copies. The logarithm of the divisor, taken in floating point by the code, is
  modelled as the exact one: its argument is a power of ten not above \<open>10 ^ 12\<close>, where it is exact.

  \<^bold>\<open>Loops.\<close> Loops are recursive functions with termination proofs. Two have nothing in them that makes them end and are partial
  functions: the loop over the strings of a block, shown to return on blocks of the encoder, and the loop over change
  requests of a cache, shown to return for all policies modelled. The clean-up loop runs in steps, and its liveness theorem says that some number
  of steps gets it back to sleep. No definition takes fuel.

  \<^bold>\<open>Not modelled.\<close> Queries, schemas and parquet files, which are made of Arrow and DataFusion values; the SQL back ends of the catalog;
  parsers of line protocol and InfluxQL; network services, clients, metrics, tracing and asynchronous plumbing; generated code. Of columns under construction everything but
  tag dictionaries. Of the cache the loaders, the refresh policy and the driver, which run on timers and tasks; of the TSM crate the float encoder, the
  reader and the mapper. Capacity and memory sizes are left out except where an overflow in their computation makes a call panic.
\<close>

end
